(* ===== verification/Omega_Prelude.thy ===== *)
theory Omega_Prelude
  imports Main "HOL-Library.Word" "HOL-Library.List_Lexorder" "HOL-Library.Multiset"
begin

text \<open>
  Shared material of the development: the machine types of the Rust sources, results
  (\<open>Result<T, E>\<close> as a sum with the error on the left) with the \<open>?\<close> operator, big- and
  little-endian byte strings of machine words, the standard-library functions the sources
  call (\<open>next_power_of_two\<close>, checked conversions), and generic facts about lists.
\<close>

section \<open>Machine types\<close>

type_synonym u8 = "8 word"
type_synonym u16 = "16 word"
type_synonym u32 = "32 word"
type_synonym u64 = "64 word"
type_synonym u128 = "128 word"
type_synonym bytes = "u8 list"

text \<open>\<open>type Hash = [u8; 32]\<close>: a byte string; that it has 32 bytes is the predicate \<open>hash_wf\<close>.\<close>

type_synonym hash = bytes

abbreviation hash_wf :: "hash \<Rightarrow> bool" where
  "hash_wf h \<equiv> length h = 32"

text \<open>The digest functions come from third-party crates (\<open>blake3\<close>, \<open>sha3\<close>): a parameter.\<close>

type_synonym digest = "bytes \<Rightarrow> hash"

text \<open>What the crates document of a digest function: it returns 32 bytes.\<close>

definition digest32 :: "digest \<Rightarrow> bool" where
  "digest32 H \<longleftrightarrow> (\<forall>x. length (H x) = 32)"

lemma digest32_length [simp]: "digest32 H \<Longrightarrow> length (H x) = 32"
  by (simp add: digest32_def)

named_theorems leaf_defs \<open>definitions of the leaf encoders\<close>
named_theorems byte_len \<open>lengths of encoded values\<close>

section \<open>Results\<close>

definition res_bind :: "'e + 'a \<Rightarrow> ('a \<Rightarrow> 'e + 'b) \<Rightarrow> 'e + 'b" where
  "res_bind m f = (case m of Inl e \<Rightarrow> Inl e | Inr x \<Rightarrow> f x)"

lemma res_bind_simps [simp]:
  "res_bind (Inl e) f = Inl e"
  "res_bind (Inr x) f = f x"
  by (simp_all add: res_bind_def)

lemma res_bind_eq_Inr [simp]:
  "res_bind m f = Inr y \<longleftrightarrow> (\<exists>x. m = Inr x \<and> f x = Inr y)"
  by (cases m) auto

lemma res_bind_eq_Inl:
  "res_bind m f = Inl e \<longleftrightarrow> m = Inl e \<or> (\<exists>x. m = Inr x \<and> f x = Inl e)"
  by (cases m) auto

text \<open>A guard that returns an error passes exactly when its condition is false.\<close>

lemma guard_eq_Inr: "((if P then Inl e else m) = Inr y) \<longleftrightarrow> \<not> P \<and> m = Inr y"
  by simp

lemma res_bind_assoc: "res_bind (res_bind m f) g = res_bind m (\<lambda>x. res_bind (f x) g)"
  by (cases m) auto

definition ok_or :: "'a option \<Rightarrow> 'e \<Rightarrow> 'e + 'a" where
  "ok_or x e = (case x of None \<Rightarrow> Inl e | Some v \<Rightarrow> Inr v)"

lemma ok_or_simps [simp]: "ok_or None e = Inl e" "ok_or (Some v) e = Inr v"
  by (simp_all add: ok_or_def)

lemma ok_or_eq_Inr [simp]: "ok_or x e = Inr v \<longleftrightarrow> x = Some v"
  by (cases x) auto

definition map_err :: "('e \<Rightarrow> 'f) \<Rightarrow> 'e + 'a \<Rightarrow> 'f + 'a" where
  "map_err f m = (case m of Inl e \<Rightarrow> Inl (f e) | Inr x \<Rightarrow> Inr x)"

lemma map_err_simps [simp]: "map_err f (Inl e) = Inl (f e)" "map_err f (Inr x) = Inr x"
  by (simp_all add: map_err_def)

lemma map_err_eq_Inl: "map_err f m = Inl e \<longleftrightarrow> (\<exists>x. m = Inl x \<and> e = f x)"
  by (cases m) auto

lemma map_err_eq_Inr [simp]: "map_err f m = Inr x \<longleftrightarrow> m = Inr x"
  by (cases m) auto

text \<open>\<open>iter().map(f).collect::<Result<Vec<_>, _>>()\<close>: the first error wins.\<close>

fun collect_results :: "('a \<Rightarrow> 'e + 'b) \<Rightarrow> 'a list \<Rightarrow> 'e + 'b list" where
  "collect_results f [] = Inr []"
| "collect_results f (x # xs) =
     res_bind (f x) (\<lambda>y. res_bind (collect_results f xs) (\<lambda>ys. Inr (y # ys)))"

lemma collect_results_Inr:
  "collect_results f xs = Inr ys \<longleftrightarrow> list_all2 (\<lambda>x y. f x = Inr y) xs ys"
proof (induction xs arbitrary: ys)
  case Nil
  then show ?case by auto
next
  case (Cons x xs)
  then show ?case by (cases ys) auto
qed

lemma collect_results_mem:
  "collect_results f xs = Inr ys \<Longrightarrow> y \<in> set ys \<longleftrightarrow> (\<exists>x \<in> set xs. f x = Inr y)"
  by (induction xs arbitrary: ys) auto

lemma collect_results_length: "collect_results f xs = Inr ys \<Longrightarrow> length ys = length xs"
  by (simp add: collect_results_Inr list_all2_lengthD)

lemma collect_results_map [simp]: "collect_results (\<lambda>x. Inr (f x)) xs = Inr (map f xs)"
  by (induction xs) auto

lemma collect_results_total:
  "(\<And>x. x \<in> set xs \<Longrightarrow> f x = Inr (g x)) \<Longrightarrow> collect_results f xs = Inr (map g xs)"
  by (induction xs) auto

section \<open>Words as byte strings\<close>

text \<open>
  \<open>be_bytes n v\<close> are the \<open>n\<close> big-endian bytes of \<open>v\<close>, \<open>be_nat\<close> reads them back;
  \<open>to_be_bytes\<close> and \<open>from_be_bytes\<close> are the methods of Rust's integer types, \<open>to_le_bytes\<close>
  and \<open>from_le_bytes\<close> the little-endian ones.
\<close>

fun be_bytes :: "nat \<Rightarrow> nat \<Rightarrow> bytes" where
  "be_bytes 0 v = []"
| "be_bytes (Suc n) v = be_bytes n (v div 256) @ [of_nat (v mod 256)]"

definition be_nat :: "bytes \<Rightarrow> nat" where
  "be_nat bs = foldl (\<lambda>a b. a * 256 + unat b) 0 bs"

definition to_be_bytes :: "'a::len word \<Rightarrow> bytes" where
  "to_be_bytes w = be_bytes (LENGTH('a) div 8) (unat w)"

definition from_be_bytes :: "bytes \<Rightarrow> 'a::len word" where
  "from_be_bytes bs = of_nat (be_nat bs)"

definition to_le_bytes :: "'a::len word \<Rightarrow> bytes" where
  "to_le_bytes w = rev (to_be_bytes w)"

definition from_le_bytes :: "bytes \<Rightarrow> 'a::len word" where
  "from_le_bytes bs = from_be_bytes (rev bs)"

lemma length_be_bytes [simp]: "length (be_bytes n v) = n"
  by (induction n arbitrary: v) auto

lemma be_bytes_numeral [simp]:
  "be_bytes (numeral k) v = be_bytes (pred_numeral k) (v div 256) @ [of_nat (v mod 256)]"
  unfolding numeral_eq_Suc [of k] by (rule be_bytes.simps)

lemma be_nat_snoc [simp]: "be_nat (bs @ [b]) = be_nat bs * 256 + unat b"
  by (simp add: be_nat_def)

lemma be_nat_Nil [simp]: "be_nat [] = 0"
  by (simp add: be_nat_def)

lemma unat_byte_mod [simp]: "unat (of_nat (v mod 256) :: u8) = v mod 256"
  by (simp add: unat_of_nat take_bit_eq_mod)

lemma be_nat_be_bytes: "be_nat (be_bytes n v) = v mod 256 ^ n"
proof (induction n arbitrary: v)
  case 0
  then show ?case by simp
next
  case (Suc n)
  have "v div 256 mod 256 ^ n * 256 + v mod 256 = v mod (256 * 256 ^ n)"
    by (simp add: mod_mult2_eq)
  then show ?case by (simp add: Suc)
qed

lemma be_bytes_be_nat: "be_bytes (length bs) (be_nat bs) = bs"
proof (induction bs rule: rev_induct)
  case Nil
  then show ?case by simp
next
  case (snoc b bs)
  have "unat b < 256"
    using unsigned_less [of b, where ?'a = nat] by simp
  then show ?case
    using snoc by simp
qed

lemma be_nat_less: "be_nat bs < 256 ^ length bs"
  by (metis be_bytes_be_nat be_nat_be_bytes mod_less_divisor zero_less_power zero_less_numeral)

lemma be_bytes_inject:
  "v < 256 ^ n \<Longrightarrow> w < 256 ^ n \<Longrightarrow> be_bytes n v = be_bytes n w \<longleftrightarrow> v = w"
  by (metis be_nat_be_bytes mod_less)

lemma byte_width_power:
  assumes "8 dvd LENGTH('a::len)"
  shows "(256::nat) ^ (LENGTH('a) div 8) = 2 ^ LENGTH('a)"
proof -
  from assms obtain k where k: "LENGTH('a) = 8 * k" ..
  have "(256::nat) ^ k = (2 ^ 8) ^ k" by simp
  also have "\<dots> = 2 ^ (8 * k)" by (simp only: power_mult)
  finally show ?thesis by (simp add: k)
qed

lemma length_to_be_bytes: "length (to_be_bytes (w :: 'a::len word)) = LENGTH('a) div 8"
  by (simp add: to_be_bytes_def)

lemma from_to_be_bytes:
  assumes "8 dvd LENGTH('a::len)"
  shows "from_be_bytes (to_be_bytes w) = (w :: 'a word)"
proof -
  have "unat w < 2 ^ LENGTH('a)"
    using unsigned_less [of w, where ?'a = nat] by simp
  then show ?thesis
    by (simp add: from_be_bytes_def to_be_bytes_def be_nat_be_bytes byte_width_power [OF assms])
qed

lemma to_be_bytes_inject:
  assumes "8 dvd LENGTH('a::len)"
  shows "to_be_bytes v = to_be_bytes (w :: 'a word) \<longleftrightarrow> v = w"
  by (metis assms from_to_be_bytes)

lemma to_from_be_bytes:
  assumes "8 dvd LENGTH('a::len)" "length bs = LENGTH('a) div 8"
  shows "to_be_bytes (from_be_bytes bs :: 'a word) = bs"
proof -
  have "be_nat bs < 2 ^ LENGTH('a)"
    using be_nat_less [of bs] by (simp add: assms byte_width_power)
  then have "unat (of_nat (be_nat bs) :: 'a word) = be_nat bs"
    by (simp add: unat_of_nat take_bit_eq_mod)
  then show ?thesis
    using be_bytes_be_nat [of bs]
    by (simp add: from_be_bytes_def to_be_bytes_def flip: assms(2))
qed

lemma length_to_be_bytes_widths [simp, byte_len]:
  "length (to_be_bytes (a :: u8)) = 1"
  "length (to_be_bytes (b :: u16)) = 2"
  "length (to_be_bytes (c :: u32)) = 4"
  "length (to_be_bytes (d :: u64)) = 8"
  "length (to_be_bytes (e :: u128)) = 16"
  by (simp_all add: length_to_be_bytes)

lemma to_be_bytes_inject_widths [simp]:
  "to_be_bytes (b :: u16) = to_be_bytes b' \<longleftrightarrow> b = b'"
  "to_be_bytes (c :: u32) = to_be_bytes c' \<longleftrightarrow> c = c'"
  "to_be_bytes (d :: u64) = to_be_bytes d' \<longleftrightarrow> d = d'"
  "to_be_bytes (e :: u128) = to_be_bytes e' \<longleftrightarrow> e = e'"
  by (simp_all add: to_be_bytes_inject)

lemma from_to_be_bytes_widths [simp]:
  "from_be_bytes (to_be_bytes (b :: u16)) = b"
  "from_be_bytes (to_be_bytes (c :: u32)) = c"
  "from_be_bytes (to_be_bytes (d :: u64)) = d"
  "from_be_bytes (to_be_bytes (e :: u128)) = e"
  by (simp_all add: from_to_be_bytes)

text \<open>\<open>x as u64\<close> of a length, and \<open>u16::try_from(x)\<close>, \<open>u32::try_from(x)\<close>.\<close>

definition as_u64 :: "nat \<Rightarrow> u64" where
  "as_u64 n = of_nat n"

definition try_u16 :: "nat \<Rightarrow> u16 option" where
  "try_u16 n = (if n < 2 ^ 16 then Some (of_nat n) else None)"

definition try_u32 :: "nat \<Rightarrow> u32 option" where
  "try_u32 n = (if n < 2 ^ 32 then Some (of_nat n) else None)"

lemma unat_as_u64: "n < 2 ^ 64 \<Longrightarrow> unat (as_u64 n) = n"
  by (simp add: as_u64_def unat_of_nat take_bit_eq_mod)

lemma as_u64_inject: "m < 2 ^ 64 \<Longrightarrow> n < 2 ^ 64 \<Longrightarrow> as_u64 m = as_u64 n \<longleftrightarrow> m = n"
  by (metis unat_as_u64)

lemma unat_ucast_u32 [simp]: "unat (ucast (x :: u32) :: u64) = unat x"
proof -
  have "unat x < 2 ^ 32" using unsigned_less [of x, where ?'a = nat] by simp
  then show ?thesis by (simp add: unsigned_ucast_eq take_bit_eq_mod)
qed

lemma unat_ucast_u8 [simp]:
  "unat (ucast (x :: u8) :: u64) = unat x" "unat (ucast (x :: u8) :: u32) = unat x"
proof -
  have "unat x < 2 ^ 8" using unsigned_less [of x, where ?'a = nat] by simp
  then show "unat (ucast (x :: u8) :: u64) = unat x" "unat (ucast (x :: u8) :: u32) = unat x"
    by (simp_all add: unsigned_ucast_eq take_bit_eq_mod)
qed

lemma try_u16_Some: "try_u16 n = Some w \<longleftrightarrow> n < 2 ^ 16 \<and> unat w = n"
  by (auto simp: try_u16_def unat_of_nat take_bit_eq_mod split: if_splits)

lemma try_u32_Some: "try_u32 n = Some w \<longleftrightarrow> n < 2 ^ 32 \<and> unat w = n"
  by (auto simp: try_u32_def unat_of_nat take_bit_eq_mod split: if_splits)

text \<open>Byte string literals, \<open>b"..."\<close>.\<close>

definition ascii :: "string \<Rightarrow> bytes" where
  "ascii s = map of_char s"

lemma length_ascii [simp]: "length (ascii s) = length s"
  by (simp add: ascii_def)

section \<open>Lists\<close>

text \<open>Pieces of a fixed length can be read off their concatenation.\<close>

lemma concat_fixed_inject:
  "\<forall>x \<in> set xs \<union> set ys. length x = n \<Longrightarrow> length xs = length ys \<Longrightarrow> concat xs @ r = concat ys @ r' \<Longrightarrow>
     xs = ys \<and> r = r'"
proof (induction xs arbitrary: ys)
  case Nil
  then show ?case by simp
next
  case (Cons x xs)
  then obtain y ys' where "ys = y # ys'" by (cases ys) auto
  with Cons.prems Cons.IH [of ys'] show ?case by auto
qed

lemma concat_map_fixed_inject:
  assumes "\<And>x. x \<in> set xs \<union> set ys \<Longrightarrow> length (f x) = n" "length xs = length ys"
    "concat (map f xs) @ r = concat (map f ys) @ r'" "inj_on f (set xs \<union> set ys)"
  shows "xs = ys \<and> r = r'"
proof -
  have "map f xs = map f ys \<and> r = r'"
    using assms(1-3) by (intro concat_fixed_inject [of _ _ n]) auto
  with assms(4) show ?thesis by (auto dest: map_inj_on)
qed

text \<open>\<open>slice::get\<close>, and an index expression whose \<open>None\<close> is the out-of-range panic.\<close>

definition get_at :: "'a list \<Rightarrow> nat \<Rightarrow> 'a option" where
  "get_at xs i = (if i < length xs then Some (xs ! i) else None)"

lemma get_at_Some [simp]: "get_at xs i = Some x \<longleftrightarrow> i < length xs \<and> xs ! i = x"
  by (auto simp: get_at_def)

lemma get_at_None [simp]: "get_at xs i = None \<longleftrightarrow> length xs \<le> i"
  by (auto simp: get_at_def)

text \<open>\<open>usize::next_power_of_two\<close>: the smallest power of two that is at least \<open>n\<close>.\<close>

function pow2_from :: "nat \<Rightarrow> nat \<Rightarrow> nat" where
  "pow2_from p n = (if p = 0 \<or> n \<le> p then p else pow2_from (2 * p) n)"
  by pat_completeness auto
termination
  by (relation "measure (\<lambda>(p, n). n - p)") auto

declare pow2_from.simps [simp del]

definition next_power_of_two :: "nat \<Rightarrow> nat" where
  "next_power_of_two n = pow2_from 1 n"

lemma pow2_from_spec:
  "0 < p \<Longrightarrow> \<exists>k. pow2_from p n = p * 2 ^ k \<and> n \<le> p * 2 ^ k \<and> (\<forall>j<k. p * 2 ^ j < n)"
proof (induction p n rule: pow2_from.induct)
  case (1 p n)
  show ?case
  proof (cases "n \<le> p")
    case True
    with 1 show ?thesis
      by (intro exI [of _ 0]) (simp add: pow2_from.simps [of p n])
  next
    case False
    with 1 obtain k where k: "pow2_from (2 * p) n = 2 * p * 2 ^ k" "n \<le> 2 * p * 2 ^ k"
      "\<forall>j<k. 2 * p * 2 ^ j < n"
      by auto
    have "\<forall>j<Suc k. p * 2 ^ j < n"
    proof (intro allI impI)
      fix j assume "j < Suc k"
      then show "p * 2 ^ j < n"
        using k(3) False by (cases j) (auto simp: ac_simps)
    qed
    with k False 1 show ?thesis
      by (intro exI [of _ "Suc k"]) (simp add: pow2_from.simps [of p n] ac_simps)
  qed
qed

lemma next_power_of_two_spec:
  obtains k where "next_power_of_two n = 2 ^ k" "n \<le> 2 ^ k" "\<And>j. j < k \<Longrightarrow> 2 ^ j < n"
  using pow2_from_spec [of 1 n] that by (auto simp: next_power_of_two_def)

lemma le_next_power_of_two: "n \<le> next_power_of_two n"
  by (rule next_power_of_two_spec [of n]) simp

section \<open>Runs of a step function\<close>

fun run_steps :: "('c \<Rightarrow> 's \<Rightarrow> 'r \<times> 's) \<Rightarrow> 'c list \<Rightarrow> 's \<Rightarrow> 'r list \<times> 's" where
  "run_steps step [] s = ([], s)"
| "run_steps step (c # cs) s =
     (case step c s of (r, s1) \<Rightarrow> case run_steps step cs s1 of (rs, s2) \<Rightarrow> (r # rs, s2))"

lemma run_steps_Cons:
  "run_steps step (c # cs) s = (rs, s2) \<longleftrightarrow>
     (\<exists>r s1 rs'. step c s = (r, s1) \<and> run_steps step cs s1 = (rs', s2) \<and> rs = r # rs')"
  by (auto split: prod.splits)

lemma run_steps_append:
  "run_steps step (as @ bs) s = (rs, s2) \<longleftrightarrow>
     (\<exists>ra s1 rb. run_steps step as s = (ra, s1) \<and> run_steps step bs s1 = (rb, s2) \<and> rs = ra @ rb)"
  by (induction as arbitrary: s rs) (auto simp: run_steps_Cons simp del: run_steps.simps(2))

lemma run_steps_length: "run_steps step cs s = (rs, s') \<Longrightarrow> length rs = length cs"
  by (induction cs arbitrary: s rs) (auto simp: run_steps_Cons simp del: run_steps.simps(2))

lemma run_steps_invariant:
  assumes "\<And>c s r s'. ok c \<Longrightarrow> I s \<Longrightarrow> step c s = (r, s') \<Longrightarrow> I s'"
  shows "list_all ok cs \<Longrightarrow> I s \<Longrightarrow> run_steps step cs s = (rs, s') \<Longrightarrow> I s'"
proof (induction cs arbitrary: s rs)
  case (Cons c cs)
  then obtain r s1 rs' where *: "step c s = (r, s1)" "run_steps step cs s1 = (rs', s')"
    by (auto simp: run_steps_Cons simp del: run_steps.simps(2))
  from assms [OF _ Cons.prems(2) *(1)] Cons.prems(1) have "I s1" by simp
  with Cons.IH [OF _ _ *(2)] Cons.prems(1) show ?case by simp
qed simp

section \<open>Decimal text\<close>

text \<open>\<open>Display\<close> of an unsigned integer.\<close>

definition digit_char :: "nat \<Rightarrow> char" where
  "digit_char d = char_of (48 + d)"

fun show_nat :: "nat \<Rightarrow> string" where
  "show_nat n = (if n < 10 then [digit_char n] else show_nat (n div 10) @ [digit_char (n mod 10)])"

declare show_nat.simps [simp del]

definition read_nat :: "string \<Rightarrow> nat" where
  "read_nat s = foldl (\<lambda>a c. 10 * a + (of_char c - 48)) 0 s"

lemma of_char_digit: "d < 10 \<Longrightarrow> of_char (digit_char d) = (48 + d :: nat)"
  by (simp add: digit_char_def)

lemma read_show_nat: "read_nat (show_nat n) = n"
  by (induction n rule: show_nat.induct) (subst show_nat.simps, auto simp: read_nat_def of_char_digit)

lemma show_nat_inject [simp]: "show_nat m = show_nat n \<longleftrightarrow> m = n"
  by (metis read_show_nat)

lemma show_nat_digits: "c \<in> set (show_nat n) \<Longrightarrow> of_char c \<in> {48..<58::nat}"
proof (induction n rule: show_nat.induct)
  case (1 n)
  then show ?case by (subst (asm) show_nat.simps) (auto simp: of_char_digit split: if_splits)
qed

lemma split_at_separator:
  "x \<notin> set as \<Longrightarrow> x \<notin> set cs \<Longrightarrow> as @ x # bs = cs @ x # ds \<longleftrightarrow> as = cs \<and> bs = ds"
proof (induction as arbitrary: cs)
  case Nil
  then show ?case by (cases cs) auto
next
  case (Cons a as)
  then show ?case by (cases cs) auto
qed

section \<open>Parsers\<close>

text \<open>A parser reads from the front of its input and returns the rest.\<close>

type_synonym ('e, 'a) parser = "bytes \<Rightarrow> 'e + 'a \<times> bytes"

definition dbind :: "('e, 'a) parser \<Rightarrow> ('a \<Rightarrow> ('e, 'b) parser) \<Rightarrow> ('e, 'b) parser" where
  "dbind p f = (\<lambda>bs. case p bs of Inl e \<Rightarrow> Inl e | Inr (x, r) \<Rightarrow> f x r)"

definition dreturn :: "'a \<Rightarrow> ('e, 'a) parser" where
  "dreturn x = (\<lambda>bs. Inr (x, bs))"

text \<open>\<open>for _ in 0..n\<close> around one push of a parsed element.\<close>

fun decode_many :: "nat \<Rightarrow> ('e, 'a) parser \<Rightarrow> ('e, 'a list) parser" where
  "decode_many 0 p = dreturn []"
| "decode_many (Suc n) p = dbind p (\<lambda>x. dbind (decode_many n p) (\<lambda>xs. dreturn (x # xs)))"

named_theorems parse_rules \<open>decoders applied to the encoding they read back\<close>

lemma dbind_apply: "dbind p f bs = (case p bs of Inl e \<Rightarrow> Inl e | Inr (x, r) \<Rightarrow> f x r)"
  by (simp add: dbind_def)

lemmas [parse_rules] = dbind_apply dreturn_def

lemma parse_many:
  assumes "\<And>x r. x \<in> set xs \<Longrightarrow> p (enc x @ r) = Inr (x, r)"
  shows "decode_many (length xs) p (concat (map enc xs) @ r) = Inr (xs, r)"
  using assms by (induction xs) (simp_all add: parse_rules)

lemma dbind_Inr: "dbind p f bs = Inr y \<longleftrightarrow> (\<exists>x r. p bs = Inr (x, r) \<and> f x r = Inr y)"
  by (auto simp: dbind_def split: sum.splits)

lemma decode_many_all:
  assumes "\<And>bs x r. p bs = Inr (x, r) \<Longrightarrow> P x"
  shows "decode_many n p bs = Inr (xs, r) \<Longrightarrow> length xs = n \<and> list_all P xs"
proof (induction n arbitrary: bs xs r)
  case 0
  then show ?case by (simp add: dreturn_def)
next
  case (Suc n)
  then obtain x ys r' where "p bs = Inr (x, r')" "decode_many n p r' = Inr (ys, r)" "xs = x # ys"
    by (auto simp: dbind_Inr dreturn_def)
  with Suc.IH assms show ?case by simp
qed

section \<open>A digest for concrete examples\<close>

text \<open>
  A function with the digest interface, for the concrete inputs of the examples: 31 zero
  bytes and the sum of the input bytes. It has no collision on the strings they hash.
\<close>

definition sum_digest :: digest where
  "sum_digest x = replicate 31 0 @ [sum_list x]"

lemma digest32_sum_digest [simp]: "digest32 sum_digest"
  by (simp add: digest32_def sum_digest_def)

text \<open>Injectivity on a computed finite set.\<close>

lemma inj_on_by_card: "finite A \<Longrightarrow> card (f ` A) = card A \<Longrightarrow> inj_on f A"
  by (rule eq_card_imp_inj_on)

end
