(* ===== verification/Merkle_Tree.thy ===== *)
theory Merkle_Tree
  imports Omega_Prelude
begin

text \<open>
  The binary Merkle tree of \<open>omega-commitment-core\<close> (\<open>hash.rs\<close>, \<open>tree.rs\<close>): the
  domain-separated leaf and node hashes, the layered builder (\<open>build_v1\<close> and the legacy
  \<open>build\<close>), and the accessors. The lemmas relate the layered builder to a recursive
  specification of a Merkle root, show that building never panics, and that a root binds
  the sub-tree id and the set of payloads.
\<close>

section \<open>Hashes and domain tags\<close>

text \<open>The parameter \<open>H\<close> stands for the \<open>blake3\<close> crate, \<open>S\<close> for the \<open>sha3\<close> crate.\<close>

definition blake3_256 :: "digest \<Rightarrow> bytes \<Rightarrow> hash" where
  "blake3_256 H data = H data"

definition sha3_256 :: "digest \<Rightarrow> bytes \<Rightarrow> hash" where
  "sha3_256 S data = S data"

definition dual_hash :: "digest \<Rightarrow> digest \<Rightarrow> bytes \<Rightarrow> hash \<times> hash" where
  "dual_hash H S data = (blake3_256 H data, sha3_256 S data)"

declare blake3_256_def [simp] sha3_256_def [simp]

definition DOMAIN_LEAF :: bytes where
  "DOMAIN_LEAF = ascii ''omega:v2:leaf''"

definition DOMAIN_NODE :: bytes where
  "DOMAIN_NODE = ascii ''omega:v2:node''"

definition EMPTY_INDEX_SENTINEL :: u64 where
  "EMPTY_INDEX_SENTINEL = - 1"

definition ZERO_HASH :: hash where
  "ZERO_HASH = replicate 32 0"

datatype build_error = DuplicateLeafPayload u8 nat

definition leaf_preimage :: "u8 \<Rightarrow> u64 \<Rightarrow> bytes \<Rightarrow> bytes" where
  "leaf_preimage sub_tree_id canonical_index payload =
     DOMAIN_LEAF @ [sub_tree_id] @ to_be_bytes canonical_index
       @ to_be_bytes (as_u64 (length payload)) @ payload"

definition leaf_hash_v2 :: "digest \<Rightarrow> u8 \<Rightarrow> u64 \<Rightarrow> bytes \<Rightarrow> hash" where
  "leaf_hash_v2 H sub_tree_id canonical_index payload =
     blake3_256 H (leaf_preimage sub_tree_id canonical_index payload)"

definition node_preimage :: "hash \<Rightarrow> hash \<Rightarrow> bytes" where
  "node_preimage left right = DOMAIN_NODE @ left @ right"

definition node_hash_v2 :: "digest \<Rightarrow> hash \<Rightarrow> hash \<Rightarrow> hash" where
  "node_hash_v2 H left right = blake3_256 H (node_preimage left right)"

text \<open>The node hash of the legacy tree: no domain tag.\<close>

definition node_hash_legacy :: "digest \<Rightarrow> hash \<Rightarrow> hash \<Rightarrow> hash" where
  "node_hash_legacy H left right = blake3_256 H (left @ right)"

section \<open>The layered builder\<close>

record merkle_tree =
  leaves :: "hash list"
  layers :: "hash list list"

text \<open>
  One pass of the inner loop: \<open>chunks(2)\<close> of a layer, each hashed. An odd layer would index
  \<open>chunk[1]\<close> out of range and panic: \<open>None\<close>.
\<close>

fun hash_pairs :: "(hash \<Rightarrow> hash \<Rightarrow> hash) \<Rightarrow> hash list \<Rightarrow> hash list option" where
  "hash_pairs f [] = Some []"
| "hash_pairs f [x] = None"
| "hash_pairs f (x # y # r) = map_option (Cons (f x y)) (hash_pairs f r)"

lemma hash_pairs_length: "hash_pairs f xs = Some ys \<Longrightarrow> length xs = 2 * length ys"
  by (induction f xs arbitrary: ys rule: hash_pairs.induct) auto

lemma hash_pairs_shorter: "hash_pairs f xs = Some ys \<Longrightarrow> 1 < length xs \<Longrightarrow> length ys < length xs"
  using hash_pairs_length [of f xs ys] by linarith

text \<open>The outer loop: the list of layers, from the given one up to one of at most one node.\<close>

function build_layers :: "(hash \<Rightarrow> hash \<Rightarrow> hash) \<Rightarrow> hash list \<Rightarrow> hash list list option" where
  "build_layers f cur =
     (if length cur \<le> 1 then Some [cur]
      else (case hash_pairs f cur of
              None \<Rightarrow> None
            | Some nxt \<Rightarrow> map_option (Cons cur) (build_layers f nxt)))"
  by pat_completeness auto
termination
  by (relation "measure (\<lambda>(f, cur). length cur)") (auto intro: hash_pairs_shorter)

declare build_layers.simps [simp del]

definition build_layers_v1 :: "digest \<Rightarrow> hash list \<Rightarrow> merkle_tree option" where
  "build_layers_v1 H ls =
     map_option (\<lambda>lay. \<lparr>leaves = hd lay, layers = lay\<rparr>) (build_layers (node_hash_v2 H) ls)"

text \<open>The first window of two equal neighbours: the payload that occurs twice.\<close>

fun first_equal_window :: "'a list \<Rightarrow> 'a option" where
  "first_equal_window (x # y # r) = (if x = y then Some y else first_equal_window (y # r))"
| "first_equal_window _ = None"

text \<open>\<open>iter().position(|p| p == x)\<close>.\<close>

fun position :: "('a \<Rightarrow> bool) \<Rightarrow> 'a list \<Rightarrow> nat option" where
  "position P [] = None"
| "position P (x # xs) = (if P x then Some 0 else map_option Suc (position P xs))"

definition v1_leaves :: "digest \<Rightarrow> u8 \<Rightarrow> bytes list \<Rightarrow> hash list" where
  "v1_leaves H sub_tree_id payloads =
     map (\<lambda>(i, p). leaf_hash_v2 H sub_tree_id (as_u64 i) p) (enumerate 0 payloads)"

definition pad_leaves :: "hash \<Rightarrow> hash list \<Rightarrow> hash list" where
  "pad_leaves fill ls =
     (let target = next_power_of_two (max (length ls) 1)
      in ls @ replicate (target - length ls) fill)"

text \<open>
  \<open>MerkleTree::build_v1\<close>: the outer option is \<open>None\<close> for a panic of the layer loop, which
  \<open>build_v1_no_panic\<close> below rules out.
\<close>

definition build_v1 :: "digest \<Rightarrow> u8 \<Rightarrow> bytes list \<Rightarrow> (build_error + merkle_tree) option" where
  "build_v1 H sub_tree_id payloads0 =
     (let payloads = sort payloads0
      in case first_equal_window payloads of
           Some w \<Rightarrow> Some (Inl (DuplicateLeafPayload sub_tree_id
                      (case position (\<lambda>p. p = w) payloads of None \<Rightarrow> 0 | Some i \<Rightarrow> i)))
         | None \<Rightarrow>
             map_option Inr
               (build_layers_v1 H
                  (pad_leaves (leaf_hash_v2 H sub_tree_id EMPTY_INDEX_SENTINEL [])
                     (v1_leaves H sub_tree_id payloads))))"

definition build_legacy :: "digest \<Rightarrow> hash list \<Rightarrow> merkle_tree option" where
  "build_legacy H input =
     map_option (\<lambda>lay. \<lparr>leaves = hd lay, layers = lay\<rparr>)
       (build_layers (node_hash_legacy H) (pad_leaves ZERO_HASH (sort input)))"

definition build :: "digest \<Rightarrow> hash list \<Rightarrow> merkle_tree option" where
  "build H input = build_legacy H input"

text \<open>\<open>root()\<close> calls \<open>expect\<close> twice; \<open>None\<close> is the panic.\<close>

definition root :: "merkle_tree \<Rightarrow> hash option" where
  "root t = (case layers t of [] \<Rightarrow> None
             | ls \<Rightarrow> (case last ls of [] \<Rightarrow> None | h # _ \<Rightarrow> Some h))"

definition depth :: "merkle_tree \<Rightarrow> nat" where
  "depth t = length (layers t) - 1"

definition leaf_count :: "merkle_tree \<Rightarrow> nat" where
  "leaf_count t = length (leaves t)"

section \<open>The recursive specification of a Merkle root\<close>

text \<open>\<open>mroot f d xs\<close> is the root of the perfect tree of depth \<open>d\<close> over the leaves \<open>xs\<close>.\<close>

fun mroot :: "(hash \<Rightarrow> hash \<Rightarrow> hash) \<Rightarrow> nat \<Rightarrow> hash list \<Rightarrow> hash" where
  "mroot f 0 xs = hd xs"
| "mroot f (Suc d) xs = f (mroot f d (take (2 ^ d) xs)) (mroot f d (drop (2 ^ d) xs))"

definition parents :: "(hash \<Rightarrow> hash \<Rightarrow> hash) \<Rightarrow> nat \<Rightarrow> hash list \<Rightarrow> hash list" where
  "parents f n xs = map (\<lambda>j. f (xs ! (2 * j)) (xs ! (2 * j + 1))) [0..<n]"

lemma length_parents [simp]: "length (parents f n xs) = n"
  by (simp add: parents_def)

lemma nth_parents [simp]: "j < n \<Longrightarrow> parents f n xs ! j = f (xs ! (2 * j)) (xs ! Suc (2 * j))"
  by (simp add: parents_def)

lemma parents_Suc: "parents f (Suc n) (x # y # r) = f x y # parents f n r"
  by (simp add: parents_def upt_conv_Cons map_Suc_upt [symmetric] del: upt_Suc)

lemma hash_pairs_parents: "length xs = 2 * n \<Longrightarrow> hash_pairs f xs = Some (parents f n xs)"
proof (induction n arbitrary: xs)
  case 0
  then show ?case by (simp add: parents_def)
next
  case (Suc n)
  then obtain x y r where "xs = x # y # r" "length r = 2 * n"
    by (cases xs; cases "tl xs") auto
  then show ?case by (simp add: Suc.IH parents_Suc)
qed

lemma take_parents: "m \<le> n \<Longrightarrow> take m (parents f n xs) = parents f m (take (2 * m) xs)"
  by (simp add: parents_def take_map take_upt)

lemma drop_parents:
  assumes "m \<le> n" "length xs = 2 * n"
  shows "drop m (parents f n xs) = parents f (n - m) (drop (2 * m) xs)"
  by (rule nth_equalityI) (use assms in \<open>auto simp: algebra_simps\<close>)

lemma mroot_parents: "length xs = 2 ^ Suc d \<Longrightarrow> mroot f d (parents f (2 ^ d) xs) = mroot f (Suc d) xs"
proof (induction d arbitrary: xs)
  case 0
  then obtain x y where "xs = [x, y]"
    by (auto simp: length_Suc_conv numeral_2_eq_2)
  then show ?case by (simp add: parents_def)
next
  case (Suc d)
  have t: "take (2 ^ d) (parents f (2 ^ Suc d) xs) = parents f (2 ^ d) (take (2 ^ Suc d) xs)"
    by (simp add: take_parents)
  have "drop (2 ^ d) (parents f (2 ^ Suc d) xs)
    = parents f (2 ^ Suc d - 2 ^ d) (drop (2 * 2 ^ d) xs)"
    by (rule drop_parents) (use Suc.prems in simp_all)
  then have d: "drop (2 ^ d) (parents f (2 ^ Suc d) xs) = parents f (2 ^ d) (drop (2 ^ Suc d) xs)"
    by simp
  have "mroot f (Suc d) (parents f (2 ^ Suc d) xs)
    = f (mroot f d (parents f (2 ^ d) (take (2 ^ Suc d) xs)))
        (mroot f d (parents f (2 ^ d) (drop (2 ^ Suc d) xs)))"
    by (simp only: mroot.simps t d)
  also have "\<dots> = f (mroot f (Suc d) (take (2 ^ Suc d) xs)) (mroot f (Suc d) (drop (2 ^ Suc d) xs))"
    using Suc.prems by (intro arg_cong2 [of _ _ _ _ f] Suc.IH) simp_all
  also have "\<dots> = mroot f (Suc (Suc d)) xs"
    by (simp only: mroot.simps(2) [of f "Suc d"])
  finally show ?case .
qed

text \<open>The layers of a perfect tree: the builder never panics and ends at the specified root.\<close>

fun perfect_layers :: "(hash \<Rightarrow> hash \<Rightarrow> hash) \<Rightarrow> nat \<Rightarrow> hash list \<Rightarrow> hash list list" where
  "perfect_layers f 0 xs = [xs]"
| "perfect_layers f (Suc d) xs = xs # perfect_layers f d (parents f (2 ^ d) xs)"

lemma build_layers_perfect: "length xs = 2 ^ d \<Longrightarrow> build_layers f xs = Some (perfect_layers f d xs)"
proof (induction d arbitrary: xs)
  case 0
  then show ?case by (simp add: build_layers.simps [of f xs])
next
  case (Suc d)
  have "(2::nat) ^ Suc d > 1"
    using one_less_power [of "2::nat" "Suc d"] by simp
  moreover have "hash_pairs f xs = Some (parents f (2 ^ d) xs)"
    using Suc.prems by (simp add: hash_pairs_parents)
  ultimately show ?case
    using Suc.prems by (simp add: build_layers.simps [of f xs] Suc.IH)
qed

lemma perfect_layers_nonempty [simp]: "perfect_layers f d xs \<noteq> []"
  by (cases d) auto

lemma length_perfect_layers [simp]: "length (perfect_layers f d xs) = Suc d"
  by (induction d arbitrary: xs) auto

lemma hd_perfect_layers [simp]: "hd (perfect_layers f d xs) = xs"
  by (cases d) auto

lemma last_perfect_layers: "length xs = 2 ^ d \<Longrightarrow> last (perfect_layers f d xs) = [mroot f d xs]"
proof (induction d arbitrary: xs)
  case 0
  then show ?case by (auto simp: length_Suc_conv)
next
  case (Suc d)
  then show ?case
    by (simp add: Suc.IH mroot_parents del: mroot.simps)
qed

lemma pad_leaves_perfect:
  obtains d where "length (pad_leaves fill ls) = 2 ^ d" "length ls \<le> 2 ^ d"
    "next_power_of_two (max (length ls) 1) = 2 ^ d"
proof -
  obtain d where "next_power_of_two (max (length ls) 1) = 2 ^ d" "max (length ls) 1 \<le> 2 ^ d"
    by (rule next_power_of_two_spec [of "max (length ls) 1"]) simp
  then show ?thesis
    by (intro that [of d]) (auto simp: pad_leaves_def Let_def)
qed

section \<open>Duplicate payloads\<close>

lemma position_Some:
  "position P xs = Some i \<longleftrightarrow> i < length xs \<and> P (xs ! i) \<and> (\<forall>j<i. \<not> P (xs ! j))"
proof (induction xs arbitrary: i)
  case Nil
  then show ?case by simp
next
  case (Cons x xs)
  show ?case
  proof (cases i)
    case 0
    then show ?thesis by simp
  next
    case (Suc k)
    then show ?thesis
      by (auto simp: Cons.IH less_Suc_eq_0_disj)
  qed
qed

lemma position_None: "position P xs = None \<longleftrightarrow> (\<forall>x \<in> set xs. \<not> P x)"
  by (induction xs) auto

lemma first_equal_window_None:
  fixes xs :: "'a::linorder list"
  shows "sorted xs \<Longrightarrow> first_equal_window xs = None \<longleftrightarrow> distinct xs"
proof (induction xs rule: first_equal_window.induct)
  case (1 x y r)
  then show ?case by (auto dest: order.antisym)
qed auto

lemma first_equal_window_Some:
  "first_equal_window xs = Some w \<Longrightarrow>
     \<exists>i. Suc i < length xs \<and> xs ! i = w \<and> xs ! Suc i = w \<and> (\<forall>j<i. xs ! j \<noteq> xs ! Suc j)"
proof (induction xs rule: first_equal_window.induct)
  case (1 x y r)
  show ?case
  proof (cases "x = y")
    case True
    with 1 show ?thesis by (intro exI [of _ 0]) auto
  next
    case False
    with 1 obtain i where i: "Suc i < length (y # r)" "(y # r) ! i = w" "(y # r) ! Suc i = w"
      "\<forall>j<i. (y # r) ! j \<noteq> (y # r) ! Suc j"
      by auto
    have "\<forall>j<Suc i. (x # y # r) ! j \<noteq> (x # y # r) ! Suc j"
      using i(4) False by (auto simp: less_Suc_eq_0_disj)
    with i show ?thesis by (intro exI [of _ "Suc i"]) auto
  qed
qed auto

lemma all_nat_split_0: "(\<forall>j. P j) \<longleftrightarrow> P 0 \<and> (\<forall>j. P (Suc j))"
  using not0_implies_Suc by metis

lemma first_equal_window_None_nth:
  "first_equal_window xs = None \<longleftrightarrow> (\<forall>j. Suc j < length xs \<longrightarrow> xs ! j \<noteq> xs ! Suc j)"
proof (induction xs rule: first_equal_window.induct)
  case (1 x y r)
  have "(\<forall>j. Suc j < length (x # y # r) \<longrightarrow> (x # y # r) ! j \<noteq> (x # y # r) ! Suc j) \<longleftrightarrow>
    x \<noteq> y \<and> (\<forall>j. Suc j < length (y # r) \<longrightarrow> (y # r) ! j \<noteq> (y # r) ! Suc j)"
    by (subst all_nat_split_0) simp
  then show ?case using 1 by (cases "x = y") simp_all
qed auto

lemma distinct_before_window:
  fixes xs :: "'a::linorder list"
  assumes "sorted xs" "Suc i < length xs" "\<forall>j<i. xs ! j \<noteq> xs ! Suc j"
  shows "distinct (take (Suc i) xs)"
proof -
  have "first_equal_window (take (Suc i) xs) = None"
    using assms(2,3) by (auto simp: first_equal_window_None_nth)
  then show ?thesis
    using assms(1) first_equal_window_None [of "take (Suc i) xs"] sorted_wrt_take by blast
qed

text \<open>The index that \<open>build_v1\<close> reports: the first of the two equal neighbours.\<close>

lemma duplicate_position:
  fixes xs :: "'a::linorder list"
  assumes "sorted xs" "first_equal_window xs = Some w"
  shows "\<exists>i. position (\<lambda>p. p = w) xs = Some i \<and> Suc i < length xs \<and> xs ! i = xs ! Suc i
    \<and> distinct (take (Suc i) xs)"
proof -
  from first_equal_window_Some [OF assms(2)] obtain i where
    i: "Suc i < length xs" "xs ! i = w" "xs ! Suc i = w" "\<forall>j<i. xs ! j \<noteq> xs ! Suc j"
    by blast
  have d: "distinct (take (Suc i) xs)"
    by (rule distinct_before_window [OF assms(1) i(1,4)])
  have "xs ! j \<noteq> w" if "j < i" for j
    using d i that nth_eq_iff_index_eq [OF d, of j i] by simp
  with i d show ?thesis
    by (intro exI [of _ i]) (auto simp: position_Some)
qed

section \<open>The builder against its specification\<close>

lemma length_v1_leaves [simp]: "length (v1_leaves H s ps) = length ps"
  by (simp add: v1_leaves_def)

lemma nth_v1_leaves:
  "i < length ps \<Longrightarrow> v1_leaves H s ps ! i = leaf_hash_v2 H s (as_u64 i) (ps ! i)"
  by (simp add: v1_leaves_def nth_enumerate_eq)

definition padding_leaf :: "digest \<Rightarrow> u8 \<Rightarrow> hash" where
  "padding_leaf H sub_tree_id = leaf_hash_v2 H sub_tree_id EMPTY_INDEX_SENTINEL []"

text \<open>The specification of \<open>build_v1\<close>: the depth, the leaves and the root of a set of payloads.\<close>

fun clog2 :: "nat \<Rightarrow> nat" where
  "clog2 n = (if n \<le> 1 then 0 else Suc (clog2 ((n + 1) div 2)))"

declare clog2.simps [simp del]

lemma clog2_le_iff: "clog2 n \<le> d \<longleftrightarrow> n \<le> 2 ^ d"
proof (induction n arbitrary: d rule: clog2.induct)
  case (1 n)
  show ?case
  proof (cases "n \<le> 1")
    case True
    then show ?thesis
      using order.trans [OF True one_le_power [of "2::nat" d]] by (simp add: clog2.simps [of n])
  next
    case False
    have "n \<le> 2 ^ Suc e \<longleftrightarrow> (n + 1) div 2 \<le> 2 ^ e" for e
      by auto
    with 1 False show ?thesis
      by (cases d) (simp_all add: clog2.simps [of n])
  qed
qed

definition v1_depth :: "bytes list \<Rightarrow> nat" where
  "v1_depth payloads = clog2 (length payloads)"

definition v1_all_leaves :: "digest \<Rightarrow> u8 \<Rightarrow> bytes list \<Rightarrow> hash list" where
  "v1_all_leaves H sub_tree_id payloads =
     v1_leaves H sub_tree_id (sort payloads)
       @ replicate (2 ^ v1_depth payloads - length payloads) (padding_leaf H sub_tree_id)"

definition v1_root :: "digest \<Rightarrow> u8 \<Rightarrow> bytes list \<Rightarrow> hash" where
  "v1_root H sub_tree_id payloads =
     mroot (node_hash_v2 H) (v1_depth payloads) (v1_all_leaves H sub_tree_id payloads)"

lemma next_power_of_two_clog2: "next_power_of_two n = 2 ^ clog2 n"
proof -
  obtain k where k: "next_power_of_two n = 2 ^ k" "n \<le> 2 ^ k" "\<And>j. j < k \<Longrightarrow> 2 ^ j < n"
    using next_power_of_two_spec by metis
  have "clog2 n \<le> k"
    using k(2) by (simp add: clog2_le_iff)
  moreover have "k \<le> clog2 n"
    using k(3) [of "clog2 n"] clog2_le_iff [of n "clog2 n"] by linarith
  ultimately show ?thesis using k(1) by simp
qed

lemma clog2_eval:
  "clog2 0 = 0" "clog2 (Suc 0) = 0" "clog2 (Suc (Suc n)) = Suc (clog2 (Suc (Suc n div 2)))"
  by (simp_all add: clog2.simps [of 0] clog2.simps [of "Suc 0"] clog2.simps [of "Suc (Suc n)"])

lemma clog2_max: "clog2 (max n (Suc 0)) = clog2 n"
  by (cases n) (simp_all add: clog2.simps)

lemma length_le_v1_depth: "length ps \<le> 2 ^ v1_depth ps"
  using clog2_le_iff [of "length ps" "v1_depth ps"] by (simp add: v1_depth_def)

lemma length_v1_all_leaves [simp]: "length (v1_all_leaves H s ps) = 2 ^ v1_depth ps"
  using length_le_v1_depth [of ps] by (simp add: v1_all_leaves_def)

lemma pad_v1_leaves:
  "pad_leaves (leaf_hash_v2 H s EMPTY_INDEX_SENTINEL []) (v1_leaves H s (sort ps)) = v1_all_leaves H s ps"
  by (simp add: pad_leaves_def v1_all_leaves_def padding_leaf_def next_power_of_two_clog2
      clog2_max v1_depth_def)

text \<open>The tree that \<open>build_v1\<close> builds.\<close>

definition v1_tree :: "digest \<Rightarrow> u8 \<Rightarrow> bytes list \<Rightarrow> merkle_tree" where
  "v1_tree H s ps = \<lparr>leaves = v1_all_leaves H s ps,
     layers = perfect_layers (node_hash_v2 H) (v1_depth ps) (v1_all_leaves H s ps)\<rparr>"

lemma build_v1_distinct: "distinct ps \<Longrightarrow> build_v1 H s ps = Some (Inr (v1_tree H s ps))"
  by (simp add: build_v1_def first_equal_window_None [OF sorted_sort, THEN iffD2] Let_def pad_v1_leaves build_layers_v1_def
      build_layers_perfect v1_tree_def)

lemma root_last: "layers t \<noteq> [] \<Longrightarrow> last (layers t) = [h] \<Longrightarrow> root t = Some h"
  by (cases "layers t") (simp_all add: root_def)

lemma root_v1_tree: "root (v1_tree H s ps) = Some (v1_root H s ps)"
  by (simp add: root_last v1_tree_def last_perfect_layers v1_root_def)

lemma depth_v1_tree: "depth (v1_tree H s ps) = v1_depth ps"
  by (simp add: depth_def v1_tree_def)

lemma leaf_count_v1_tree: "leaf_count (v1_tree H s ps) = 2 ^ v1_depth ps"
  by (simp add: leaf_count_def v1_tree_def)

lemma leaves_v1_tree: "leaves (v1_tree H s ps) = v1_all_leaves H s ps"
  by (simp add: v1_tree_def)

lemmas v1_tree_simps = root_v1_tree depth_v1_tree leaf_count_v1_tree leaves_v1_tree

lemma build_v1_duplicate:
  assumes "\<not> distinct ps"
  shows "\<exists>i. build_v1 H s ps = Some (Inl (DuplicateLeafPayload s i))
    \<and> Suc i < length ps \<and> sort ps ! i = sort ps ! Suc i \<and> distinct (take (Suc i) (sort ps))"
proof -
  have "first_equal_window (sort ps) \<noteq> None"
    using assms by (simp add: first_equal_window_None)
  then obtain w where w: "first_equal_window (sort ps) = Some w"
    by blast
  from duplicate_position [OF sorted_sort w] show ?thesis
    by (auto simp: build_v1_def Let_def w)
qed

lemma build_v1_no_panic: "build_v1 H s ps \<noteq> None"
  using build_v1_distinct [of ps H s] build_v1_duplicate [of ps H s] by (cases "distinct ps") auto

lemma build_v1_Inr: "build_v1 H s ps = Some (Inr t) \<longleftrightarrow> distinct ps \<and> t = v1_tree H s ps"
  using build_v1_distinct [of ps H s] build_v1_duplicate [of ps H s] by (cases "distinct ps") auto

section \<open>Binding\<close>

text \<open>
  A digest of 32 bytes cannot be injective on all byte strings. Collision freedom is stated
  for the finite set of strings that the compared trees hash: \<open>v1_preimages\<close>.
\<close>

fun node_preimages :: "(hash \<Rightarrow> hash \<Rightarrow> bytes) \<Rightarrow> (hash \<Rightarrow> hash \<Rightarrow> hash) \<Rightarrow> nat \<Rightarrow> hash list \<Rightarrow> bytes set" where
  "node_preimages pre f 0 xs = {}"
| "node_preimages pre f (Suc d) xs =
     insert (pre (mroot f d (take (2 ^ d) xs)) (mroot f d (drop (2 ^ d) xs)))
       (node_preimages pre f d (take (2 ^ d) xs) \<union> node_preimages pre f d (drop (2 ^ d) xs))"

abbreviation v1_node_preimages :: "digest \<Rightarrow> nat \<Rightarrow> hash list \<Rightarrow> bytes set" where
  "v1_node_preimages H \<equiv> node_preimages node_preimage (node_hash_v2 H)"

lemma finite_node_preimages [simp]: "finite (node_preimages pre f d xs)"
  by (induction d arbitrary: xs) auto

definition leaf_preimages :: "u8 \<Rightarrow> bytes list \<Rightarrow> bytes set" where
  "leaf_preimages s ps =
     insert (leaf_preimage s EMPTY_INDEX_SENTINEL [])
       (set (map (\<lambda>(i, p). leaf_preimage s (as_u64 i) p) (enumerate 0 (sort ps))))"

definition v1_preimages :: "digest \<Rightarrow> u8 \<Rightarrow> bytes list \<Rightarrow> bytes set" where
  "v1_preimages H s ps =
     leaf_preimages s ps \<union> v1_node_preimages H (v1_depth ps) (v1_all_leaves H s ps)"

lemma domain_lengths [simp]: "length DOMAIN_LEAF = 13" "length DOMAIN_NODE = 13"
  by (simp_all add: DOMAIN_LEAF_def DOMAIN_NODE_def)

lemma domains_differ: "DOMAIN_LEAF \<noteq> DOMAIN_NODE"
  by code_simp

lemma leaf_node_preimage_disjoint: "leaf_preimage s i p \<noteq> node_preimage l r"
  using domains_differ by (simp add: leaf_preimage_def node_preimage_def)

lemma node_preimage_inject:
  "length l = length l' \<Longrightarrow> node_preimage l r = node_preimage l' r' \<longleftrightarrow> l = l' \<and> r = r'"
  by (simp add: node_preimage_def)

lemma leaf_preimage_inject:
  "leaf_preimage s i p = leaf_preimage s' i' p' \<longleftrightarrow> s = s' \<and> i = i' \<and> p = p'"
  by (auto simp: leaf_preimage_def)

lemma mroot_length:
  assumes "digest32 H" "length xs = 2 ^ d" "\<forall>x \<in> set xs. length x = 32"
  shows "length (mroot (node_hash_v2 H) d xs) = 32"
  using assms by (cases d; cases xs) (auto simp: node_hash_v2_def)

lemma mroot_node_preimage:
  "mroot (node_hash_v2 H) (Suc d) xs = H (node_preimage (mroot (node_hash_v2 H) d (take (2 ^ d) xs))
     (mroot (node_hash_v2 H) d (drop (2 ^ d) xs)))"
  by (simp add: node_hash_v2_def)

lemma top_node_preimage:
  "node_preimage (mroot (node_hash_v2 H) d (take (2 ^ d) xs)) (mroot (node_hash_v2 H) d (drop (2 ^ d) xs))
     \<in> v1_node_preimages H (Suc d) xs"
  by simp

text \<open>A leaf hash is never the hash of an inner node, so equal roots have equal shapes and leaves.\<close>

lemma leaf_not_mroot:
  assumes "inj_on H (N \<union> L)" "p \<in> L" "\<forall>p \<in> L. \<forall>l r. p \<noteq> node_preimage l r"
    and "v1_node_preimages H (Suc d) ys \<subseteq> N"
  shows "H p \<noteq> mroot (node_hash_v2 H) (Suc d) ys"
proof
  assume "H p = mroot (node_hash_v2 H) (Suc d) ys"
  then have "H p = H (node_preimage (mroot (node_hash_v2 H) d (take (2 ^ d) ys))
      (mroot (node_hash_v2 H) d (drop (2 ^ d) ys)))"
    by (simp only: mroot_node_preimage)
  then have "p = node_preimage (mroot (node_hash_v2 H) d (take (2 ^ d) ys))
      (mroot (node_hash_v2 H) d (drop (2 ^ d) ys))"
    by (rule inj_onD [OF assms(1)]) (use assms(2,4) top_node_preimage [of H d ys] in blast)+
  with assms(2,3) show False by blast
qed

lemma mroot_Suc_inject:
  assumes "digest32 H" "inj_on H N"
    and "\<forall>x \<in> set xs \<union> set ys. length x = 32" "length xs = 2 ^ Suc d" "length ys = 2 ^ Suc e"
    and "v1_node_preimages H (Suc d) xs \<subseteq> N" "v1_node_preimages H (Suc e) ys \<subseteq> N"
    and "mroot (node_hash_v2 H) (Suc d) xs = mroot (node_hash_v2 H) (Suc e) ys"
  shows "mroot (node_hash_v2 H) d (take (2 ^ d) xs) = mroot (node_hash_v2 H) e (take (2 ^ e) ys)
    \<and> mroot (node_hash_v2 H) d (drop (2 ^ d) xs) = mroot (node_hash_v2 H) e (drop (2 ^ e) ys)"
proof -
  have len: "length (mroot (node_hash_v2 H) d (take (2 ^ d) xs)) = 32"
    "length (mroot (node_hash_v2 H) e (take (2 ^ e) ys)) = 32"
    using assms(3-5) by (auto intro!: mroot_length [OF assms(1)] dest: in_set_takeD)
  have "H (node_preimage (mroot (node_hash_v2 H) d (take (2 ^ d) xs)) (mroot (node_hash_v2 H) d (drop (2 ^ d) xs)))
    = H (node_preimage (mroot (node_hash_v2 H) e (take (2 ^ e) ys)) (mroot (node_hash_v2 H) e (drop (2 ^ e) ys)))"
    using assms(8) by (simp only: mroot_node_preimage)
  then have "node_preimage (mroot (node_hash_v2 H) d (take (2 ^ d) xs)) (mroot (node_hash_v2 H) d (drop (2 ^ d) xs))
    = node_preimage (mroot (node_hash_v2 H) e (take (2 ^ e) ys)) (mroot (node_hash_v2 H) e (drop (2 ^ e) ys))"
    by (rule inj_onD [OF assms(2)]) (use top_node_preimage [of H d xs] top_node_preimage [of H e ys] assms(6,7) in blast)+
  then show ?thesis
    by (simp add: node_preimage_inject len)
qed

lemma mroot_inject:
  assumes H: "digest32 H" "inj_on H (N \<union> L)" "\<forall>p \<in> L. \<forall>l r. p \<noteq> node_preimage l r"
  shows "\<lbrakk>set xs \<subseteq> H ` L; set ys \<subseteq> H ` L; length xs = 2 ^ d; length ys = 2 ^ e;
      v1_node_preimages H d xs \<subseteq> N; v1_node_preimages H e ys \<subseteq> N;
      mroot (node_hash_v2 H) d xs = mroot (node_hash_v2 H) e ys\<rbrakk> \<Longrightarrow> d = e \<and> xs = ys"
proof (induction d arbitrary: e xs ys)
  case 0
  then obtain p where p: "xs = [H p]" "p \<in> L" by (auto simp: length_Suc_conv)
  show ?case
  proof (cases e)
    case 0
    with "0.prems" p show ?thesis by (auto simp: length_Suc_conv)
  next
    case (Suc e')
    with leaf_not_mroot [OF H(2) p(2) H(3), of e' ys] "0.prems" p(1) show ?thesis
      by (simp del: mroot.simps(2))
  qed
next
  case (Suc d)
  note prems = Suc.prems
  show ?case
  proof (cases e)
    case 0
    with prems obtain p where "ys = [H p]" "p \<in> L" by (auto simp: length_Suc_conv)
    with prems 0 leaf_not_mroot [OF H(2) _ H(3), of p d xs] show ?thesis
      by (simp del: mroot.simps(2))
  next
    case (Suc e')
    have "inj_on H N" using H(2) by (rule inj_on_subset) simp
    moreover have "\<forall>x \<in> set xs \<union> set ys. length x = 32"
      using prems(1,2) H(1) by auto
    ultimately have eq: "mroot (node_hash_v2 H) d (take (2 ^ d) xs) = mroot (node_hash_v2 H) e' (take (2 ^ e') ys)
      \<and> mroot (node_hash_v2 H) d (drop (2 ^ d) xs) = mroot (node_hash_v2 H) e' (drop (2 ^ e') ys)"
      using prems(3-7) unfolding Suc by (intro mroot_Suc_inject [OF H(1)])
    have sub: "set (take n xs) \<subseteq> H ` L" "set (take n ys) \<subseteq> H ` L" for n
      using prems(1,2) by (auto dest: in_set_takeD)
    have sub': "set (drop n xs) \<subseteq> H ` L" "set (drop n ys) \<subseteq> H ` L" for n
      using prems(1,2) by (auto dest: in_set_dropD)
    have t: "d = e' \<and> take (2 ^ d) xs = take (2 ^ e') ys"
      using eq prems(3-6) Suc by (intro Suc.IH sub) simp_all
    have u: "d = e' \<and> drop (2 ^ d) xs = drop (2 ^ e') ys"
      using eq prems(3-6) Suc by (intro Suc.IH sub') simp_all
    have "xs = take (2 ^ d) xs @ drop (2 ^ d) xs" by simp
    also have "\<dots> = ys" unfolding conjunct2 [OF t] conjunct2 [OF u] by simp
    finally show ?thesis using t Suc by simp
  qed
qed

lemma v1_all_leaves_hashed: "set (v1_all_leaves H s ps) \<subseteq> H ` leaf_preimages s ps"
  by (auto simp: v1_all_leaves_def v1_leaves_def padding_leaf_def leaf_hash_v2_def leaf_preimages_def)

lemma v1_root_length: "digest32 H \<Longrightarrow> length (v1_root H s ps) = 32"
proof -
  assume "digest32 H"
  moreover have "set (v1_all_leaves H s ps) \<subseteq> H ` leaf_preimages s ps" by (rule v1_all_leaves_hashed)
  ultimately have "\<forall>x \<in> set (v1_all_leaves H s ps). length x = 32" by auto
  with \<open>digest32 H\<close> show ?thesis by (simp add: v1_root_def mroot_length)
qed

lemma leaf_preimages_tagged: "p \<in> leaf_preimages s ps \<Longrightarrow> p \<noteq> node_preimage l r"
  by (auto simp: leaf_preimages_def leaf_node_preimage_disjoint leaf_node_preimage_disjoint [symmetric])

lemma v1_leaf_of:
  assumes "i < 2 ^ v1_depth ps"
  shows "v1_all_leaves H s ps ! i =
    (if i < length ps then H (leaf_preimage s (as_u64 i) (sort ps ! i))
     else H (leaf_preimage s EMPTY_INDEX_SENTINEL []))"
  using assms length_le_v1_depth [of ps]
  by (auto simp: v1_all_leaves_def nth_append nth_v1_leaves leaf_hash_v2_def padding_leaf_def)

text \<open>The preimage of the \<open>i\<close>-th leaf.\<close>

definition v1_leaf_preimage :: "u8 \<Rightarrow> bytes list \<Rightarrow> nat \<Rightarrow> bytes" where
  "v1_leaf_preimage s ps i =
     (if i < length ps then leaf_preimage s (as_u64 i) (sort ps ! i)
      else leaf_preimage s EMPTY_INDEX_SENTINEL [])"

lemma v1_leaf_preimage_in: "v1_leaf_preimage s ps i \<in> leaf_preimages s ps"
  by (auto simp: v1_leaf_preimage_def leaf_preimages_def in_set_enumerate_eq image_iff Bex_def)

lemma nth_v1_all_leaves: "i < 2 ^ v1_depth ps \<Longrightarrow> v1_all_leaves H s ps ! i = H (v1_leaf_preimage s ps i)"
  by (simp add: v1_leaf_of v1_leaf_preimage_def)

lemma sentinel_not_index: "n < 2 ^ 64 \<Longrightarrow> i < n \<Longrightarrow> as_u64 i \<noteq> EMPTY_INDEX_SENTINEL"
proof
  assume *: "n < 2 ^ 64" "i < n" "as_u64 i = EMPTY_INDEX_SENTINEL"
  then have "i = unat (- 1 :: u64)"
    using unat_as_u64 [of i] by (simp add: EMPTY_INDEX_SENTINEL_def)
  then have "i = 2 ^ 64 - 1" by (simp add: unsigned_minus_1_eq_mask mask_eq_exp_minus_1)
  with * show False by simp
qed

lemma v1_leaf_preimages_inject:
  assumes "length ps < 2 ^ 64" "length qs < 2 ^ 64"
    and eq: "\<forall>i < 2 ^ v1_depth ps. v1_leaf_preimage s ps i = v1_leaf_preimage s' qs i"
    and "v1_depth ps = v1_depth qs"
  shows "s = s' \<and> sort ps = sort qs"
proof
  have "v1_leaf_preimage s ps 0 = v1_leaf_preimage s' qs 0" using eq by simp
  then show "s = s'"
    by (auto simp: v1_leaf_preimage_def leaf_preimage_inject split: if_splits)
  have same: "i < length ps \<longleftrightarrow> i < length qs" if "i < 2 ^ v1_depth ps" for i
    using eq that assms(1,2) sentinel_not_index [of "length ps" i] sentinel_not_index [of "length qs" i]
    by (auto simp: v1_leaf_preimage_def leaf_preimage_inject split: if_splits)
  have len: "length ps = length qs"
  proof (rule linorder_cases)
    assume *: "length ps < length qs"
    then have "length ps < 2 ^ v1_depth ps"
      using length_le_v1_depth [of qs] assms(4) by simp
    with same [of "length ps"] * show ?thesis by simp
  next
    assume *: "length qs < length ps"
    then have "length qs < 2 ^ v1_depth ps"
      using length_le_v1_depth [of ps] by simp
    with same [of "length qs"] * show ?thesis by simp
  qed
  show "sort ps = sort qs"
  proof (rule nth_equalityI)
    fix i assume "i < length (sort ps)"
    then have "i < length ps" "i < 2 ^ v1_depth ps"
      using length_le_v1_depth [of ps] by auto
    then show "sort ps ! i = sort qs ! i"
      using eq len by (auto simp: v1_leaf_preimage_def leaf_preimage_inject)
  qed (simp add: len)
qed

lemma v1_root_inject:
  assumes H: "digest32 H" and inj: "inj_on H (v1_preimages H s ps \<union> v1_preimages H s' qs)"
    and len: "length ps < 2 ^ 64" "length qs < 2 ^ 64"
    and eq: "v1_root H s ps = v1_root H s' qs"
  shows "s = s' \<and> mset ps = mset qs"
proof -
  let ?L = "leaf_preimages s ps \<union> leaf_preimages s' qs"
  let ?N = "v1_node_preimages H (v1_depth ps) (v1_all_leaves H s ps)
    \<union> v1_node_preimages H (v1_depth qs) (v1_all_leaves H s' qs)"
  have injNL: "inj_on H (?N \<union> ?L)"
    by (rule inj_on_subset [OF inj]) (auto simp: v1_preimages_def)
  have "v1_depth ps = v1_depth qs \<and> v1_all_leaves H s ps = v1_all_leaves H s' qs"
  proof (rule mroot_inject [OF H injNL])
    show "\<forall>p \<in> ?L. \<forall>l r. p \<noteq> node_preimage l r"
      using leaf_preimages_tagged by blast
    show "set (v1_all_leaves H s ps) \<subseteq> H ` ?L" "set (v1_all_leaves H s' qs) \<subseteq> H ` ?L"
      using v1_all_leaves_hashed [of H s ps] v1_all_leaves_hashed [of H s' qs] by auto
  qed (use eq in \<open>simp_all add: v1_root_def\<close>)
  then have d: "v1_depth ps = v1_depth qs"
    and l: "\<And>i. v1_all_leaves H s ps ! i = v1_all_leaves H s' qs ! i"
    by simp_all
  have "v1_leaf_preimage s ps i = v1_leaf_preimage s' qs i" if "i < 2 ^ v1_depth ps" for i
    by (rule inj_onD [OF injNL])
      (use l [of i] that d in \<open>auto simp: nth_v1_all_leaves v1_leaf_preimage_in\<close>)
  with v1_leaf_preimages_inject [OF len _ d, of s s'] have "s = s'" "sort ps = sort qs" by auto
  then show ?thesis by (metis mset_sort)
qed

section \<open>Properties\<close>

text \<open>
  C9. \<open>MerkleTree::build_v1\<close> on pairwise distinct payloads returns a tree and does not panic.
  The tree is the perfect binary tree of the least sufficient depth whose \<open>i\<close>-th leaf is the
  tagged hash of the \<open>i\<close>-th payload in byte order under index \<open>i\<close>, whose other leaves are the
  sentinel padding leaf, and whose root is the recursive Merkle root of the leaves.
\<close>

theorem build_v1_builds_merkle_tree:
  assumes "distinct ps"
  shows "\<exists>t. build_v1 H s ps = Some (Inr t)
    \<and> root t = Some (mroot (node_hash_v2 H) (depth t) (leaves t))
    \<and> leaf_count t = 2 ^ depth t
    \<and> (\<forall>d. length ps \<le> 2 ^ d \<longleftrightarrow> depth t \<le> d)
    \<and> (\<forall>i. i < length ps \<longrightarrow> leaves t ! i = leaf_hash_v2 H s (as_u64 i) (sort ps ! i))
    \<and> (\<forall>i. length ps \<le> i \<and> i < leaf_count t \<longrightarrow> leaves t ! i = leaf_hash_v2 H s EMPTY_INDEX_SENTINEL [])"
proof -
  have "i < length ps \<Longrightarrow> v1_all_leaves H s ps ! i = leaf_hash_v2 H s (as_u64 i) (sort ps ! i)" for i
    using length_le_v1_depth [of ps] v1_leaf_of [of i ps H s] by (simp add: leaf_hash_v2_def)
  moreover have "length ps \<le> i \<and> i < 2 ^ v1_depth ps \<Longrightarrow>
      v1_all_leaves H s ps ! i = leaf_hash_v2 H s EMPTY_INDEX_SENTINEL []" for i
    by (simp add: v1_leaf_of leaf_hash_v2_def)
  ultimately show ?thesis
    using build_v1_distinct [OF assms, of H s]
    by (intro exI [of _ "v1_tree H s ps"])
      (simp add: v1_tree_simps v1_root_def v1_depth_def clog2_le_iff)
qed

theorem build_v1_builds_merkle_tree_witness:
  "\<exists>t. build_v1 sum_digest 1 [[7], [3, 4], [5]] = Some (Inr t)
    \<and> leaf_count t = 4 \<and> leaves t ! 0 = leaf_hash_v2 sum_digest 1 0 [3, 4]"
proof -
  have "distinct [[7], [3, 4], [5 :: u8]]" by code_simp
  from build_v1_builds_merkle_tree [OF this, of sum_digest 1] obtain t where
    t: "build_v1 sum_digest 1 [[7], [3, 4], [5]] = Some (Inr t)" "leaf_count t = 2 ^ depth t"
      "\<forall>d. length [[7], [3, 4], [5 :: u8]] \<le> 2 ^ d \<longleftrightarrow> depth t \<le> d"
      "\<forall>i. i < length [[7], [3, 4], [5 :: u8]] \<longrightarrow>
        leaves t ! i = leaf_hash_v2 sum_digest 1 (as_u64 i) (sort [[7], [3, 4], [5]] ! i)"
    by blast
  have "sort [[7], [3, 4], [5 :: u8]] ! 0 = [3, 4]" by code_simp
  moreover from t(3) [rule_format, of 1] t(3) [rule_format, of 2] have "depth t = 2" by simp
  ultimately show ?thesis
    using t by (intro exI [of _ t]) (simp add: as_u64_def)
qed

text \<open>
  C15. \<open>MerkleTree::build_v1\<close> with a repeated payload returns \<open>DuplicateLeafPayload\<close> with the
  sub-tree id and the index, in the sorted order, of the first occurrence of the smallest
  repeated payload: the payload there equals its successor, and all payloads up to it differ.
\<close>

theorem build_v1_reports_duplicate:
  assumes "\<not> distinct ps"
  shows "\<exists>i. build_v1 H s ps = Some (Inl (DuplicateLeafPayload s i))
    \<and> Suc i < length ps \<and> sort ps ! i = sort ps ! Suc i \<and> distinct (take (Suc i) (sort ps))"
  by (rule build_v1_duplicate [OF assms])

theorem build_v1_reports_duplicate_witness:
  "\<exists>i. build_v1 sum_digest 2 [[9], [1], [9]] = Some (Inl (DuplicateLeafPayload 2 i))
    \<and> sort [[9], [1], [9 :: u8]] ! i = sort [[9], [1], [9]] ! Suc i"
proof -
  have "\<not> distinct [[9], [1], [9 :: u8]]" by code_simp
  from build_v1_reports_duplicate [OF this] show ?thesis by blast
qed

text \<open>
  C4. The root binds the sub-tree and its content: if the digest has no collision among the
  strings that two version-1 trees hash, the trees have the same root exactly when they have
  the same sub-tree id and the same payloads, whatever order the payloads were given in and
  whatever the shapes of the trees are (no leaf stands for an inner node or for padding).
\<close>

theorem build_v1_root_binding:
  assumes "digest32 H" "inj_on H (v1_preimages H s ps \<union> v1_preimages H s' qs)"
    and "length ps < 2 ^ 64" "length qs < 2 ^ 64"
    and "build_v1 H s ps = Some (Inr t)" "build_v1 H s' qs = Some (Inr t')"
  shows "root t = root t' \<longleftrightarrow> s = s' \<and> mset ps = mset qs"
proof -
  have "v1_root H s ps = v1_root H s' qs" if "s = s'" "mset ps = mset qs"
  proof -
    have "sort ps = sort qs" using that(2) by (intro properties_for_sort) simp_all
    moreover have "length ps = length qs" using that(2) by (rule mset_eq_length)
    ultimately show ?thesis using that(1) by (simp add: v1_root_def v1_all_leaves_def v1_depth_def)
  qed
  with v1_root_inject [OF assms(1-4)] assms(5,6) show ?thesis
    by (auto simp: build_v1_Inr root_v1_tree)
qed

lemmas preimage_eval = v1_preimages_def leaf_preimages_def leaf_preimage_def node_preimage_def
  v1_all_leaves_def v1_leaves_def v1_depth_def clog2_eval leaf_hash_v2_def node_hash_v2_def
  sum_digest_def DOMAIN_LEAF_def DOMAIN_NODE_def EMPTY_INDEX_SENTINEL_def ascii_def
  to_be_bytes_def as_u64_def unsigned_minus_1_eq_mask mask_eq_exp_minus_1 sum_list_replicate

lemma example_preimages_inj:
  "inj_on sum_digest (v1_preimages sum_digest 1 [[1], [2]] \<union> v1_preimages sum_digest 1 [[2], [1]])"
  by (simp add: preimage_eval)

theorem build_v1_root_binding_witness:
  "\<exists>t t'. build_v1 sum_digest 1 [[1], [2]] = Some (Inr t) \<and> build_v1 sum_digest 1 [[2], [1]] = Some (Inr t')
    \<and> root t = root t'"
proof -
  have "build_v1 sum_digest 1 [[1], [2]] = Some (Inr (v1_tree sum_digest 1 [[1], [2]]))"
    "build_v1 sum_digest 1 [[2], [1]] = Some (Inr (v1_tree sum_digest 1 [[2], [1]]))"
    by (simp_all add: build_v1_distinct)
  with build_v1_root_binding [OF digest32_sum_digest example_preimages_inj, OF _ _ this] show ?thesis
    by auto
qed


section \<open>The layer loop\<close>

lemma hash_pairs_None: "hash_pairs f xs = None \<longleftrightarrow> odd (length xs)"
  by (induction f xs rule: hash_pairs.induct) auto

lemma clog2_double: "0 < m \<Longrightarrow> clog2 (2 * m) = Suc (clog2 m)"
  by (simp add: clog2.simps [of "2 * m"])

lemma build_layers_sizes:
  "build_layers f cur = Some lay \<Longrightarrow> (length cur = 0 \<or> (\<exists>d. length cur = 2 ^ d)) \<and> length lay = Suc (clog2 (length cur))
     \<and> (\<forall>i < length lay. length (lay ! i) = length cur div 2 ^ i)"
proof (induction f cur arbitrary: lay rule: build_layers.induct)
  case (1 f cur)
  show ?case
  proof (cases "length cur \<le> 1")
    case True
    then have "length cur = 0 \<or> length cur = 2 ^ 0" by (simp add: le_Suc_eq)
    then have "length cur = 0 \<or> (\<exists>d. length cur = 2 ^ d)" by blast
    moreover have "lay = [cur]" using True 1(2) by (simp add: build_layers.simps [of f cur])
    ultimately show ?thesis using True by (simp add: clog2.simps [of "length cur"])
  next
    case False
    with 1(2) obtain nxt rest where n: "hash_pairs f cur = Some nxt" "build_layers f nxt = Some rest" "lay = cur # rest"
      by (auto simp: build_layers.simps [of f cur] split: option.splits)
    note len = hash_pairs_length [OF n(1)]
    with False have pos: "0 < length nxt" by linarith
    from 1(1) [OF False n(1,2)] obtain d where d: "length nxt = 2 ^ d" "length rest = Suc (clog2 (length nxt))"
      "\<forall>i < length rest. length (rest ! i) = length nxt div 2 ^ i" using pos by auto
    have "length (lay ! i) = length cur div 2 ^ i" if "i < length lay" for i
      using that d(3) len n(3) by (cases i) (simp_all add: div_mult2_eq)
    moreover have "length cur = 2 ^ Suc d" using len d(1) by simp
    ultimately show ?thesis using d(2) n(3) len pos by (simp add: clog2_double) (metis power_Suc)
  qed
qed

text \<open>
  C14. The loop that hashes layer after layer ends. It runs without a panic exactly when the number
  of leaves is zero or a power of two, which padding ensures; then it makes as many passes as the
  number of leaves has bits to halve, each layer half as long as the one before, and ends with a
  single node.
\<close>

theorem layer_loop_terminates:
  "(build_layers f cur \<noteq> None \<longleftrightarrow> length cur = 0 \<or> (\<exists>d. length cur = 2 ^ d))
    \<and> (\<forall>lay. build_layers f cur = Some lay \<longrightarrow> length lay = Suc (clog2 (length cur))
        \<and> (\<forall>i < length lay. length (lay ! i) = length cur div 2 ^ i))
    \<and> (\<exists>lay. build_layers f (pad_leaves fill ls) = Some lay \<and> length (last lay) = 1)"
proof (intro conjI)
  show "build_layers f cur \<noteq> None \<longleftrightarrow> length cur = 0 \<or> (\<exists>d. length cur = 2 ^ d)"
    using build_layers_sizes [of f cur] build_layers_perfect [of cur _ f]
    by (auto simp: build_layers.simps [of f "[]"])
  show "\<forall>lay. build_layers f cur = Some lay \<longrightarrow> length lay = Suc (clog2 (length cur))
      \<and> (\<forall>i < length lay. length (lay ! i) = length cur div 2 ^ i)"
    using build_layers_sizes [of f cur] by blast
  obtain d where d: "length (pad_leaves fill ls) = 2 ^ d"
    using le_next_power_of_two [of "max (length ls) 1"] by (auto simp: pad_leaves_def Let_def next_power_of_two_clog2)
  then have lay: "build_layers f (pad_leaves fill ls) = Some (perfect_layers f d (pad_leaves fill ls))" by (rule build_layers_perfect)
  from build_layers_sizes [OF this] have "length (perfect_layers f d (pad_leaves fill ls)) = Suc (clog2 (2 ^ d))"
      "length (last (perfect_layers f d (pad_leaves fill ls))) = 2 ^ d div 2 ^ clog2 (2 ^ d)"
    by (auto simp: d last_conv_nth)
  moreover have "clog2 (2 ^ d) = d" by (induction d) (simp_all add: clog2_double clog2.simps [of "Suc 0"])
  ultimately show "\<exists>lay. build_layers f (pad_leaves fill ls) = Some lay \<and> length (last lay) = 1" using lay by simp
qed


theorem layer_loop_terminates_witness:
  "\<exists>lay. build_layers (\<lambda>l r. l @ r) [[1], [2], [3], [4]] = Some lay \<and> length lay = 3"
proof -
  let ?xs = "[[1], [2], [3], [4]] :: hash list"
  note loop = layer_loop_terminates [of "\<lambda>l r. l @ r" ?xs "[]" "[]"]
  have "\<exists>d. length ?xs = 2 ^ d" by (rule exI [of _ 2]) simp
  with loop [THEN conjunct1] have "build_layers (\<lambda>l r. l @ r) ?xs \<noteq> None" by blast
  then obtain lay where lay: "build_layers (\<lambda>l r. l @ r) ?xs = Some lay" by blast
  moreover from loop [THEN conjunct2, THEN conjunct1, rule_format, OF lay] have "length lay = 3" by (simp add: clog2_eval)
  ultimately show ?thesis by blast
qed

end
