(* ===== verification/Inclusion_Witness.thy ===== *)
theory Inclusion_Witness
  imports Merkle_Tree
begin

text \<open>
  Inclusion paths: \<open>InclusionWitness\<close> of \<open>omega-commitment-core/src/witness.rs\<close> for the legacy
  tree, and the path walk that the legacy verifier and the version-1 prover share. The locale
  \<open>merkle_node\<close> is what a path proof needs of a node hash (its preimage determines the two
  children); both node layouts of the code interpret it.
\<close>

unbundle bit_operations_syntax

section \<open>The witness of the legacy tree\<close>

record inclusion_witness =
  iw_leaf :: hash
  iw_leaf_index :: u32
  iw_siblings :: "hash list"

text \<open>
  The sibling loop shared by \<open>build_at_index\<close> and \<open>build\<close>; \<open>None\<close> is the panic of
  \<open>layer[sib_idx]\<close>.
\<close>

fun path_siblings :: "hash list list \<Rightarrow> nat \<Rightarrow> hash list option" where
  "path_siblings [] idx = Some []"
| "path_siblings (layer # rest) idx =
     (case get_at layer (idx XOR 1) of
        None \<Rightarrow> None
      | Some sib \<Rightarrow> map_option (Cons sib) (path_siblings rest (idx div 2)))"

definition build_at_index :: "merkle_tree \<Rightarrow> u32 \<Rightarrow> inclusion_witness option option" where
  "build_at_index t leaf_index =
     (case get_at (leaves t) (unat leaf_index) of
        None \<Rightarrow> Some None
      | Some leaf \<Rightarrow>
          map_option (\<lambda>sibs. Some \<lparr>iw_leaf = leaf, iw_leaf_index = leaf_index, iw_siblings = sibs\<rparr>)
            (path_siblings (take (depth t) (layers t)) (unat leaf_index)))"

definition build_witness :: "merkle_tree \<Rightarrow> hash \<Rightarrow> inclusion_witness option option" where
  "build_witness t leaf =
     (case position (\<lambda>h. h = leaf) (leaves t) of
        None \<Rightarrow> Some None
      | Some pos \<Rightarrow>
          (let leaf_index = (of_nat pos :: u32)
           in map_option (\<lambda>sibs. Some \<lparr>iw_leaf = leaf, iw_leaf_index = leaf_index, iw_siblings = sibs\<rparr>)
                (path_siblings (take (depth t) (layers t)) (unat leaf_index))))"

text \<open>The walk from a leaf up along its siblings; the low bit of the index says which side.\<close>

fun walk :: "(hash \<Rightarrow> hash \<Rightarrow> hash) \<Rightarrow> hash \<Rightarrow> nat \<Rightarrow> hash list \<Rightarrow> hash" where
  "walk f current idx [] = current"
| "walk f current idx (sib # rest) =
     walk f (if idx AND 1 = 0 then f current sib else f sib current) (idx div 2) rest"

definition verify_witness :: "digest \<Rightarrow> inclusion_witness \<Rightarrow> hash \<Rightarrow> bool" where
  "verify_witness H w rt =
     (let d = length (iw_siblings w)
      in if d \<ge> 32 then False
         else (let max_index = (if d = 0 then 1 else push_bit d 1 :: u64)
               in if (ucast (iw_leaf_index w) :: u64) \<ge> max_index then False
                  else walk (node_hash_legacy H) (iw_leaf w) (unat (iw_leaf_index w)) (iw_siblings w) = rt))"

section \<open>Completeness: the path of a leaf leads to the root\<close>

lemma even_and_one: "i AND Suc 0 = 0 \<longleftrightarrow> even i" "i mod 2 = 0 \<longleftrightarrow> even i" for i :: nat
  by (simp_all add: and_Suc_0_eq even_iff_mod_2_eq_zero)

lemma xor_one_nat: "i XOR Suc 0 = (if even i then Suc i else i - 1)"
  by (simp add: xor_Suc_0_eq)

lemma path_siblings_perfect:
  assumes "length xs = 2 ^ d" "i < 2 ^ d"
  shows "\<exists>sibs. path_siblings (take d (perfect_layers f d xs)) i = Some sibs \<and> length sibs = d
    \<and> walk f (xs ! i) i sibs = mroot f d xs"
  using assms
proof (induction d arbitrary: xs i)
  case 0
  then show ?case by (auto simp: length_Suc_conv)
next
  case (Suc d)
  let ?ps = "parents f (2 ^ d) xs"
  from Suc.prems have i: "i div 2 < 2 ^ d" by auto
  from Suc.IH [of ?ps "i div 2"] i obtain sibs where
    sibs: "path_siblings (take d (perfect_layers f d ?ps)) (i div 2) = Some sibs" "length sibs = d"
      "walk f (?ps ! (i div 2)) (i div 2) sibs = mroot f d ?ps"
    by auto
  have in_range: "i XOR Suc 0 < length xs"
    using Suc.prems by (auto simp: xor_one_nat elim!: evenE)
  have step: "(if i AND Suc 0 = 0 then f (xs ! i) (xs ! (i XOR Suc 0)) else f (xs ! (i XOR Suc 0)) (xs ! i))
      = ?ps ! (i div 2)"
  proof (cases "even i")
    case True
    with i show ?thesis by (auto simp: even_and_one xor_one_nat)
  next
    case False
    then obtain k where "i = Suc (2 * k)" by (auto elim!: oddE)
    with i show ?thesis by (auto simp: even_and_one xor_one_nat)
  qed
  have "path_siblings (take (Suc d) (perfect_layers f (Suc d) xs)) i = Some (xs ! (i XOR Suc 0) # sibs)"
    using sibs(1) in_range by (simp add: get_at_def)
  moreover have "walk f (xs ! i) i (xs ! (i XOR Suc 0) # sibs) = mroot f (Suc d) xs"
    using sibs(3) Suc.prems by (simp only: walk.simps One_nat_def step mroot_parents)
  ultimately show ?case using sibs(2) by auto
qed

text \<open>The siblings of a path are nodes of the layers, so they have the length of a digest.\<close>

lemma path_siblings_in_layers:
  "path_siblings ls i = Some sibs \<Longrightarrow> x \<in> set sibs \<Longrightarrow> \<exists>l \<in> set ls. x \<in> set l"
  by (induction ls i arbitrary: sibs rule: path_siblings.induct) (auto split: option.splits)

lemma perfect_layers_wf:
  assumes "\<And>l r. length (f l r) = 32"
  shows "length xs = 2 ^ d \<Longrightarrow> \<forall>x \<in> set xs. length x = 32 \<Longrightarrow> layer \<in> set (perfect_layers f d xs) \<Longrightarrow>
    x \<in> set layer \<Longrightarrow> length x = 32"
proof (induction d arbitrary: xs)
  case (Suc d)
  have "\<forall>x \<in> set (parents f (2 ^ d) xs). length x = 32"
    using assms by (auto simp: parents_def)
  with Suc.IH [of "parents f (2 ^ d) xs"] Suc.prems show ?case by auto
qed auto

lemma path_siblings_wf:
  assumes "\<And>l r. length (f l r) = 32" "length xs = 2 ^ d" "\<forall>x \<in> set xs. length x = 32"
    "path_siblings (take n (perfect_layers f d xs)) i = Some sibs"
  shows "list_all hash_wf sibs"
  using path_siblings_in_layers [OF assms(4)] perfect_layers_wf [of f xs d, OF assms(1-3)]
  by (auto simp: list_all_iff dest!: in_set_takeD)

section \<open>Soundness: only the leaf at the index has a path\<close>

text \<open>The strings that a walk hashes.\<close>

fun path_preimages ::
  "(hash \<Rightarrow> hash \<Rightarrow> bytes) \<Rightarrow> (hash \<Rightarrow> hash \<Rightarrow> hash) \<Rightarrow> hash \<Rightarrow> nat \<Rightarrow> hash list \<Rightarrow> bytes set" where
  "path_preimages pre f current idx [] = {}"
| "path_preimages pre f current idx (sib # rest) =
     (if idx AND 1 = 0
      then insert (pre current sib) (path_preimages pre f (f current sib) (idx div 2) rest)
      else insert (pre sib current) (path_preimages pre f (f sib current) (idx div 2) rest))"

lemma walk_snoc:
  "walk f leaf i (sibs @ [s]) =
     (if even (i div 2 ^ length sibs) then f (walk f leaf i sibs) s else f s (walk f leaf i sibs))"
  by (induction f leaf i sibs rule: walk.induct) (simp_all add: even_and_one div_mult2_eq)

lemma path_preimages_snoc:
  "path_preimages pre f leaf i (sibs @ [s]) =
     insert (if even (i div 2 ^ length sibs) then pre (walk f leaf i sibs) s else pre s (walk f leaf i sibs))
       (path_preimages pre f leaf i sibs)"
  by (induction pre f leaf i sibs rule: path_preimages.induct)
    (simp_all add: even_and_one div_mult2_eq insert_commute)

lemma mod_power_Suc:
  "i mod 2 ^ Suc d = (if even (i div 2 ^ d) then i mod 2 ^ d else 2 ^ d + i mod 2 ^ d)" for i :: nat
proof -
  have "i mod (2 ^ d * 2) = 2 ^ d * (i div 2 ^ d mod 2) + i mod 2 ^ d"
    by (rule mod_mult2_eq)
  moreover have "i div 2 ^ d mod 2 = (if even (i div 2 ^ d) then 0 else 1)"
    by (simp add: mod_2_eq_odd)
  ultimately show ?thesis by (simp add: mult.commute)
qed

locale merkle_node =
  fixes H :: digest and pre :: "hash \<Rightarrow> hash \<Rightarrow> bytes" and f :: "hash \<Rightarrow> hash \<Rightarrow> hash"
  assumes node_hash: "f l r = H (pre l r)"
    and pre_inject: "length l = 32 \<Longrightarrow> length l' = 32 \<Longrightarrow> pre l r = pre l' r' \<Longrightarrow> l = l' \<and> r = r'"
begin

lemma mroot_wf:
  assumes "digest32 H" "length xs = 2 ^ d" "\<forall>x \<in> set xs. length x = 32"
  shows "length (mroot f d xs) = 32"
  using assms by (cases d; cases xs) (auto simp: node_hash)

lemma walk_wf:
  assumes "digest32 H" "length leaf = 32"
  shows "length (walk f leaf i sibs) = 32"
  using assms by (cases sibs rule: rev_cases) (auto simp: walk_snoc node_hash)

lemma top_step:
  assumes "digest32 H" "inj_on H (path_preimages pre f leaf i (sibs @ [s]) \<union> node_preimages pre f (Suc d) xs)"
    and "length sibs = d" "length xs = 2 ^ Suc d" "\<forall>x \<in> set xs. length x = 32"
    and "length s = 32" "length leaf = 32"
    and "walk f leaf i (sibs @ [s]) = mroot f (Suc d) xs"
  shows "walk f leaf i sibs = mroot f d (if even (i div 2 ^ d) then take (2 ^ d) xs else drop (2 ^ d) xs)"
proof -
  let ?w = "walk f leaf i sibs" and ?l = "mroot f d (take (2 ^ d) xs)" and ?r = "mroot f d (drop (2 ^ d) xs)"
  have l: "length ?l = 32"
    using assms(4,5) by (intro mroot_wf [OF assms(1)]) (auto dest: in_set_takeD)
  let ?p = "if even (i div 2 ^ d) then pre ?w s else pre s ?w"
  have "H ?p = H (pre ?l ?r)"
    using assms(3,8) by (simp add: walk_snoc node_hash split: if_splits)
  moreover have "?p \<in> path_preimages pre f leaf i (sibs @ [s])"
    using assms(3) by (simp add: path_preimages_snoc)
  ultimately have "?p = pre ?l ?r"
    using inj_onD [OF assms(2), of ?p "pre ?l ?r"] by simp
  then show ?thesis
    using pre_inject [OF walk_wf [OF assms(1,7), of i sibs] l, of s ?r]
      pre_inject [OF assms(6) l, of ?w ?r]
    by (simp split: if_splits)
qed

lemma path_sound:
  "\<lbrakk>digest32 H; inj_on H (path_preimages pre f leaf i sibs \<union> node_preimages pre f d xs);
    length sibs = d; length xs = 2 ^ d; \<forall>x \<in> set xs \<union> set sibs. length x = 32; length leaf = 32;
    walk f leaf i sibs = mroot f d xs\<rbrakk> \<Longrightarrow> leaf = xs ! (i mod 2 ^ d)"
proof (induction d arbitrary: sibs xs)
  case 0
  then show ?case by (auto simp: length_Suc_conv)
next
  case (Suc d)
  from Suc.prems(3) obtain sibs' s where s: "sibs = sibs' @ [s]" "length sibs' = d"
    by (cases sibs rule: rev_cases) auto
  let ?h = "if even (i div 2 ^ d) then take (2 ^ d) xs else drop (2 ^ d) xs"
  have "walk f leaf i sibs' = mroot f d ?h"
    using Suc.prems s by (intro top_step [of leaf i sibs' s]) simp_all
  moreover have "inj_on H (path_preimages pre f leaf i sibs' \<union> node_preimages pre f d ?h)"
    by (rule inj_on_subset [OF Suc.prems(2)]) (auto simp: s path_preimages_snoc)
  moreover have "\<forall>x \<in> set ?h \<union> set sibs'. length x = 32"
    using Suc.prems(5) s by (auto dest: in_set_takeD in_set_dropD)
  ultimately have "leaf = ?h ! (i mod 2 ^ d)"
    using Suc.prems(1,4,6) s(2) by (intro Suc.IH [of sibs' ?h]) simp_all
  then show ?case
    using Suc.prems(4) unfolding mod_power_Suc by (simp split: if_splits)
qed

end

interpretation v1_node: merkle_node H node_preimage "node_hash_v2 H" for H
  by unfold_locales (auto simp: node_hash_v2_def node_preimage_def)

interpretation legacy_node: merkle_node H "(@)" "node_hash_legacy H" for H
  by unfold_locales (auto simp: node_hash_legacy_def)

section \<open>The legacy tree and its witnesses\<close>

lemma legacy_tree:
  obtains d where "build H ls = Some \<lparr>leaves = pad_leaves ZERO_HASH (sort ls),
      layers = perfect_layers (node_hash_legacy H) d (pad_leaves ZERO_HASH (sort ls))\<rparr>"
    "length (pad_leaves ZERO_HASH (sort ls)) = 2 ^ d"
proof -
  obtain d where d: "length (pad_leaves ZERO_HASH (sort ls)) = 2 ^ d"
    by (rule pad_leaves_perfect)
  then show ?thesis
    by (intro that [of d]) (simp_all add: build_def build_legacy_def build_layers_perfect)
qed

text \<open>The shape of every tree that the legacy builder returns.\<close>

lemma build_legacy_shape:
  assumes "build H ls = Some t"
  obtains d where "depth t = d" "length (leaves t) = 2 ^ d" "leaves t = pad_leaves ZERO_HASH (sort ls)"
    "layers t = perfect_layers (node_hash_legacy H) d (leaves t)"
    "root t = Some (mroot (node_hash_legacy H) d (leaves t))"
proof -
  obtain d where d: "build H ls = Some \<lparr>leaves = pad_leaves ZERO_HASH (sort ls),
      layers = perfect_layers (node_hash_legacy H) d (pad_leaves ZERO_HASH (sort ls))\<rparr>"
    "length (pad_leaves ZERO_HASH (sort ls)) = 2 ^ d"
    by (rule legacy_tree)
  with assms show ?thesis
    by (intro that [of d]) (auto simp: depth_def last_perfect_layers intro!: root_last)
qed

lemma verify_witness_walk:
  assumes "length (iw_siblings w) < 32"
  shows "verify_witness H w rt \<longleftrightarrow> unat (iw_leaf_index w) < 2 ^ length (iw_siblings w)
    \<and> walk (node_hash_legacy H) (iw_leaf w) (unat (iw_leaf_index w)) (iw_siblings w) = rt"
proof -
  let ?d = "length (iw_siblings w)"
  have "(2::nat) ^ ?d < 2 ^ 64"
    using assms by (intro power_strict_increasing) simp_all
  then have "unat (of_nat (2 ^ ?d) :: u64) = 2 ^ ?d"
    by (simp only: unat_of_nat) (simp add: take_bit_eq_mod)
  then have p: "unat (push_bit ?d 1 :: u64) = 2 ^ ?d"
    by (simp add: push_bit_eq_mult)
  have "(if ?d = 0 then 1 else push_bit ?d 1 :: u64) = push_bit ?d 1" by simp
  moreover have "(push_bit ?d 1 :: u64) \<le> ucast (iw_leaf_index w) \<longleftrightarrow> 2 ^ ?d \<le> unat (iw_leaf_index w)"
    unfolding word_le_nat_alt p by simp
  ultimately show ?thesis
    using assms by (auto simp: verify_witness_def Let_def)
qed

lemma witness_verifies:
  assumes "build H ls = Some t" "depth t < 32" "root t = Some rt" "i < leaf_count t"
  shows "\<exists>w. build_at_index t (of_nat i) = Some (Some w) \<and> iw_leaf w = leaves t ! i \<and> verify_witness H w rt"
proof -
  obtain d where d: "depth t = d" "length (leaves t) = 2 ^ d"
    "layers t = perfect_layers (node_hash_legacy H) d (leaves t)"
    "root t = Some (mroot (node_hash_legacy H) d (leaves t))"
    using build_legacy_shape [OF assms(1)] by metis
  have i: "i < 2 ^ d" using assms(4) d(2) by (simp add: leaf_count_def)
  moreover have "(2::nat) ^ d < 2 ^ 32"
    using assms(2) d(1) by (intro power_strict_increasing) simp_all
  ultimately have "unat (of_nat i :: u32) = i"
    by (simp only: unat_of_nat) (simp add: take_bit_eq_mod)
  moreover obtain sibs where "path_siblings (take d (layers t)) i = Some sibs" "length sibs = d"
    "walk (node_hash_legacy H) (leaves t ! i) i sibs = mroot (node_hash_legacy H) d (leaves t)"
    using path_siblings_perfect [OF d(2) i, of "node_hash_legacy H"] unfolding d(3) [symmetric] by blast
  ultimately show ?thesis
    using assms(2,3) d(1,2,4) i by (simp add: build_at_index_def get_at_def verify_witness_walk)
qed

lemma verified_leaf:
  assumes "digest32 H" "build H ls = Some t" "\<forall>x \<in> set ls. hash_wf x" "root t = Some rt"
    and "inj_on H (path_preimages (@) (node_hash_legacy H) (iw_leaf w) (unat (iw_leaf_index w)) (iw_siblings w)
      \<union> node_preimages (@) (node_hash_legacy H) (depth t) (leaves t))"
    and "length (iw_siblings w) = depth t" "\<forall>x \<in> set (iw_siblings w). hash_wf x" "hash_wf (iw_leaf w)"
    and "verify_witness H w rt"
  shows "unat (iw_leaf_index w) < leaf_count t \<and> iw_leaf w = leaves t ! unat (iw_leaf_index w)"
proof -
  obtain d where d: "depth t = d" "length (leaves t) = 2 ^ d" "leaves t = pad_leaves ZERO_HASH (sort ls)"
    "root t = Some (mroot (node_hash_legacy H) d (leaves t))"
    using build_legacy_shape [OF assms(2)] by metis
  have "length (iw_siblings w) < 32"
    using assms(9) by (simp add: verify_witness_def Let_def split: if_splits)
  then have v: "unat (iw_leaf_index w) < 2 ^ d"
    "walk (node_hash_legacy H) (iw_leaf w) (unat (iw_leaf_index w)) (iw_siblings w)
      = mroot (node_hash_legacy H) d (leaves t)"
    using assms(4,6,9) d(1,4) by (auto simp: verify_witness_walk)
  have wf: "\<forall>x \<in> set (leaves t) \<union> set (iw_siblings w). length x = 32"
    using assms(3,7) d(3) by (auto simp: pad_leaves_def Let_def ZERO_HASH_def)
  from legacy_node.path_sound [OF assms(1) assms(5) assms(6) _ wf assms(8)] v d(1,2) show ?thesis
    by (simp add: leaf_count_def)
qed

section \<open>Properties\<close>

text \<open>
  C11. Every leaf of a legacy tree has an inclusion witness that verifies: for a tree of depth
  below 32, \<open>build_at_index\<close> at any leaf index succeeds without a panic and the witness passes
  \<open>verify\<close> against the root of the tree.
\<close>

theorem build_at_index_verifies:
  assumes "build H ls = Some t" "depth t < 32" "root t = Some rt" "i < leaf_count t"
  shows "\<exists>w. build_at_index t (of_nat i) = Some (Some w) \<and> iw_leaf w = leaves t ! i \<and> verify_witness H w rt"
  by (rule witness_verifies [OF assms])

theorem build_at_index_verifies_witness:
  "\<exists>t rt w. build sum_digest [replicate 32 1, replicate 32 2, replicate 32 3] = Some t \<and> root t = Some rt
    \<and> build_at_index t (of_nat 2) = Some (Some w) \<and> verify_witness sum_digest w rt"
proof -
  let ?ls = "[replicate 32 1, replicate 32 2, replicate 32 3] :: hash list"
  obtain t where t: "build sum_digest ?ls = Some t"
    using legacy_tree by blast
  obtain d where d: "depth t = d" "length (leaves t) = 2 ^ d" "leaves t = pad_leaves ZERO_HASH (sort ?ls)"
    "root t = Some (mroot (node_hash_legacy sum_digest) d (leaves t))"
    using build_legacy_shape [OF t] by metis
  have "length (leaves t) = 4"
    by (simp add: d(3) pad_leaves_def next_power_of_two_clog2 clog2_eval)
  with d(2) have "(2::nat) ^ d = 2 ^ 2" by simp
  then have "d = 2" by (simp only: power_inject_exp)
  with build_at_index_verifies [OF t, of _ 2] d \<open>length (leaves t) = 4\<close> t show ?thesis
    by (auto simp: leaf_count_def)
qed

text \<open>
  C10. \<open>InclusionWitness::verify\<close> accepts only leaves of the tree: if the digest has no
  collision among the strings hashed by the tree and by the walk, a witness of the depth of
  the tree that verifies against its root carries the leaf at its index, an index in range.
\<close>

theorem verify_accepts_only_leaves:
  assumes "digest32 H" "build H ls = Some t" "\<forall>x \<in> set ls. hash_wf x" "root t = Some rt"
    and "inj_on H (path_preimages (@) (node_hash_legacy H) (iw_leaf w) (unat (iw_leaf_index w)) (iw_siblings w)
      \<union> node_preimages (@) (node_hash_legacy H) (depth t) (leaves t))"
    and "length (iw_siblings w) = depth t" "\<forall>x \<in> set (iw_siblings w). hash_wf x" "hash_wf (iw_leaf w)"
    and "verify_witness H w rt"
  shows "unat (iw_leaf_index w) < leaf_count t \<and> iw_leaf w = leaves t ! unat (iw_leaf_index w)"
  by (rule verified_leaf [OF assms])

theorem verify_accepts_only_leaves_witness:
  "\<exists>t rt. build sum_digest [replicate 32 1, replicate 32 2] = Some t \<and> root t = Some rt
    \<and> verify_witness sum_digest \<lparr>iw_leaf = replicate 32 2, iw_leaf_index = 1, iw_siblings = [replicate 32 1]\<rparr> rt
    \<and> replicate 32 2 = leaves t ! 1"
proof -
  let ?ls = "[replicate 32 1, replicate 32 2] :: hash list" and ?f = "node_hash_legacy sum_digest"
  let ?w = "\<lparr>iw_leaf = replicate 32 2, iw_leaf_index = 1, iw_siblings = [replicate 32 1]\<rparr>"
  have leaves: "pad_leaves ZERO_HASH (sort ?ls) = ?ls"
    by (simp add: pad_leaves_def next_power_of_two_clog2 clog2_eval numeral_eq_Suc list_less_def)
  obtain t where t: "build sum_digest ?ls = Some t"
    using legacy_tree by blast
  obtain d where d: "depth t = d" "length (leaves t) = 2 ^ d" "leaves t = ?ls"
    "root t = Some (mroot ?f d (leaves t))"
    using build_legacy_shape [OF t] leaves by metis
  from d(2,3) have "(2::nat) ^ d = 2 ^ 1" by simp
  then have d1: "d = 1" by (simp only: power_inject_exp)
  have rt: "root t = Some (?f (replicate 32 1) (replicate 32 2))"
    using d d1 by simp
  have v: "verify_witness sum_digest ?w (?f (replicate 32 1) (replicate 32 2))"
    by (simp add: verify_witness_walk)
  have "inj_on sum_digest (path_preimages (@) ?f (iw_leaf ?w) (unat (iw_leaf_index ?w)) (iw_siblings ?w)
      \<union> node_preimages (@) ?f (depth t) (leaves t))"
    using d d1 by simp
  from verify_accepts_only_leaves [OF digest32_sum_digest t _ rt this _ _ _ v] d d1 t rt v show ?thesis
    by auto
qed

end
