(* ===== verification/Leaf_Encoding.thy ===== *)
theory Leaf_Encoding
  imports Merkle_Tree
begin

text \<open>
  The leaf records of six sub-trees of \<open>omega-commitment-core\<close> (\<open>header_leaf.rs\<close>,
  \<open>tx_index_leaf.rs\<close>, \<open>token_policy_leaf.rs\<close>, \<open>script_registry_leaf.rs\<close>,
  \<open>stake_state_leaf.rs\<close>, \<open>governance_state_leaf.rs\<close>), their canonical encodings and the
  validators of record lists, and the snapshot manifest. The locale \<open>leaf_commitment\<close> states
  what a sub-tree needs of its record type: the committed bytes determine the record up to its
  canonical form. Arrays \<open>[u8; n]\<close> are byte lists; \<open>_wf\<close> predicates state their lengths.
\<close>

definition SUB_TREE_ID_UTXO :: u8 where "SUB_TREE_ID_UTXO = 1"
definition SUB_TREE_ID_HEADER :: u8 where "SUB_TREE_ID_HEADER = 2"
definition SUB_TREE_ID_TX_INDEX :: u8 where "SUB_TREE_ID_TX_INDEX = 3"
definition SUB_TREE_ID_TOKEN_POLICY :: u8 where "SUB_TREE_ID_TOKEN_POLICY = 4"
definition SUB_TREE_ID_SCRIPT :: u8 where "SUB_TREE_ID_SCRIPT = 5"
definition SUB_TREE_ID_STAKE :: u8 where "SUB_TREE_ID_STAKE = 6"
definition SUB_TREE_ID_GOVERNANCE :: u8 where "SUB_TREE_ID_GOVERNANCE = 7"

section \<open>Block headers\<close>

record block_header =
  bh_slot :: u64
  bh_block_height :: u64
  bh_block_hash :: bytes
  bh_prev_hash :: bytes

definition block_header_wf :: "block_header \<Rightarrow> bool" where
  "block_header_wf h \<longleftrightarrow> length (bh_block_hash h) = 32 \<and> length (bh_prev_hash h) = 32"

definition block_header_encode :: "block_header \<Rightarrow> bytes" where
  "block_header_encode h =
     to_be_bytes (bh_slot h) @ to_be_bytes (bh_block_height h) @ bh_block_hash h @ bh_prev_hash h"

definition block_header_leaf_hash :: "digest \<Rightarrow> block_header \<Rightarrow> hash" where
  "block_header_leaf_hash H h = blake3_256 H (block_header_encode h)"

definition block_header_commit_to_subtree :: "block_header \<Rightarrow> bytes" where
  "block_header_commit_to_subtree h = block_header_encode h"

text \<open>The loop \<open>for i in 1..headers.len()\<close> with its two early returns.\<close>

fun chain_links_from :: "nat \<Rightarrow> block_header list \<Rightarrow> nat option" where
  "chain_links_from i (p # h # r) =
     (if bh_slot h \<le> bh_slot p then Some i
      else if bh_prev_hash h \<noteq> bh_block_hash p then Some i
      else chain_links_from (Suc i) (h # r))"
| "chain_links_from i _ = None"

definition validate_chain_links :: "block_header list \<Rightarrow> nat option" where
  "validate_chain_links headers = chain_links_from 1 headers"

section \<open>The transaction index\<close>

record tx_index_entry =
  ti_tx_id :: bytes
  ti_slot :: u64
  ti_block_hash :: bytes
  ti_tx_position :: u32

definition tx_index_entry_wf :: "tx_index_entry \<Rightarrow> bool" where
  "tx_index_entry_wf e \<longleftrightarrow> length (ti_tx_id e) = 32 \<and> length (ti_block_hash e) = 32"

definition tx_index_entry_encode :: "tx_index_entry \<Rightarrow> bytes" where
  "tx_index_entry_encode e =
     ti_tx_id e @ to_be_bytes (ti_slot e) @ ti_block_hash e @ to_be_bytes (ti_tx_position e)"

definition tx_index_entry_leaf_hash :: "digest \<Rightarrow> tx_index_entry \<Rightarrow> hash" where
  "tx_index_entry_leaf_hash H e = blake3_256 H (tx_index_entry_encode e)"

definition tx_index_entry_commit_to_subtree :: "tx_index_entry \<Rightarrow> bytes" where
  "tx_index_entry_commit_to_subtree e = tx_index_entry_encode e"

text \<open>
  The uniqueness loops of the validators: \<open>seen\<close> is the \<open>HashSet\<close> of keys, \<open>i\<close> the index
  from \<open>enumerate\<close>, and \<open>insert\<close> returning \<open>false\<close> is the early return.
\<close>

fun first_repeat :: "('a \<Rightarrow> 'k) \<Rightarrow> 'k set \<Rightarrow> nat \<Rightarrow> 'a list \<Rightarrow> nat option" where
  "first_repeat key seen i [] = None"
| "first_repeat key seen i (e # es) =
     (if key e \<in> seen then Some i else first_repeat key (insert (key e) seen) (Suc i) es)"

definition validate_tx_uniqueness :: "tx_index_entry list \<Rightarrow> nat option" where
  "validate_tx_uniqueness entries = first_repeat ti_tx_id {} 0 entries"

section \<open>Token policies\<close>

record token_policy =
  tp_policy_id :: bytes
  tp_first_issuance_slot :: u64
  tp_total_supply_at_h :: u128

definition token_policy_wf :: "token_policy \<Rightarrow> bool" where
  "token_policy_wf p \<longleftrightarrow> length (tp_policy_id p) = 28"

definition token_policy_encode :: "token_policy \<Rightarrow> bytes" where
  "token_policy_encode p =
     tp_policy_id p @ to_be_bytes (tp_first_issuance_slot p) @ to_be_bytes (tp_total_supply_at_h p)"

definition token_policy_leaf_hash :: "digest \<Rightarrow> token_policy \<Rightarrow> hash" where
  "token_policy_leaf_hash H p = blake3_256 H (token_policy_encode p)"

definition token_policy_commit_to_subtree :: "token_policy \<Rightarrow> bytes" where
  "token_policy_commit_to_subtree p = token_policy_encode p"

definition validate_policy_id_uniqueness :: "token_policy list \<Rightarrow> nat option" where
  "validate_policy_id_uniqueness entries = first_repeat tp_policy_id {} 0 entries"

section \<open>The script registry\<close>

record script_entry =
  se_script_hash :: bytes
  se_deployment_slot :: u64
  se_script_size_bytes :: u32
  se_language :: u8

definition script_entry_wf :: "script_entry \<Rightarrow> bool" where
  "script_entry_wf e \<longleftrightarrow> length (se_script_hash e) = 28"

definition script_entry_encode :: "script_entry \<Rightarrow> bytes" where
  "script_entry_encode e =
     se_script_hash e @ to_be_bytes (se_deployment_slot e) @ to_be_bytes (se_script_size_bytes e)
       @ [se_language e]"

definition script_entry_leaf_hash :: "digest \<Rightarrow> script_entry \<Rightarrow> hash" where
  "script_entry_leaf_hash H e = blake3_256 H (script_entry_encode e)"

definition script_entry_commit_to_subtree :: "script_entry \<Rightarrow> bytes" where
  "script_entry_commit_to_subtree e = script_entry_encode e"

definition validate_script_hash_uniqueness :: "script_entry list \<Rightarrow> nat option" where
  "validate_script_hash_uniqueness entries = first_repeat se_script_hash {} 0 entries"

section \<open>Stake state\<close>

datatype drep_delegation =
  DrepNone | DrepKeyHash bytes | DrepScriptHash bytes | DrepAlwaysAbstain | DrepAlwaysNoConfidence

fun drep_tag_byte :: "drep_delegation \<Rightarrow> u8" where
  "drep_tag_byte DrepNone = 0x00"
| "drep_tag_byte (DrepKeyHash h) = 0x01"
| "drep_tag_byte (DrepScriptHash h) = 0x02"
| "drep_tag_byte DrepAlwaysAbstain = 0x03"
| "drep_tag_byte DrepAlwaysNoConfidence = 0x04"

record stake_entry =
  st_stake_credential_hash :: bytes
  st_delegated_pool :: bytes
  st_delegated_drep :: drep_delegation
  st_rewards_lovelace :: u64
  st_is_pool_operator :: u8

fun drep_wf :: "drep_delegation \<Rightarrow> bool" where
  "drep_wf (DrepKeyHash h) = (length h = 28)"
| "drep_wf (DrepScriptHash h) = (length h = 28)"
| "drep_wf _ = True"

definition stake_entry_wf :: "stake_entry \<Rightarrow> bool" where
  "stake_entry_wf e \<longleftrightarrow> length (st_stake_credential_hash e) = 28
     \<and> length (st_delegated_pool e) = 28 \<and> drep_wf (st_delegated_drep e)"

definition stake_entry_encode :: "stake_entry \<Rightarrow> bytes" where
  "stake_entry_encode e =
     st_stake_credential_hash e @ st_delegated_pool e @ [drep_tag_byte (st_delegated_drep e)]
       @ (case st_delegated_drep e of
            DrepKeyHash h \<Rightarrow> h
          | DrepScriptHash h \<Rightarrow> h
          | DrepNone \<Rightarrow> [] | DrepAlwaysAbstain \<Rightarrow> [] | DrepAlwaysNoConfidence \<Rightarrow> [])
       @ to_be_bytes (st_rewards_lovelace e) @ [st_is_pool_operator e]"

definition stake_entry_leaf_hash :: "digest \<Rightarrow> stake_entry \<Rightarrow> hash" where
  "stake_entry_leaf_hash H e = blake3_256 H (stake_entry_encode e)"

definition stake_entry_commit_to_subtree :: "stake_entry \<Rightarrow> bytes" where
  "stake_entry_commit_to_subtree e = stake_entry_encode e"

definition validate_stake_credential_uniqueness :: "stake_entry list \<Rightarrow> nat option" where
  "validate_stake_credential_uniqueness entries = first_repeat st_stake_credential_hash {} 0 entries"

section \<open>Governance state\<close>

definition kind_TREASURY :: u8 where "kind_TREASURY = 0x00"
definition kind_CC_SEAT :: u8 where "kind_CC_SEAT = 0x01"
definition kind_RATIFIED_ACTION :: u8 where "kind_RATIFIED_ACTION = 0x02"
definition kind_IN_FLIGHT_ACTION :: u8 where "kind_IN_FLIGHT_ACTION = 0x03"
definition kind_ACCOUNT_STATE :: u8 where "kind_ACCOUNT_STATE = 0x04"

lemmas kind_defs = kind_TREASURY_def kind_CC_SEAT_def kind_RATIFIED_ACTION_def
  kind_IN_FLIGHT_ACTION_def kind_ACCOUNT_STATE_def

datatype governance_fact =
  Treasury bytes u128 u64
| CcSeat bytes u128 u64
| RatifiedAction bytes u128 u64
| InFlightAction bytes u128 u64
| AccountState u64 u64 u64 u64

fun governance_kind :: "governance_fact \<Rightarrow> u8" where
  "governance_kind (Treasury _ _ _) = kind_TREASURY"
| "governance_kind (CcSeat _ _ _) = kind_CC_SEAT"
| "governance_kind (RatifiedAction _ _ _) = kind_RATIFIED_ACTION"
| "governance_kind (InFlightAction _ _ _) = kind_IN_FLIGHT_ACTION"
| "governance_kind (AccountState _ _ _ _) = kind_ACCOUNT_STATE"

fun governance_fact_wf :: "governance_fact \<Rightarrow> bool" where
  "governance_fact_wf (Treasury k _ _) = (length k = 32)"
| "governance_fact_wf (CcSeat k _ _) = (length k = 32)"
| "governance_fact_wf (RatifiedAction k _ _) = (length k = 32)"
| "governance_fact_wf (InFlightAction k _ _) = (length k = 32)"
| "governance_fact_wf (AccountState _ _ _ _) = True"

text \<open>The shared arm of the four keyed facts.\<close>

definition keyed_fact_bytes :: "u8 \<Rightarrow> bytes \<Rightarrow> u128 \<Rightarrow> u64 \<Rightarrow> bytes" where
  "keyed_fact_bytes k key v slot = [k] @ key @ to_be_bytes v @ to_be_bytes slot"

fun governance_fact_encode :: "governance_fact \<Rightarrow> bytes" where
  "governance_fact_encode (Treasury key v slot) = keyed_fact_bytes kind_TREASURY key v slot"
| "governance_fact_encode (CcSeat key v slot) = keyed_fact_bytes kind_CC_SEAT key v slot"
| "governance_fact_encode (RatifiedAction key v slot) = keyed_fact_bytes kind_RATIFIED_ACTION key v slot"
| "governance_fact_encode (InFlightAction key v slot) = keyed_fact_bytes kind_IN_FLIGHT_ACTION key v slot"
| "governance_fact_encode (AccountState reserves treasury deposits fee_pot) =
     [kind_ACCOUNT_STATE] @ to_be_bytes reserves @ to_be_bytes treasury @ to_be_bytes deposits
       @ to_be_bytes fee_pot"

definition governance_fact_leaf_hash :: "digest \<Rightarrow> governance_fact \<Rightarrow> hash" where
  "governance_fact_leaf_hash H f = blake3_256 H (governance_fact_encode f)"

definition governance_fact_commit_to_subtree :: "governance_fact \<Rightarrow> bytes" where
  "governance_fact_commit_to_subtree f = governance_fact_encode f"

fun fact_identity :: "governance_fact \<Rightarrow> u8 \<times> bytes" where
  "fact_identity (Treasury key v slot) = (kind_TREASURY, key)"
| "fact_identity (CcSeat key v slot) = (kind_CC_SEAT, key)"
| "fact_identity (RatifiedAction key v slot) = (kind_RATIFIED_ACTION, key)"
| "fact_identity (InFlightAction key v slot) = (kind_IN_FLIGHT_ACTION, key)"
| "fact_identity (AccountState _ _ _ _) = (kind_ACCOUNT_STATE, replicate 32 0)"

definition validate_governance_keys_unique_per_kind :: "governance_fact list \<Rightarrow> nat option" where
  "validate_governance_keys_unique_per_kind entries = first_repeat fact_identity {} 0 entries"

section \<open>The snapshot manifest\<close>

definition K_STABILITY :: u32 where
  "K_STABILITY = 2160"

datatype stake_snapshot = Mark | SnapSet | Go

record snapshot_manifest =
  sm_block_hash :: bytes
  sm_slot :: u64
  sm_epoch :: u64
  sm_stability_depth :: u32
  sm_stake_snapshot_select :: stake_snapshot

datatype manifest_error = StabilityTooShallow u32 u32

definition manifest_validate :: "snapshot_manifest \<Rightarrow> manifest_error + unit" where
  "manifest_validate m =
     (if sm_stability_depth m < K_STABILITY
      then Inl (StabilityTooShallow (sm_stability_depth m) K_STABILITY)
      else Inr ())"

section \<open>Encodings determine records\<close>

lemmas [leaf_defs] = block_header_encode_def tx_index_entry_encode_def token_policy_encode_def
  script_entry_encode_def stake_entry_encode_def keyed_fact_bytes_def
  block_header_wf_def tx_index_entry_wf_def token_policy_wf_def script_entry_wf_def stake_entry_wf_def

lemma block_header_encode_inject:
  "block_header_wf x \<Longrightarrow> block_header_wf y \<Longrightarrow> block_header_encode x = block_header_encode y \<Longrightarrow> x = y"
  by (auto simp: leaf_defs intro!: block_header.equality)

lemma tx_index_entry_encode_inject:
  "tx_index_entry_wf x \<Longrightarrow> tx_index_entry_wf y \<Longrightarrow> tx_index_entry_encode x = tx_index_entry_encode y \<Longrightarrow> x = y"
  by (auto simp: leaf_defs intro!: tx_index_entry.equality)

lemma token_policy_encode_inject:
  "token_policy_wf x \<Longrightarrow> token_policy_wf y \<Longrightarrow> token_policy_encode x = token_policy_encode y \<Longrightarrow> x = y"
  by (auto simp: leaf_defs intro!: token_policy.equality)

lemma script_entry_encode_inject:
  "script_entry_wf x \<Longrightarrow> script_entry_wf y \<Longrightarrow> script_entry_encode x = script_entry_encode y \<Longrightarrow> x = y"
  by (auto simp: leaf_defs intro!: script_entry.equality)

lemma stake_entry_encode_inject:
  assumes "stake_entry_wf x" "stake_entry_wf y" "stake_entry_encode x = stake_entry_encode y"
  shows "x = y"
proof -
  have "drep_tag_byte (st_delegated_drep x) = drep_tag_byte (st_delegated_drep y)"
    using assms by (auto simp: leaf_defs)
  with assms show ?thesis
    by (cases "st_delegated_drep x"; cases "st_delegated_drep y")
      (auto simp: leaf_defs intro!: stake_entry.equality)
qed

lemma governance_fact_encode_inject:
  "governance_fact_wf x \<Longrightarrow> governance_fact_wf y \<Longrightarrow> governance_fact_encode x = governance_fact_encode y \<Longrightarrow> x = y"
  by (cases x; cases y) (auto simp: leaf_defs kind_defs)

section \<open>What a sub-tree needs of its records\<close>

locale leaf_commitment =
  fixes wf :: "'a \<Rightarrow> bool" and commit :: "'a \<Rightarrow> 'e + bytes" and canon :: "'a \<Rightarrow> 'c"
  assumes commit_inject: "wf x \<Longrightarrow> wf y \<Longrightarrow> commit x = Inr b \<Longrightarrow> commit y = Inr b \<Longrightarrow> canon x = canon y"
    and commit_cong: "canon x = canon y \<Longrightarrow> commit x = commit y"
begin

text \<open>The canonical form can be read off the committed bytes.\<close>

lemma canon_of_bytes: "\<exists>dec. \<forall>x b. wf x \<longrightarrow> commit x = Inr b \<longrightarrow> dec b = canon x"
proof
  show "\<forall>x b. wf x \<longrightarrow> commit x = Inr b \<longrightarrow> canon (SOME y. wf y \<and> commit y = Inr b) = canon x"
  proof (intro allI impI)
    fix x b assume "wf x" "commit x = Inr b"
    then have "\<exists>y. wf y \<and> commit y = Inr b" by blast
    from someI_ex [OF this] \<open>wf x\<close> \<open>commit x = Inr b\<close>
    show "canon (SOME y. wf y \<and> commit y = Inr b) = canon x"
      by (blast intro: commit_inject)
  qed
qed

lemma commits_determine:
  assumes "\<forall>x \<in> set xs \<union> set ys. wf x" "collect_results commit xs = Inr ps"
    "collect_results commit ys = Inr qs" "mset ps = mset qs"
  shows "image_mset canon (mset xs) = image_mset canon (mset ys)"
proof -
  obtain dec where dec: "\<And>x b. wf x \<Longrightarrow> commit x = Inr b \<Longrightarrow> dec b = canon x"
    using canon_of_bytes by blast
  have "map canon zs = map dec bs"
    if "\<forall>x \<in> set zs. wf x" "collect_results commit zs = Inr bs" for zs bs
    using that by (induction zs arbitrary: bs) (auto simp: dec)
  from this [of xs ps] this [of ys qs] assms(1-3)
  have "map canon xs = map dec ps" "map canon ys = map dec qs" by auto
  then show ?thesis using assms(4) by (metis mset_map)
qed

lemma subtree_root_binds:
  assumes "digest32 H" "inj_on H (v1_preimages H s ps \<union> v1_preimages H s' qs)"
    and "length ps < 2 ^ 64" "length qs < 2 ^ 64"
    and "\<forall>x \<in> set xs \<union> set ys. wf x" "collect_results commit xs = Inr ps" "collect_results commit ys = Inr qs"
    and "build_v1 H s ps = Some (Inr t)" "build_v1 H s' qs = Some (Inr t')" "root t = root t'"
  shows "s = s' \<and> image_mset canon (mset xs) = image_mset canon (mset ys)"
proof -
  have "s = s' \<and> mset ps = mset qs"
    using assms(8-10) by (intro v1_root_inject [OF assms(1-4)]) (simp add: build_v1_Inr root_v1_tree)
  with commits_determine [OF assms(5-7)] show ?thesis by blast
qed

text \<open>Records of equal canonical form are a duplicate of each other in the tree.\<close>

lemma duplicate_iff:
  assumes "\<forall>x \<in> set xs. wf x" "collect_results commit xs = Inr ps"
  shows "distinct ps \<longleftrightarrow> distinct (map canon xs)"
  using assms
proof (induction xs arbitrary: ps)
  case Nil
  then show ?case by simp
next
  case (Cons x xs)
  then obtain b bs where b: "commit x = Inr b" "collect_results commit xs = Inr bs" "ps = b # bs" by auto
  have "b \<in> set bs \<longleftrightarrow> canon x \<in> canon ` set xs"
  proof -
    have "b \<in> set bs \<longleftrightarrow> (\<exists>y \<in> set xs. commit y = Inr b)"
      using b(2) by (rule collect_results_mem)
    also have "\<dots> \<longleftrightarrow> canon x \<in> canon ` set xs"
    proof
      assume "\<exists>y \<in> set xs. commit y = Inr b"
      then obtain y where y: "y \<in> set xs" "commit y = Inr b" ..
      have "canon x = canon y"
        using Cons.prems(1) b(1) y by (intro commit_inject [of x y b]) simp_all
      with y(1) show "canon x \<in> canon ` set xs" by blast
    next
      assume "canon x \<in> canon ` set xs"
      then obtain y where "y \<in> set xs" "canon x = canon y" by blast
      with b(1) show "\<exists>y \<in> set xs. commit y = Inr b" using commit_cong [of x y] by auto
    qed
    finally show ?thesis .
  qed
  with Cons b show ?case by simp
qed

end

interpretation header_leaf: leaf_commitment block_header_wf "\<lambda>h. Inr (block_header_commit_to_subtree h)" "\<lambda>h. h"
  by unfold_locales (auto simp: block_header_commit_to_subtree_def intro: block_header_encode_inject)

interpretation tx_index_leaf: leaf_commitment tx_index_entry_wf "\<lambda>e. Inr (tx_index_entry_commit_to_subtree e)" "\<lambda>e. e"
  by unfold_locales (auto simp: tx_index_entry_commit_to_subtree_def intro: tx_index_entry_encode_inject)

interpretation token_policy_leaf: leaf_commitment token_policy_wf "\<lambda>p. Inr (token_policy_commit_to_subtree p)" "\<lambda>p. p"
  by unfold_locales (auto simp: token_policy_commit_to_subtree_def intro: token_policy_encode_inject)

interpretation script_leaf: leaf_commitment script_entry_wf "\<lambda>e. Inr (script_entry_commit_to_subtree e)" "\<lambda>e. e"
  by unfold_locales (auto simp: script_entry_commit_to_subtree_def intro: script_entry_encode_inject)

interpretation stake_leaf: leaf_commitment stake_entry_wf "\<lambda>e. Inr (stake_entry_commit_to_subtree e)" "\<lambda>e. e"
  by unfold_locales (auto simp: stake_entry_commit_to_subtree_def intro: stake_entry_encode_inject)

interpretation governance_leaf: leaf_commitment governance_fact_wf "\<lambda>f. Inr (governance_fact_commit_to_subtree f)" "\<lambda>f. f"
  by unfold_locales (auto simp: governance_fact_commit_to_subtree_def intro: governance_fact_encode_inject)

section \<open>The validators\<close>

lemma first_repeat_None:
  "first_repeat key seen i es = None \<longleftrightarrow> distinct (map key es) \<and> seen \<inter> key ` set es = {}"
  by (induction key seen i es rule: first_repeat.induct) auto

lemma first_repeat_Some:
  "first_repeat key seen i es = Some j \<longleftrightarrow>
     (\<exists>k < length es. j = i + k \<and> distinct (map key (take k es)) \<and> seen \<inter> key ` set (take k es) = {}
       \<and> (key (es ! k) \<in> seen \<or> key (es ! k) \<in> key ` set (take k es)))"
proof (induction key seen i es rule: first_repeat.induct)
  case (1 key seen i)
  then show ?case by simp
next
  case (2 key seen i e es)
  show ?case
  proof (cases "key e \<in> seen")
    case True
    then show ?thesis by (auto simp: Ex_less_Suc2)
  next
    case False
    then show ?thesis by (auto simp: 2 Ex_less_Suc2)
  qed
qed

text \<open>The index of the first entry whose key occurs before it.\<close>

definition first_repeat_at :: "('a \<Rightarrow> 'k) \<Rightarrow> 'a list \<Rightarrow> nat \<Rightarrow> bool" where
  "first_repeat_at key es j \<longleftrightarrow>
     j < length es \<and> key (es ! j) \<in> key ` set (take j es) \<and> distinct (map key (take j es))"

lemma first_repeat_spec:
  "first_repeat key {} 0 es = None \<longleftrightarrow> distinct (map key es)"
  "first_repeat key {} 0 es = Some j \<longleftrightarrow> first_repeat_at key es j"
  by (auto simp: first_repeat_None first_repeat_Some first_repeat_at_def)

text \<open>A header follows its predecessor.\<close>

definition linked :: "block_header \<Rightarrow> block_header \<Rightarrow> bool" where
  "linked p h \<longleftrightarrow> bh_slot p < bh_slot h \<and> bh_prev_hash h = bh_block_hash p"

lemma chain_links_from_None: "chain_links_from i hs = None \<longleftrightarrow> successively linked hs"
  by (induction i hs rule: chain_links_from.induct) (auto simp: linked_def)

lemma chain_links_from_Some:
  "chain_links_from i hs = Some j \<longleftrightarrow>
     (\<exists>k. Suc k < length hs \<and> j = i + k \<and> successively linked (take (Suc k) hs) \<and> \<not> linked (hs ! k) (hs ! Suc k))"
proof (induction i hs rule: chain_links_from.induct)
  case (1 i p h r)
  have split: "(\<exists>k. Q k) \<longleftrightarrow> Q 0 \<or> (\<exists>k. Q (Suc k))" for Q :: "nat \<Rightarrow> bool"
    by (metis not0_implies_Suc)
  show ?case
  proof (cases "linked p h")
    case True
    then have "chain_links_from i (p # h # r) = chain_links_from (Suc i) (h # r)"
      by (auto simp: linked_def)
    then show ?thesis
      using 1 True by (subst split) (auto simp: linked_def)
  next
    case False
    then show ?thesis
      by (subst split) (auto simp: linked_def)
  qed
qed auto

lemma encode_lengths [byte_len]:
  "block_header_wf h \<Longrightarrow> length (block_header_encode h) = 80"
  "tx_index_entry_wf e \<Longrightarrow> length (tx_index_entry_encode e) = 76"
  "token_policy_wf p \<Longrightarrow> length (token_policy_encode p) = 52"
  "script_entry_wf c \<Longrightarrow> length (script_entry_encode c) = 41"
  by (simp_all add: leaf_defs)

lemma stake_entry_encode_length:
  "stake_entry_wf e \<Longrightarrow> length (stake_entry_encode e) =
     (case st_delegated_drep e of DrepKeyHash _ \<Rightarrow> 94 | DrepScriptHash _ \<Rightarrow> 94 | _ \<Rightarrow> 66)"
  by (cases "st_delegated_drep e") (simp_all add: leaf_defs)

section \<open>Properties\<close>

text \<open>
  The canonical encodings of headers, transaction-index entries, token policies, scripts,
  stake entries and governance facts are injective on well-formed records: no two different
  records of a sub-tree share a leaf payload, although stake entries and governance facts have
  variants of different lengths.
\<close>

theorem leaf_encodings_injective:
  "inj_on block_header_encode {h. block_header_wf h} \<and> inj_on tx_index_entry_encode {e. tx_index_entry_wf e}
   \<and> inj_on token_policy_encode {p. token_policy_wf p} \<and> inj_on script_entry_encode {e. script_entry_wf e}
   \<and> inj_on stake_entry_encode {e. stake_entry_wf e} \<and> inj_on governance_fact_encode {f. governance_fact_wf f}"
  by (intro conjI inj_onI) (auto intro: block_header_encode_inject tx_index_entry_encode_inject
      token_policy_encode_inject script_entry_encode_inject stake_entry_encode_inject
      governance_fact_encode_inject)

text \<open>
  The five uniqueness validators return \<open>None\<close> exactly when the keys of the entries are
  pairwise distinct, and \<open>Some i\<close> exactly when \<open>i\<close> is the first entry whose key occurs
  earlier; the key of a governance fact is its kind with its 32-byte key, the zero key for an
  account state.
\<close>

theorem validators_report_first_repeat:
  "(validate_tx_uniqueness es = None \<longleftrightarrow> distinct (map ti_tx_id es))
   \<and> (validate_tx_uniqueness es = Some i \<longleftrightarrow> first_repeat_at ti_tx_id es i)
   \<and> (validate_policy_id_uniqueness ps = None \<longleftrightarrow> distinct (map tp_policy_id ps))
   \<and> (validate_policy_id_uniqueness ps = Some i \<longleftrightarrow> first_repeat_at tp_policy_id ps i)
   \<and> (validate_script_hash_uniqueness cs = None \<longleftrightarrow> distinct (map se_script_hash cs))
   \<and> (validate_script_hash_uniqueness cs = Some i \<longleftrightarrow> first_repeat_at se_script_hash cs i)
   \<and> (validate_stake_credential_uniqueness ss = None \<longleftrightarrow> distinct (map st_stake_credential_hash ss))
   \<and> (validate_stake_credential_uniqueness ss = Some i \<longleftrightarrow> first_repeat_at st_stake_credential_hash ss i)
   \<and> (validate_governance_keys_unique_per_kind gs = None \<longleftrightarrow> distinct (map fact_identity gs))
   \<and> (validate_governance_keys_unique_per_kind gs = Some i \<longleftrightarrow> first_repeat_at fact_identity gs i)"
  by (simp add: validate_tx_uniqueness_def validate_policy_id_uniqueness_def
      validate_script_hash_uniqueness_def validate_stake_credential_uniqueness_def
      validate_governance_keys_unique_per_kind_def first_repeat_spec)

text \<open>
  \<open>validate_chain_links\<close> returns \<open>None\<close> exactly when every header has a larger slot than
  its predecessor and names the predecessor's hash, and \<open>Some i\<close> exactly when the headers
  before \<open>i\<close> form such a chain and header \<open>i\<close> is the first that does not continue it.
\<close>

theorem chain_links_report_first_break:
  "(validate_chain_links hs = None \<longleftrightarrow> successively linked hs)
   \<and> (validate_chain_links hs = Some i \<longleftrightarrow>
        0 < i \<and> i < length hs \<and> successively linked (take i hs) \<and> \<not> linked (hs ! (i - 1)) (hs ! i))"
proof -
  have "validate_chain_links hs = Some i \<longleftrightarrow> (\<exists>k. Suc k < length hs \<and> i = Suc k
      \<and> successively linked (take (Suc k) hs) \<and> \<not> linked (hs ! k) (hs ! Suc k))"
    by (simp add: validate_chain_links_def chain_links_from_Some)
  moreover have "\<dots> \<longleftrightarrow> 0 < i \<and> i < length hs \<and> successively linked (take i hs) \<and> \<not> linked (hs ! (i - 1)) (hs ! i)"
    by (cases i) auto
  ultimately show ?thesis
    by (simp add: validate_chain_links_def chain_links_from_None)
qed

end
