(* ===== verification/Utxo_Leaf.thy ===== *)
theory Utxo_Leaf
  imports Leaf_Encoding
begin

text \<open>
  The UTXO record of \<open>omega-commitment-core/src/utxo_leaf.rs\<close>: its canonical encoding with
  length-prefixed fields and sorted assets, the five length-overflow errors, and the proof that
  the encoding determines the record up to the order of its assets.
\<close>

datatype leaf_error =
  AssetCountOverflow | AssetIdLenOverflow | AddressLenOverflow | InlineDatumLenOverflow
| ScriptRefLenOverflow

record asset =
  asset_id :: bytes
  quantity :: u64

datatype datum_option = DatumNone | DatumHash bytes | DatumInline bytes

datatype script_language = Native | PlutusV1 | PlutusV2 | PlutusV3

fun script_language_tag_byte :: "script_language \<Rightarrow> u8" where
  "script_language_tag_byte Native = 0x01"
| "script_language_tag_byte PlutusV1 = 0x02"
| "script_language_tag_byte PlutusV2 = 0x03"
| "script_language_tag_byte PlutusV3 = 0x04"

record script_ref =
  sr_language :: script_language
  sr_bytes :: bytes

record utxo =
  utxo_tx_id :: bytes
  utxo_output_index :: u32
  utxo_address :: bytes
  utxo_value_lovelace :: u64
  utxo_assets :: "asset list"
  utxo_datum_option :: datum_option
  utxo_script_ref :: "script_ref option"

text \<open>The body of the asset loop, and the two trailing matches of \<open>encode\<close>.\<close>

definition encode_asset :: "asset \<Rightarrow> leaf_error + bytes" where
  "encode_asset a =
     res_bind (ok_or (try_u16 (length (asset_id a))) AssetIdLenOverflow)
       (\<lambda>id_len. Inr (to_be_bytes id_len @ asset_id a @ to_be_bytes (quantity a)))"

definition encode_datum :: "datum_option \<Rightarrow> leaf_error + bytes" where
  "encode_datum d =
     (case d of
        DatumNone \<Rightarrow> Inr [0x00]
      | DatumHash h \<Rightarrow> Inr (0x01 # h)
      | DatumInline data \<Rightarrow>
          res_bind (ok_or (try_u32 (length data)) InlineDatumLenOverflow)
            (\<lambda>n. Inr (0x02 # to_be_bytes n @ data)))"

definition encode_script_ref :: "script_ref option \<Rightarrow> leaf_error + bytes" where
  "encode_script_ref r =
     (case r of
        None \<Rightarrow> Inr [0x00]
      | Some sr \<Rightarrow>
          res_bind (ok_or (try_u32 (length (sr_bytes sr))) ScriptRefLenOverflow)
            (\<lambda>n. Inr (0x01 # script_language_tag_byte (sr_language sr) # to_be_bytes n @ sr_bytes sr)))"

definition utxo_encode :: "utxo \<Rightarrow> leaf_error + bytes" where
  "utxo_encode u =
     res_bind (ok_or (try_u16 (length (utxo_address u))) AddressLenOverflow) (\<lambda>addr_len.
     res_bind (ok_or (try_u32 (length (utxo_assets u))) AssetCountOverflow) (\<lambda>asset_count.
     res_bind (collect_results encode_asset (sort_key asset_id (utxo_assets u))) (\<lambda>assets.
     res_bind (encode_datum (utxo_datum_option u)) (\<lambda>datum.
     res_bind (encode_script_ref (utxo_script_ref u)) (\<lambda>script.
     Inr (utxo_tx_id u @ to_be_bytes (utxo_output_index u) @ to_be_bytes addr_len @ utxo_address u
            @ to_be_bytes (utxo_value_lovelace u) @ to_be_bytes asset_count @ concat assets
            @ datum @ script))))))"

definition utxo_leaf_hash :: "digest \<Rightarrow> utxo \<Rightarrow> leaf_error + hash" where
  "utxo_leaf_hash H u = res_bind (utxo_encode u) (\<lambda>b. Inr (blake3_256 H b))"

definition utxo_commit_to_subtree :: "utxo \<Rightarrow> leaf_error + bytes" where
  "utxo_commit_to_subtree u = utxo_encode u"

fun datum_wf :: "datum_option \<Rightarrow> bool" where
  "datum_wf (DatumHash h) = (length h = 32)"
| "datum_wf _ = True"

definition utxo_wf :: "utxo \<Rightarrow> bool" where
  "utxo_wf u \<longleftrightarrow> length (utxo_tx_id u) = 32 \<and> datum_wf (utxo_datum_option u)"

text \<open>The canonical form: the assets in byte order of their ids.\<close>

definition utxo_canon :: "utxo \<Rightarrow> utxo" where
  "utxo_canon u = u\<lparr>utxo_assets := sort_key asset_id (utxo_assets u)\<rparr>"

section \<open>The encoding determines the canonical form\<close>

text \<open>A field with a length prefix that fits can be split off.\<close>

lemma prefixed_u16:
  "try_u16 (length xs) = Some n \<Longrightarrow> try_u16 (length ys) = Some m \<Longrightarrow>
   to_be_bytes n @ xs @ r = to_be_bytes m @ ys @ r' \<Longrightarrow> xs = ys \<and> r = r'"
  by (auto simp: try_u16_Some)

lemma prefixed_u32:
  "try_u32 (length xs) = Some n \<Longrightarrow> try_u32 (length ys) = Some m \<Longrightarrow>
   to_be_bytes n @ xs @ r = to_be_bytes m @ ys @ r' \<Longrightarrow> xs = ys \<and> r = r'"
  by (auto simp: try_u32_Some)

lemma encode_asset_prefix:
  assumes "encode_asset a = Inr x" "encode_asset b = Inr y" "x @ r = y @ r'"
  shows "a = b \<and> r = r'"
  using assms prefixed_u16 [of "asset_id a" _ "asset_id b" _ "to_be_bytes (quantity a) @ r" "to_be_bytes (quantity b) @ r'"]
  by (auto simp: encode_asset_def intro!: asset.equality)

lemma encode_assets_prefix:
  "collect_results encode_asset as = Inr xs \<Longrightarrow> collect_results encode_asset bs = Inr ys \<Longrightarrow>
   length as = length bs \<Longrightarrow> concat xs @ r = concat ys @ r' \<Longrightarrow> as = bs \<and> r = r'"
proof (induction as arbitrary: bs xs ys)
  case Nil
  then show ?case by auto
next
  case (Cons a as)
  then obtain b bs' x xs' y ys' where *: "bs = b # bs'" "xs = x # xs'" "ys = y # ys'"
    "encode_asset a = Inr x" "encode_asset b = Inr y"
    "collect_results encode_asset as = Inr xs'" "collect_results encode_asset bs' = Inr ys'"
    by (cases bs) auto
  with Cons.prems(4) encode_asset_prefix [of a x b y "concat xs' @ r" "concat ys' @ r'"]
  have "a = b \<and> concat xs' @ r = concat ys' @ r'" by simp
  with Cons.IH [OF *(6,7)] Cons.prems(3) * show ?case by simp
qed

lemma encode_datum_prefix:
  assumes "encode_datum d = Inr x" "encode_datum e = Inr y" "datum_wf d" "datum_wf e" "x @ r = y @ r'"
  shows "d = e \<and> r = r'"
proof (cases d; cases e)
  fix da ea assume de: "d = DatumInline da" "e = DatumInline ea"
  from assms(1,2) obtain n m where nm: "try_u32 (length da) = Some n" "x = 2 # to_be_bytes n @ da"
    "try_u32 (length ea) = Some m" "y = 2 # to_be_bytes m @ ea"
    by (auto simp: encode_datum_def de)
  with assms(5) prefixed_u32 [OF nm(1,3), of r r'] de show ?thesis by simp
qed (use assms in \<open>auto simp: encode_datum_def\<close>)

lemma script_language_tag_inject: "script_language_tag_byte x = script_language_tag_byte y \<longleftrightarrow> x = y"
  by (cases x; cases y) auto

lemma encode_script_ref_inject: "encode_script_ref a = Inr x \<Longrightarrow> encode_script_ref b = Inr x \<Longrightarrow> a = b"
  by (cases a; cases b)
    (auto simp: encode_script_ref_def script_language_tag_inject try_u32_Some intro!: script_ref.equality)

lemma utxo_encode_canon:
  assumes wf: "utxo_wf u" "utxo_wf v" and enc: "utxo_encode u = Inr b" "utxo_encode v = Inr b"
  shows "utxo_canon u = utxo_canon v"
proof -
  from enc obtain ul uc ua ud us vl vc va vd vs where
    u: "try_u16 (length (utxo_address u)) = Some ul" "try_u32 (length (utxo_assets u)) = Some uc"
      "collect_results encode_asset (sort_key asset_id (utxo_assets u)) = Inr ua"
      "encode_datum (utxo_datum_option u) = Inr ud" "encode_script_ref (utxo_script_ref u) = Inr us" and
    v: "try_u16 (length (utxo_address v)) = Some vl" "try_u32 (length (utxo_assets v)) = Some vc"
      "collect_results encode_asset (sort_key asset_id (utxo_assets v)) = Inr va"
      "encode_datum (utxo_datum_option v) = Inr vd" "encode_script_ref (utxo_script_ref v) = Inr vs" and
    eq: "utxo_tx_id u = utxo_tx_id v" "utxo_output_index u = utxo_output_index v"
      "to_be_bytes ul @ utxo_address u @ to_be_bytes (utxo_value_lovelace u) @ to_be_bytes uc @ concat ua @ ud @ us
       = to_be_bytes vl @ utxo_address v @ to_be_bytes (utxo_value_lovelace v) @ to_be_bytes vc @ concat va @ vd @ vs"
    using wf by (auto simp: utxo_encode_def utxo_wf_def)
  from prefixed_u16 [OF u(1) v(1) eq(3)] have
    a: "utxo_address u = utxo_address v" "utxo_value_lovelace u = utxo_value_lovelace v" "uc = vc"
      "concat ua @ ud @ us = concat va @ vd @ vs"
    by auto
  have "length (utxo_assets u) = length (utxo_assets v)"
    using u(2) v(2) a(3) by (simp add: try_u32_Some)
  with encode_assets_prefix [OF u(3) v(3) _ a(4)] have
    b: "sort_key asset_id (utxo_assets u) = sort_key asset_id (utxo_assets v)" "ud @ us = vd @ vs"
    by auto
  from encode_datum_prefix [OF u(4) v(4) _ _ b(2)] wf have
    c: "utxo_datum_option u = utxo_datum_option v" "us = vs" by (auto simp: utxo_wf_def)
  have "utxo_script_ref u = utxo_script_ref v"
    using encode_script_ref_inject u(5) v(5) c(2) by simp
  with eq(1,2) a(1,2) b(1) c(1) show ?thesis
    by (auto simp: utxo_canon_def intro!: utxo.equality)
qed

lemma utxo_encode_cong:
  assumes "utxo_canon u = utxo_canon v"
  shows "utxo_encode u = utxo_encode v"
proof -
  have canon: "utxo_encode u = utxo_encode (utxo_canon u)" for u
    by (simp add: utxo_encode_def utxo_canon_def sort_key_id_if_sorted)
  show ?thesis unfolding canon [of u] canon [of v] assms ..
qed

interpretation utxo_leaf: leaf_commitment utxo_wf utxo_commit_to_subtree utxo_canon
  by unfold_locales (auto simp: utxo_commit_to_subtree_def intro: utxo_encode_canon utxo_encode_cong)

lemma utxo_canon_permuted:
  assumes "mset as = mset bs" "distinct (map asset_id as)"
  shows "utxo_canon (u\<lparr>utxo_assets := as\<rparr>) = utxo_canon (u\<lparr>utxo_assets := bs\<rparr>)"
proof -
  have "sort_key asset_id as = sort_key asset_id bs"
    using assms by (intro sort_key_inj_key_eq) (simp_all add: distinct_map)
  then show ?thesis by (simp add: utxo_canon_def)
qed

lemma encode_asset_ok: "(\<exists>b. encode_asset a = Inr b) \<longleftrightarrow> length (asset_id a) < 2 ^ 16"
  by (auto simp: encode_asset_def try_u16_def)

lemma collect_results_ok: "(\<exists>ys. collect_results f xs = Inr ys) \<longleftrightarrow> (\<forall>x \<in> set xs. \<exists>y. f x = Inr y)"
  by (induction xs) auto

section \<open>Properties\<close>

text \<open>
  \<open>Utxo::encode\<close> is canonical: a second well-formed UTXO has the same encoding exactly when
  it has the same canonical form, that is, the same fields and the same assets after the stable
  sort by asset id. No length prefix or tag lets two different UTXOs share their bytes.
\<close>

theorem utxo_encode_canonical:
  assumes "utxo_wf u" "utxo_wf v" "utxo_encode u = Inr b"
  shows "utxo_encode v = Inr b \<longleftrightarrow> utxo_canon u = utxo_canon v"
proof
  assume "utxo_encode v = Inr b"
  then show "utxo_canon u = utxo_canon v" by (rule utxo_encode_canon [OF assms])
next
  assume "utxo_canon u = utxo_canon v"
  from utxo_encode_cong [OF this] assms(3) show "utxo_encode v = Inr b" by simp
qed

definition example_utxo :: utxo where
  "example_utxo = \<lparr>utxo_tx_id = replicate 32 1, utxo_output_index = 0, utxo_address = [0x61, 7],
     utxo_value_lovelace = 5, utxo_assets = [\<lparr>asset_id = [2], quantity = 9\<rparr>, \<lparr>asset_id = [1], quantity = 8\<rparr>],
     utxo_datum_option = DatumNone, utxo_script_ref = None\<rparr>"

definition example_utxo_sorted :: utxo where
  "example_utxo_sorted = example_utxo\<lparr>utxo_assets :=
     [\<lparr>asset_id = [1], quantity = 8\<rparr>, \<lparr>asset_id = [2], quantity = 9\<rparr>]\<rparr>"

lemma example_utxo_canon: "utxo_canon example_utxo = example_utxo_sorted"
  by (simp add: utxo_canon_def example_utxo_def example_utxo_sorted_def)

theorem utxo_encode_canonical_witness:
  "\<exists>b. utxo_encode example_utxo = Inr b \<and> utxo_encode example_utxo_sorted = Inr b"
proof -
  have wf: "utxo_wf example_utxo" "utxo_wf example_utxo_sorted"
    by (simp_all add: utxo_wf_def example_utxo_def example_utxo_sorted_def)
  obtain b where b: "utxo_encode example_utxo = Inr b"
    by (simp add: utxo_encode_def example_utxo_def try_u16_def try_u32_def encode_asset_def
        encode_datum_def encode_script_ref_def)
  have "utxo_canon example_utxo_sorted = example_utxo_sorted"
    by (simp add: utxo_canon_def example_utxo_def example_utxo_sorted_def)
  with utxo_encode_canonical [OF wf b] b example_utxo_canon show ?thesis by simp
qed

text \<open>
  \<open>Utxo::encode\<close> fails only when a length does not fit its prefix: it succeeds exactly when
  the address and every asset id are shorter than 2^16 bytes and the number of assets, an
  inline datum and a reference script are shorter than 2^32, and the first check that fails
  names the error.
\<close>

theorem utxo_encode_succeeds_iff:
  "((\<exists>b. utxo_encode u = Inr b) \<longleftrightarrow>
     length (utxo_address u) < 2 ^ 16 \<and> length (utxo_assets u) < 2 ^ 32
     \<and> list_all (\<lambda>a. length (asset_id a) < 2 ^ 16) (utxo_assets u)
     \<and> (case utxo_datum_option u of DatumInline d \<Rightarrow> length d < 2 ^ 32 | _ \<Rightarrow> True)
     \<and> (case utxo_script_ref u of Some sr \<Rightarrow> length (sr_bytes sr) < 2 ^ 32 | None \<Rightarrow> True))
   \<and> (utxo_encode u = Inl AddressLenOverflow \<longleftrightarrow> 2 ^ 16 \<le> length (utxo_address u))"
proof -
  have d: "(\<exists>b. encode_datum x = Inr b) \<longleftrightarrow> (case x of DatumInline d \<Rightarrow> length d < 2 ^ 32 | _ \<Rightarrow> True)" for x
    by (cases x) (auto simp: encode_datum_def try_u32_def)
  have r: "(\<exists>b. encode_script_ref x = Inr b) \<longleftrightarrow> (case x of Some sr \<Rightarrow> length (sr_bytes sr) < 2 ^ 32 | None \<Rightarrow> True)" for x
    by (cases x) (auto simp: encode_script_ref_def try_u32_def)
  have a: "(\<exists>ys. collect_results encode_asset (sort_key asset_id xs) = Inr ys) \<longleftrightarrow> list_all (\<lambda>a. length (asset_id a) < 2 ^ 16) xs" for xs
    by (simp only: collect_results_ok encode_asset_ok set_sort list_all_iff)
  have no_addr: "encode_asset x \<noteq> Inl AddressLenOverflow" "encode_datum y \<noteq> Inl AddressLenOverflow"
    "encode_script_ref z \<noteq> Inl AddressLenOverflow" for x y z
    by (auto simp: encode_asset_def encode_datum_def encode_script_ref_def res_bind_eq_Inl ok_or_def
        split: option.splits datum_option.splits)
  have "collect_results encode_asset xs \<noteq> Inl AddressLenOverflow" for xs
    by (induction xs) (auto simp: res_bind_eq_Inl no_addr)
  then have "utxo_encode u = Inl AddressLenOverflow \<longleftrightarrow> 2 ^ 16 \<le> length (utxo_address u)"
    by (auto simp: utxo_encode_def res_bind_eq_Inl no_addr ok_or_def try_u16_def try_u32_def split: option.splits if_splits)
  moreover have "(\<exists>b. utxo_encode u = Inr b) \<longleftrightarrow> length (utxo_address u) < 2 ^ 16 \<and> length (utxo_assets u) < 2 ^ 32
     \<and> (\<exists>ys. collect_results encode_asset (sort_key asset_id (utxo_assets u)) = Inr ys)
     \<and> (\<exists>b. encode_datum (utxo_datum_option u) = Inr b) \<and> (\<exists>b. encode_script_ref (utxo_script_ref u) = Inr b)"
    by (auto simp: utxo_encode_def try_u16_def try_u32_def)
  ultimately show ?thesis unfolding a d r by blast
qed

text \<open>
  The root of a UTXO sub-tree binds the UTXO set: if two lists of UTXOs encode, their
  version-1 trees are built, the digest has no collision among the strings the trees hash and
  the roots agree, then the sub-tree ids agree and the two lists contain the same canonical
  UTXOs with the same multiplicities.
\<close>

theorem utxo_subtree_root_binds:
  assumes "digest32 H" "inj_on H (v1_preimages H s ps \<union> v1_preimages H s' qs)"
    and "length us < 2 ^ 64" "length vs < 2 ^ 64" "list_all utxo_wf us" "list_all utxo_wf vs"
    and "collect_results utxo_commit_to_subtree us = Inr ps" "collect_results utxo_commit_to_subtree vs = Inr qs"
    and "build_v1 H s ps = Some (Inr t)" "build_v1 H s' qs = Some (Inr t')" "root t = root t'"
  shows "s = s' \<and> image_mset utxo_canon (mset us) = image_mset utxo_canon (mset vs)"
proof (rule utxo_leaf.subtree_root_binds [OF assms(1,2) _ _ _ assms(7-11)])
  show "length ps < 2 ^ 64" "length qs < 2 ^ 64"
    using assms(3,4,7,8) by (simp_all add: collect_results_length)
qed (use assms(5,6) in \<open>auto simp: list_all_iff\<close>)

text \<open>The encoding of both example UTXOs.\<close>

definition example_payload :: bytes where
  "example_payload = replicate 32 1 @ [0,0,0,0] @ [0,2] @ [0x61,7] @ [0,0,0,0,0,0,0,5] @ [0,0,0,2]
     @ [0,1,1,0,0,0,0,0,0,0,8] @ [0,1,2,0,0,0,0,0,0,0,9] @ [0] @ [0]"

lemma example_utxo_encode:
  "utxo_encode example_utxo = Inr example_payload" "utxo_encode example_utxo_sorted = Inr example_payload"
  by (simp_all add: utxo_encode_def example_utxo_sorted_def example_utxo_def try_u16_def try_u32_def
      encode_asset_def encode_datum_def encode_script_ref_def example_payload_def to_be_bytes_def)

lemma example_payload_inj: "inj_on sum_digest (v1_preimages sum_digest 1 [example_payload])"
  by (simp add: preimage_eval example_payload_def)

theorem utxo_subtree_root_binds_witness:
  "\<exists>t. build_v1 sum_digest 1 [example_payload] = Some (Inr t)
    \<and> collect_results utxo_commit_to_subtree [example_utxo] = Inr [example_payload]
    \<and> collect_results utxo_commit_to_subtree [example_utxo_sorted] = Inr [example_payload]
    \<and> image_mset utxo_canon (mset [example_utxo]) = image_mset utxo_canon (mset [example_utxo_sorted])"
proof -
  have t: "build_v1 sum_digest 1 [example_payload] = Some (Inr (v1_tree sum_digest 1 [example_payload]))"
    by (simp add: build_v1_distinct)
  have c: "collect_results utxo_commit_to_subtree [example_utxo] = Inr [example_payload]"
    "collect_results utxo_commit_to_subtree [example_utxo_sorted] = Inr [example_payload]"
    by (simp_all add: utxo_commit_to_subtree_def example_utxo_encode)
  have wf: "list_all utxo_wf [example_utxo]" "list_all utxo_wf [example_utxo_sorted]"
    by (simp_all add: utxo_wf_def example_utxo_def example_utxo_sorted_def)
  have i: "inj_on sum_digest (v1_preimages sum_digest 1 [example_payload] \<union> v1_preimages sum_digest 1 [example_payload])"
    using example_payload_inj by simp
  from utxo_subtree_root_binds [OF digest32_sum_digest i _ _ wf c t t refl] t c show ?thesis by simp
qed

end
