(* ===== verification/Claim_Wire.thy ===== *)
theory Claim_Wire
  imports Merkle_Tree
begin

text \<open>
  The claim transactions of \<open>omega-claim-tx/src/lib.rs\<close> and their CBOR wire form. The
  \<open>minicbor\<close> crate is the parameter \<open>M\<close> (a record of its item encoders and decoders), and
  \<open>cbor_laws\<close> states what it documents: an item decodes from its own encoding, leaving the
  rest of the input. Encoding into a \<open>Vec\<close> has the error type \<open>Infallible\<close>, so the encoders
  are total. A decoder is a function on the remaining input; \<open>DecPanic\<close> is the capacity-overflow
  panic of \<open>Vec::with_capacity\<close> on a 64-bit target.
\<close>

section \<open>Wire types\<close>

definition CLAIM_TX_WIRE_VERSION :: u64 where "CLAIM_TX_WIRE_VERSION = 2"
definition VARIANT_UTXO :: u64 where "VARIANT_UTXO = 0"
definition VARIANT_COLLECTION :: u64 where "VARIANT_COLLECTION = 1"
definition CHECKSUM_LEN :: nat where "CHECKSUM_LEN = 32"

lemmas wire_const_defs = CLAIM_TX_WIRE_VERSION_def VARIANT_UTXO_def VARIANT_COLLECTION_def CHECKSUM_LEN_def

record claim_public_inputs =
  cp_sub_tree_id :: u8
  cp_leaf_index :: u64
  cp_tree_depth :: u8
  cp_per_sub_tree_root :: hash
  cp_bundle_root_blake3 :: hash
  cp_nullifier :: hash
  cp_recipient_starstream_addr :: hash

record claim_witness =
  cw_leaf_payload :: bytes
  cw_merkle_path :: "hash list"
  cw_signing_key_proof :: bytes

datatype proof_bytes = ProofBytes bytes

fun proof_raw :: "proof_bytes \<Rightarrow> bytes" where
  "proof_raw (ProofBytes b) = b"

record claim_utxo =
  cu_public :: claim_public_inputs
  cu_witness :: claim_witness
  cu_proof :: proof_bytes

record claim_collection =
  cc_public :: "claim_public_inputs list"
  cc_witness :: "claim_witness list"
  cc_proof :: proof_bytes

datatype claim_tx = ClaimTxUtxo claim_utxo | ClaimTxCollection claim_collection

datatype cbor_error =
  CborEncode string
| CborDecode string
| UnsupportedVersion u64
| ChecksumMismatch
| NonCanonicalPayload
| TrailingBytes nat nat
| InvalidByteLength string nat nat
| InvalidArrayLength string u64 u64
| IndefiniteArray string
| UnknownVariant u64
| CollectionArityMismatch nat nat

datatype dec_fail = DecErr cbor_error | DecPanic

section \<open>The CBOR library\<close>

record cbor_lib =
  enc_array :: "u64 \<Rightarrow> bytes"
  enc_u64 :: "u64 \<Rightarrow> bytes"
  enc_u8 :: "u8 \<Rightarrow> bytes"
  enc_bytes :: "bytes \<Rightarrow> bytes"
  dec_array :: "bytes \<Rightarrow> string + u64 option \<times> bytes"
  dec_u64 :: "bytes \<Rightarrow> string + u64 \<times> bytes"
  dec_u8 :: "bytes \<Rightarrow> string + u8 \<times> bytes"
  dec_bytes :: "bytes \<Rightarrow> string + bytes \<times> bytes"

definition cbor_laws :: "cbor_lib \<Rightarrow> bool" where
  "cbor_laws M \<longleftrightarrow>
     (\<forall>n r. dec_array M (enc_array M n @ r) = Inr (Some n, r))
     \<and> (\<forall>n r. dec_u64 M (enc_u64 M n @ r) = Inr (n, r))
     \<and> (\<forall>n r. dec_u8 M (enc_u8 M n @ r) = Inr (n, r))
     \<and> (\<forall>b r. length b < 2 ^ 64 \<longrightarrow> dec_bytes M (enc_bytes M b @ r) = Inr (b, r))"

section \<open>Encoding\<close>

definition encode_public_inputs :: "cbor_lib \<Rightarrow> claim_public_inputs \<Rightarrow> bytes" where
  "encode_public_inputs M p =
     enc_array M 7 @ enc_u8 M (cp_sub_tree_id p) @ enc_u64 M (cp_leaf_index p) @ enc_u8 M (cp_tree_depth p)
       @ enc_bytes M (cp_per_sub_tree_root p) @ enc_bytes M (cp_bundle_root_blake3 p)
       @ enc_bytes M (cp_nullifier p) @ enc_bytes M (cp_recipient_starstream_addr p)"

definition encode_witness :: "cbor_lib \<Rightarrow> claim_witness \<Rightarrow> bytes" where
  "encode_witness M w =
     enc_array M 3 @ enc_bytes M (cw_leaf_payload w) @ enc_array M (as_u64 (length (cw_merkle_path w)))
       @ concat (map (enc_bytes M) (cw_merkle_path w)) @ enc_bytes M (cw_signing_key_proof w)"

definition encode_utxo :: "cbor_lib \<Rightarrow> claim_utxo \<Rightarrow> bytes" where
  "encode_utxo M c =
     enc_array M 3 @ encode_public_inputs M (cu_public c) @ encode_witness M (cu_witness c)
       @ enc_bytes M (proof_raw (cu_proof c))"

definition encode_collection :: "cbor_lib \<Rightarrow> claim_collection \<Rightarrow> bytes" where
  "encode_collection M c =
     enc_array M 3
       @ enc_array M (as_u64 (length (cc_public c))) @ concat (map (encode_public_inputs M) (cc_public c))
       @ enc_array M (as_u64 (length (cc_witness c))) @ concat (map (encode_witness M) (cc_witness c))
       @ enc_bytes M (proof_raw (cc_proof c))"

fun encode_claim_tx :: "cbor_lib \<Rightarrow> claim_tx \<Rightarrow> bytes" where
  "encode_claim_tx M (ClaimTxUtxo c) = enc_array M 2 @ enc_u64 M VARIANT_UTXO @ encode_utxo M c"
| "encode_claim_tx M (ClaimTxCollection c) =
     enc_array M 2 @ enc_u64 M VARIANT_COLLECTION @ encode_collection M c"

definition encode_payload :: "cbor_lib \<Rightarrow> claim_tx \<Rightarrow> bytes" where
  "encode_payload M tx = encode_claim_tx M tx"

fun validate_claim :: "claim_tx \<Rightarrow> cbor_error + unit" where
  "validate_claim (ClaimTxCollection c) =
     (if length (cc_public c) \<noteq> length (cc_witness c)
      then Inl (CollectionArityMismatch (length (cc_public c)) (length (cc_witness c))) else Inr ())"
| "validate_claim (ClaimTxUtxo c) = Inr ()"

definition to_cbor :: "digest \<Rightarrow> cbor_lib \<Rightarrow> claim_tx \<Rightarrow> cbor_error + bytes" where
  "to_cbor H M tx =
     res_bind (validate_claim tx) (\<lambda>_.
       let payload = encode_payload M tx; checksum = blake3_256 H payload
       in Inr (enc_array M 3 @ enc_u64 M CLAIM_TX_WIRE_VERSION @ enc_bytes M payload @ enc_bytes M checksum))"

section \<open>Decoding\<close>

type_synonym 'a decoder = "(dec_fail, 'a) parser"

definition dfail :: "cbor_error \<Rightarrow> 'a decoder" where
  "dfail e = (\<lambda>bs. Inl (DecErr e))"

text \<open>\<open>From<minicbor::decode::Error>\<close>, applied by \<open>?\<close> to every library call.\<close>

definition dlift :: "(bytes \<Rightarrow> string + 'a \<times> bytes) \<Rightarrow> 'a decoder" where
  "dlift f = (\<lambda>bs. map_err (\<lambda>s. DecErr (CborDecode s)) (f bs))"

definition array_len :: "cbor_lib \<Rightarrow> string \<Rightarrow> u64 decoder" where
  "array_len M field =
     dbind (dlift (dec_array M)) (\<lambda>n. case n of None \<Rightarrow> dfail (IndefiniteArray field) | Some k \<Rightarrow> dreturn k)"

definition expect_array :: "cbor_lib \<Rightarrow> string \<Rightarrow> u64 \<Rightarrow> unit decoder" where
  "expect_array M field expected =
     dbind (array_len M field) (\<lambda>actual.
       if actual \<noteq> expected then dfail (InvalidArrayLength field expected actual) else dreturn ())"

definition read_hash :: "cbor_lib \<Rightarrow> string \<Rightarrow> hash decoder" where
  "read_hash M field =
     dbind (dlift (dec_bytes M)) (\<lambda>b.
       if length b \<noteq> CHECKSUM_LEN then dfail (InvalidByteLength field CHECKSUM_LEN (length b)) else dreturn b)"

text \<open>\<open>position\<close> is what has been consumed of the \<open>total\<close> bytes of the decoder's input.\<close>

definition expect_end :: "nat \<Rightarrow> unit decoder" where
  "expect_end total_len = (\<lambda>rest.
     let position = total_len - length rest
     in if position \<noteq> total_len then Inl (DecErr (TrailingBytes position total_len)) else Inr ((), rest))"

text \<open>\<open>Vec::with_capacity(n)\<close> for elements of the given size.\<close>

definition with_capacity :: "nat \<Rightarrow> u64 \<Rightarrow> unit decoder" where
  "with_capacity elem n = (\<lambda>bs. if unat n * elem \<ge> 2 ^ 63 then Inl DecPanic else Inr ((), bs))"

definition decode_public_inputs :: "cbor_lib \<Rightarrow> claim_public_inputs decoder" where
  "decode_public_inputs M =
     dbind (expect_array M ''public_inputs'' 7) (\<lambda>_.
     dbind (dlift (dec_u8 M)) (\<lambda>sub_tree_id.
     dbind (dlift (dec_u64 M)) (\<lambda>leaf_index.
     dbind (dlift (dec_u8 M)) (\<lambda>tree_depth.
     dbind (read_hash M ''per_sub_tree_root'') (\<lambda>per_sub_tree_root.
     dbind (read_hash M ''bundle_root_blake3'') (\<lambda>bundle_root.
     dbind (read_hash M ''nullifier'') (\<lambda>nullifier.
     dbind (read_hash M ''recipient_starstream_addr'') (\<lambda>addr.
       dreturn \<lparr>cp_sub_tree_id = sub_tree_id, cp_leaf_index = leaf_index, cp_tree_depth = tree_depth,
         cp_per_sub_tree_root = per_sub_tree_root, cp_bundle_root_blake3 = bundle_root,
         cp_nullifier = nullifier, cp_recipient_starstream_addr = addr\<rparr>))))))))"

definition decode_witness :: "cbor_lib \<Rightarrow> claim_witness decoder" where
  "decode_witness M =
     dbind (expect_array M ''witness'' 3) (\<lambda>_.
     dbind (dlift (dec_bytes M)) (\<lambda>leaf_payload.
     dbind (array_len M ''witness.merkle_path'') (\<lambda>merkle_path_len.
     dbind (with_capacity 32 merkle_path_len) (\<lambda>_.
     dbind (decode_many (unat merkle_path_len) (read_hash M ''witness.merkle_path.sibling'')) (\<lambda>merkle_path.
     dbind (dlift (dec_bytes M)) (\<lambda>signing_key_proof.
       dreturn \<lparr>cw_leaf_payload = leaf_payload, cw_merkle_path = merkle_path,
         cw_signing_key_proof = signing_key_proof\<rparr>))))))"

definition decode_utxo :: "cbor_lib \<Rightarrow> claim_utxo decoder" where
  "decode_utxo M =
     dbind (expect_array M ''utxo'' 3) (\<lambda>_.
     dbind (decode_public_inputs M) (\<lambda>public.
     dbind (decode_witness M) (\<lambda>witness.
     dbind (dlift (dec_bytes M)) (\<lambda>proof.
       dreturn \<lparr>cu_public = public, cu_witness = witness, cu_proof = ProofBytes proof\<rparr>))))"

definition decode_collection :: "cbor_lib \<Rightarrow> claim_collection decoder" where
  "decode_collection M =
     dbind (expect_array M ''collection'' 3) (\<lambda>_.
     dbind (array_len M ''collection.public'') (\<lambda>public_len.
     dbind (with_capacity 144 public_len) (\<lambda>_.
     dbind (decode_many (unat public_len) (decode_public_inputs M)) (\<lambda>public.
     dbind (array_len M ''collection.witness'') (\<lambda>witness_len.
     dbind (with_capacity 72 witness_len) (\<lambda>_.
     dbind (decode_many (unat witness_len) (decode_witness M)) (\<lambda>witness.
       if length public \<noteq> length witness
       then dfail (CollectionArityMismatch (length public) (length witness))
       else dbind (dlift (dec_bytes M)) (\<lambda>proof.
         dreturn \<lparr>cc_public = public, cc_witness = witness, cc_proof = ProofBytes proof\<rparr>))))))))"

definition decode_claim_tx :: "cbor_lib \<Rightarrow> claim_tx decoder" where
  "decode_claim_tx M =
     dbind (expect_array M ''claim_tx'' 2) (\<lambda>_.
     dbind (dlift (dec_u64 M)) (\<lambda>variant.
       if variant = VARIANT_UTXO then dbind (decode_utxo M) (\<lambda>c. dreturn (ClaimTxUtxo c))
       else if variant = VARIANT_COLLECTION then dbind (decode_collection M) (\<lambda>c. dreturn (ClaimTxCollection c))
       else dfail (UnknownVariant variant)))"

definition decode_payload :: "cbor_lib \<Rightarrow> bytes \<Rightarrow> dec_fail + claim_tx" where
  "decode_payload M payload =
     res_bind (dbind (decode_claim_tx M) (\<lambda>tx. dbind (expect_end (length payload)) (\<lambda>_. dreturn tx)) payload)
       (\<lambda>(tx, _). Inr tx)"

definition decode_envelope :: "cbor_lib \<Rightarrow> bytes \<Rightarrow> dec_fail + (bytes \<times> hash) \<times> bytes" where
  "decode_envelope M bs =
     dbind (expect_array M ''envelope'' 3) (\<lambda>_.
     dbind (dlift (dec_u64 M)) (\<lambda>version.
       if version \<noteq> CLAIM_TX_WIRE_VERSION then dfail (UnsupportedVersion version)
       else dbind (dlift (dec_bytes M)) (\<lambda>payload.
            dbind (read_hash M ''checksum'') (\<lambda>checksum.
            dbind (expect_end (length bs)) (\<lambda>_. dreturn (payload, checksum)))))) bs"

definition from_cbor :: "digest \<Rightarrow> cbor_lib \<Rightarrow> bytes \<Rightarrow> dec_fail + claim_tx" where
  "from_cbor H M bs =
     res_bind (decode_envelope M bs) (\<lambda>((payload, checksum), _).
       if blake3_256 H payload \<noteq> checksum then Inl (DecErr ChecksumMismatch)
       else res_bind (decode_payload M payload) (\<lambda>decoded.
         if encode_payload M decoded \<noteq> payload then Inl (DecErr NonCanonicalPayload) else Inr decoded))"

section \<open>Decoders that read back an encoding\<close>

lemma parse_items [parse_rules]:
  assumes "cbor_laws M"
  shows "dlift (dec_u64 M) (enc_u64 M n @ r) = Inr (n, r)"
    and "dlift (dec_u8 M) (enc_u8 M k @ r) = Inr (k, r)"
    and "length b < 2 ^ 64 \<Longrightarrow> dlift (dec_bytes M) (enc_bytes M b @ r) = Inr (b, r)"
    and "array_len M fld (enc_array M n @ r) = Inr (n, r)"
    and "expect_array M fld n (enc_array M n @ r) = Inr ((), r)"
  using assms by (simp_all add: dlift_def cbor_laws_def array_len_def expect_array_def dbind_def dreturn_def)

lemma parse_hash [parse_rules]:
  "cbor_laws M \<Longrightarrow> length h = 32 \<Longrightarrow> read_hash M fld (enc_bytes M h @ r) = Inr (h, r)"
  by (simp add: read_hash_def parse_rules CHECKSUM_LEN_def)

lemma parse_with_capacity [parse_rules]: "unat n * sz < 2 ^ 63 \<Longrightarrow> with_capacity sz n bs = Inr ((), bs)"
  by (simp add: with_capacity_def)

lemma expect_end_Nil: "expect_end n [] = Inr ((), [])"
  by (simp add: expect_end_def)

lemma expect_end_Inr: "length rest \<le> n \<Longrightarrow> expect_end n rest = Inr (u, r) \<longleftrightarrow> rest = [] \<and> r = []"
  by (cases rest) (auto simp: expect_end_def Let_def)

section \<open>Round trip\<close>

text \<open>
  Sizes that every value of the Rust types has: hashes have 32 bytes, and no vector occupies
  more than \<open>isize::MAX\<close> bytes.
\<close>

definition public_wf :: "claim_public_inputs \<Rightarrow> bool" where
  "public_wf p \<longleftrightarrow> length (cp_per_sub_tree_root p) = 32 \<and> length (cp_bundle_root_blake3 p) = 32
     \<and> length (cp_nullifier p) = 32 \<and> length (cp_recipient_starstream_addr p) = 32"

definition witness_wf :: "claim_witness \<Rightarrow> bool" where
  "witness_wf w \<longleftrightarrow> length (cw_leaf_payload w) < 2 ^ 63 \<and> length (cw_signing_key_proof w) < 2 ^ 63
     \<and> length (cw_merkle_path w) * 32 < 2 ^ 63 \<and> list_all hash_wf (cw_merkle_path w)"

fun claim_wf :: "claim_tx \<Rightarrow> bool" where
  "claim_wf (ClaimTxUtxo c) \<longleftrightarrow>
     public_wf (cu_public c) \<and> witness_wf (cu_witness c) \<and> length (proof_raw (cu_proof c)) < 2 ^ 63"
| "claim_wf (ClaimTxCollection c) \<longleftrightarrow>
     list_all public_wf (cc_public c) \<and> list_all witness_wf (cc_witness c)
     \<and> length (cc_public c) * 144 < 2 ^ 63 \<and> length (cc_witness c) * 72 < 2 ^ 63
     \<and> length (proof_raw (cc_proof c)) < 2 ^ 63"

lemma parse_public_inputs:
  "cbor_laws M \<Longrightarrow> public_wf p \<Longrightarrow> decode_public_inputs M (encode_public_inputs M p @ r) = Inr (p, r)"
  by (simp add: decode_public_inputs_def encode_public_inputs_def parse_rules public_wf_def)

lemma parse_witness:
  assumes "cbor_laws M" "witness_wf w"
  shows "decode_witness M (encode_witness M w @ r) = Inr (w, r)"
proof -
  let ?p = "cw_merkle_path w"
  have "unat (as_u64 (length ?p)) = length ?p"
    using assms(2) by (intro unat_as_u64) (simp add: witness_wf_def)
  moreover have "decode_many (length ?p) (read_hash M fld) (concat (map (enc_bytes M) ?p) @ q) = Inr (?p, q)" for fld q
    using assms by (intro parse_many) (simp add: parse_hash witness_wf_def list_all_iff)
  ultimately show ?thesis
    using assms by (simp add: decode_witness_def encode_witness_def parse_rules witness_wf_def)
qed

lemma parse_utxo:
  "cbor_laws M \<Longrightarrow> claim_wf (ClaimTxUtxo c) \<Longrightarrow> decode_utxo M (encode_utxo M c @ r) = Inr (c, r)"
  by (cases "cu_proof c")
    (simp add: decode_utxo_def encode_utxo_def parse_rules parse_public_inputs parse_witness)

lemma parse_collection:
  assumes "cbor_laws M" "claim_wf (ClaimTxCollection c)" "length (cc_public c) = length (cc_witness c)"
  shows "decode_collection M (encode_collection M c @ r) = Inr (c, r)"
proof -
  have u: "unat (as_u64 (length (cc_public c))) = length (cc_public c)"
    "unat (as_u64 (length (cc_witness c))) = length (cc_witness c)"
    using assms(2) by (auto intro!: unat_as_u64)
  have "decode_many (length (cc_public c)) (decode_public_inputs M)
      (concat (map (encode_public_inputs M) (cc_public c)) @ q) = Inr (cc_public c, q)" for q
    using assms by (intro parse_many) (simp add: parse_public_inputs list_all_iff)
  moreover have "decode_many (length (cc_witness c)) (decode_witness M)
      (concat (map (encode_witness M) (cc_witness c)) @ q) = Inr (cc_witness c, q)" for q
    using assms by (intro parse_many) (simp add: parse_witness list_all_iff)
  ultimately show ?thesis
    using assms u
    by (cases "cc_proof c") (simp add: decode_collection_def encode_collection_def parse_rules)
qed

lemma parse_payload:
  assumes "cbor_laws M" "claim_wf tx" "validate_claim tx = Inr ()"
  shows "decode_payload M (encode_payload M tx) = Inr tx"
proof (cases tx)
  case (ClaimTxUtxo c)
  then show ?thesis
    using assms parse_utxo [of M c "[]"]
    by (simp add: decode_payload_def encode_payload_def decode_claim_tx_def parse_rules expect_end_Nil)
next
  case (ClaimTxCollection c)
  then show ?thesis
    using assms parse_collection [of M c "[]"]
    by (simp add: decode_payload_def encode_payload_def decode_claim_tx_def parse_rules expect_end_Nil
        wire_const_defs split: if_splits)
qed

lemma from_to_cbor:
  assumes "cbor_laws M" "digest32 H" "claim_wf tx" "length (encode_payload M tx) < 2 ^ 63"
    "to_cbor H M tx = Inr bs"
  shows "from_cbor H M bs = Inr tx"
proof -
  from assms(5) have v: "validate_claim tx = Inr ()"
    and bs: "bs = enc_array M 3 @ enc_u64 M CLAIM_TX_WIRE_VERSION @ enc_bytes M (encode_payload M tx)
      @ enc_bytes M (H (encode_payload M tx))"
    by (auto simp: to_cbor_def Let_def)
  have "read_hash M fld (enc_bytes M (H x)) = Inr (H x, [])" for x fld
    using parse_hash [OF assms(1), of "H x" fld "[]"] assms(2) by simp
  then have "decode_envelope M bs = Inr ((encode_payload M tx, H (encode_payload M tx)), [])"
    using assms(1,4) by (simp add: decode_envelope_def bs parse_rules expect_end_Nil)
  then show ?thesis
    using parse_payload [OF assms(1,3) v] by (simp add: from_cbor_def)
qed

text \<open>What an accepted envelope carries.\<close>

lemma from_cbor_payload:
  assumes "from_cbor H M bs = Inr tx"
  shows "\<exists>r. decode_envelope M bs = Inr ((encode_payload M tx, H (encode_payload M tx)), r)
    \<and> decode_payload M (encode_payload M tx) = Inr tx"
  using assms by (auto simp: from_cbor_def split: prod.splits if_splits)

lemma read_hash_Inr: "read_hash M fld bs = Inr (h, r) \<Longrightarrow> length h = 32"
  by (auto simp: read_hash_def dbind_Inr dreturn_def dfail_def CHECKSUM_LEN_def split: if_splits)

lemma decode_public_inputs_wf: "decode_public_inputs M bs = Inr (p, r) \<Longrightarrow> public_wf p"
  by (auto simp: decode_public_inputs_def dbind_Inr dreturn_def public_wf_def dest!: read_hash_Inr)

lemma decode_witness_hashes: "decode_witness M bs = Inr (w, r) \<Longrightarrow> list_all hash_wf (cw_merkle_path w)"
  using decode_many_all [of "read_hash M ''witness.merkle_path.sibling''" hash_wf, OF read_hash_Inr]
  by (auto simp: decode_witness_def dbind_Inr dreturn_def)

text \<open>What the decoder guarantees of a claim: hash lengths and the arity of a collection.\<close>

fun claim_hashes_wf :: "claim_tx \<Rightarrow> bool" where
  "claim_hashes_wf (ClaimTxUtxo c) \<longleftrightarrow> public_wf (cu_public c) \<and> list_all hash_wf (cw_merkle_path (cu_witness c))"
| "claim_hashes_wf (ClaimTxCollection c) \<longleftrightarrow> list_all public_wf (cc_public c)
     \<and> list_all (\<lambda>w. list_all hash_wf (cw_merkle_path w)) (cc_witness c)
     \<and> length (cc_public c) = length (cc_witness c)"

lemma decode_utxo_wf: "decode_utxo M bs = Inr (c, r) \<Longrightarrow> claim_hashes_wf (ClaimTxUtxo c)"
  by (auto simp: decode_utxo_def dbind_Inr dreturn_def dest: decode_public_inputs_wf decode_witness_hashes)

lemma decode_collection_wf: "decode_collection M bs = Inr (c, r) \<Longrightarrow> claim_hashes_wf (ClaimTxCollection c)"
  using decode_many_all [of "decode_public_inputs M" public_wf, OF decode_public_inputs_wf]
    decode_many_all [of "decode_witness M" "\<lambda>w. list_all hash_wf (cw_merkle_path w)", OF decode_witness_hashes]
  by (fastforce simp: decode_collection_def dbind_Inr dreturn_def dfail_def split: if_splits)

lemma decode_payload_wf: "decode_payload M bs = Inr tx \<Longrightarrow> claim_hashes_wf tx"
  by (auto simp: decode_payload_def decode_claim_tx_def dbind_Inr dreturn_def dfail_def
      split: if_splits dest: decode_utxo_wf decode_collection_wf)

lemma claim_hashes_wf_validate: "claim_hashes_wf tx \<Longrightarrow> validate_claim tx = Inr ()"
  by (cases tx) auto

section \<open>A CBOR library that satisfies the laws\<close>

text \<open>Item heads as RFC 8949 defines them: a major type and an argument of the shortest width.\<close>

definition cbor_head :: "nat \<Rightarrow> u64 \<Rightarrow> bytes" where
  "cbor_head maj v =
     (let n = unat v
      in if n < 24 then [of_nat (32 * maj + n)]
         else if n < 2 ^ 8 then of_nat (32 * maj + 24) # be_bytes 1 n
         else if n < 2 ^ 16 then of_nat (32 * maj + 25) # be_bytes 2 n
         else if n < 2 ^ 32 then of_nat (32 * maj + 26) # be_bytes 4 n
         else of_nat (32 * maj + 27) # be_bytes 8 n)"

definition cbor_arg :: "nat \<Rightarrow> nat \<Rightarrow> bytes \<Rightarrow> string + (nat \<times> u64 option) \<times> bytes" where
  "cbor_arg maj k r =
     (if length r < k then Inl ''end of input''
      else Inr ((maj, Some (of_nat (be_nat (take k r)))), drop k r))"

fun cbor_read_head :: "bytes \<Rightarrow> string + (nat \<times> u64 option) \<times> bytes" where
  "cbor_read_head [] = Inl ''end of input''"
| "cbor_read_head (b # r) =
     (let maj = unat b div 32; info = unat b mod 32
      in if info < 24 then Inr ((maj, Some (of_nat info)), r)
         else if info = 24 then cbor_arg maj 1 r
         else if info = 25 then cbor_arg maj 2 r
         else if info = 26 then cbor_arg maj 4 r
         else if info = 27 then cbor_arg maj 8 r
         else if info = 31 then Inr ((maj, None), r)
         else Inl ''reserved'')"

definition cbor_read_arg :: "nat \<Rightarrow> bytes \<Rightarrow> string + u64 option \<times> bytes" where
  "cbor_read_arg maj bs =
     res_bind (cbor_read_head bs) (\<lambda>((m, v), r). if m = maj then Inr (v, r) else Inl ''unexpected type'')"

definition cbor_read_uint :: "bytes \<Rightarrow> string + u64 \<times> bytes" where
  "cbor_read_uint bs =
     res_bind (cbor_read_arg 0 bs) (\<lambda>(v, r). res_bind (ok_or v ''indefinite'') (\<lambda>n. Inr (n, r)))"

definition rfc8949 :: cbor_lib where
  "rfc8949 = \<lparr>enc_array = cbor_head 4, enc_u64 = cbor_head 0, enc_u8 = (\<lambda>v. cbor_head 0 (ucast v)),
     enc_bytes = (\<lambda>b. cbor_head 2 (as_u64 (length b)) @ b),
     dec_array = cbor_read_arg 4, dec_u64 = cbor_read_uint,
     dec_u8 = (\<lambda>bs. res_bind (cbor_read_uint bs)
       (\<lambda>(n, r). if unat n < 256 then Inr (ucast n, r) else Inl ''overflow'')),
     dec_bytes = (\<lambda>bs. res_bind (cbor_read_arg 2 bs) (\<lambda>(v, r). res_bind (ok_or v ''indefinite'')
       (\<lambda>n. if length r < unat n then Inl ''end of input'' else Inr (take (unat n) r, drop (unat n) r))))\<rparr>"

lemma unat_head_byte: "maj < 8 \<Longrightarrow> i < 32 \<Longrightarrow> unat (of_nat (32 * maj + i) :: u8) = 32 * maj + i"
  by (simp only: unat_of_nat) (simp add: take_bit_eq_mod)

lemma cbor_arg_be_bytes:
  "unat v < 256 ^ k \<Longrightarrow> cbor_arg maj k (be_bytes k (unat v) @ r) = Inr ((maj, Some v), r)"
  by (simp add: cbor_arg_def be_nat_be_bytes)

lemma cbor_read_cbor_head:
  assumes "maj < 8"
  shows "cbor_read_head (cbor_head maj v @ r) = Inr ((maj, Some v), r)"
proof -
  have u: "unat v < 2 ^ 64" using unsigned_less [of v, where ?'a = nat] by simp
  have b: "unat (of_nat (32 * maj + i) :: u8) div 32 = maj" "unat (of_nat (32 * maj + i) :: u8) mod 32 = i"
    if "i < 32" for i
    using that by (simp_all only: unat_head_byte [OF assms that]) simp_all
  note args = cbor_arg_be_bytes [of v 1] cbor_arg_be_bytes [of v 2] cbor_arg_be_bytes [of v 4] cbor_arg_be_bytes [of v 8]
  consider "unat v < 24" | "24 \<le> unat v" "unat v < 2 ^ 8" | "2 ^ 8 \<le> unat v" "unat v < 2 ^ 16"
    | "2 ^ 16 \<le> unat v" "unat v < 2 ^ 32" | "2 ^ 32 \<le> unat v"
    by linarith
  then show ?thesis
    using u b args by cases (simp_all add: cbor_head_def Let_def del: of_nat_add of_nat_mult be_bytes_numeral One_nat_def)
qed

lemma cbor_laws_rfc8949: "cbor_laws rfc8949"
proof -
  have a: "cbor_read_arg maj (cbor_head maj v @ r) = Inr (Some v, r)" if "maj < 8" for maj v r
    using cbor_read_cbor_head [OF that, of v r] by (simp add: cbor_read_arg_def)
  then have "cbor_read_uint (cbor_head 0 v @ r) = Inr (v, r)" for v r
    by (simp add: cbor_read_uint_def)
  moreover have "unat (ucast k :: u64) < 256" for k :: u8
    using unsigned_less [of k, where ?'a = nat] by simp
  moreover have "(ucast (ucast k :: u64) :: u8) = k" for k
    by (simp add: ucast_up_ucast_id is_up)
  moreover have "unat (as_u64 (length b)) = length b" if "length b < 2 ^ 64" for b :: bytes
    using that by (rule unat_as_u64)
  ultimately show ?thesis
    using a by (simp add: cbor_laws_def rfc8949_def)
qed

section \<open>Properties\<close>

text \<open>
  C16. A claim survives the wire: for every claim whose hashes have 32 bytes and whose vectors
  fit in memory, the bytes that \<open>to_cbor\<close> returns decode to the same claim with \<open>from_cbor\<close>,
  through the envelope, the checksum, the payload and the canonicality check.
\<close>

theorem claim_cbor_round_trip:
  assumes "cbor_laws M" "digest32 H" "claim_wf tx" "length (encode_payload M tx) < 2 ^ 63"
    and "to_cbor H M tx = Inr bs"
  shows "from_cbor H M bs = Inr tx"
  by (rule from_to_cbor [OF assms])

definition example_public :: claim_public_inputs where
  "example_public = \<lparr>cp_sub_tree_id = 1, cp_leaf_index = 300, cp_tree_depth = 1,
     cp_per_sub_tree_root = replicate 32 5, cp_bundle_root_blake3 = replicate 32 6,
     cp_nullifier = replicate 32 7, cp_recipient_starstream_addr = replicate 32 8\<rparr>"

definition example_witness :: claim_witness where
  "example_witness = \<lparr>cw_leaf_payload = [1, 2, 3], cw_merkle_path = [replicate 32 9], cw_signing_key_proof = []\<rparr>"

definition example_collection :: claim_tx where
  "example_collection = ClaimTxCollection
     \<lparr>cc_public = [example_public], cc_witness = [example_witness], cc_proof = ProofBytes [42]\<rparr>"

lemmas example_claim_defs = example_collection_def example_public_def example_witness_def

lemma example_collection_wf: "claim_wf example_collection" "validate_claim example_collection = Inr ()"
  by (simp_all add: example_claim_defs public_wf_def witness_wf_def)

lemma example_collection_size: "length (encode_payload rfc8949 example_collection) < 2 ^ 63"
  by (simp add: example_claim_defs encode_payload_def encode_collection_def encode_public_inputs_def
      encode_witness_def rfc8949_def cbor_head_def Let_def as_u64_def VARIANT_COLLECTION_def)

theorem claim_cbor_round_trip_witness:
  "\<exists>bs. to_cbor sum_digest rfc8949 example_collection = Inr bs
    \<and> from_cbor sum_digest rfc8949 bs = Inr example_collection"
proof -
  obtain bs where "to_cbor sum_digest rfc8949 example_collection = Inr bs"
    by (simp add: to_cbor_def example_collection_wf Let_def)
  with claim_cbor_round_trip [OF cbor_laws_rfc8949 digest32_sum_digest example_collection_wf(1)
      example_collection_size] show ?thesis by blast
qed

text \<open>
  C8. \<open>from_cbor\<close> returns a claim only from an envelope that carries its canonical payload and
  the digest of that payload. Every hash of the claim has 32 bytes and a collection has as many
  witnesses as public inputs, so \<open>to_cbor\<close> accepts the claim again.
\<close>

theorem from_cbor_accepts_canonical:
  assumes "from_cbor H M bs = Inr tx"
  shows "\<exists>rest. decode_envelope M bs = Inr ((encode_payload M tx, blake3_256 H (encode_payload M tx)), rest)
    \<and> claim_hashes_wf tx \<and> (\<exists>bs'. to_cbor H M tx = Inr bs')"
proof -
  from from_cbor_payload [OF assms] obtain r where
    r: "decode_envelope M bs = Inr ((encode_payload M tx, H (encode_payload M tx)), r)"
      "decode_payload M (encode_payload M tx) = Inr tx"
    by blast
  from decode_payload_wf [OF r(2)] claim_hashes_wf_validate r(1) show ?thesis
    by (simp add: to_cbor_def Let_def)
qed

theorem from_cbor_accepts_canonical_witness:
  "\<exists>bs. from_cbor sum_digest rfc8949 bs = Inr example_collection \<and> claim_hashes_wf example_collection"
proof -
  obtain bs where "to_cbor sum_digest rfc8949 example_collection = Inr bs"
    by (simp add: to_cbor_def example_collection_wf Let_def)
  with from_to_cbor [OF cbor_laws_rfc8949 digest32_sum_digest example_collection_wf(1) example_collection_size]
  have "from_cbor sum_digest rfc8949 bs = Inr example_collection" by blast
  with from_cbor_accepts_canonical [OF this] show ?thesis by blast
qed

text \<open>
  A short input makes \<open>from_cbor\<close> panic: the decoder passes the announced length of the
  public inputs to \<open>Vec::with_capacity\<close> before it reads an element, so a payload of four item
  heads that announces 2^63 public inputs overflows the capacity.
\<close>

theorem from_cbor_capacity_panic:
  assumes "cbor_laws M" "digest32 H"
    and "payload = enc_array M 2 @ enc_u64 M VARIANT_COLLECTION @ enc_array M 3 @ enc_array M (2 ^ 63)"
    and "length payload < 2 ^ 63"
  shows "from_cbor H M (enc_array M 3 @ enc_u64 M CLAIM_TX_WIRE_VERSION @ enc_bytes M payload
    @ enc_bytes M (blake3_256 H payload)) = Inl DecPanic"
proof -
  have "read_hash M fld (enc_bytes M (H payload)) = Inr (H payload, [])" for fld
    using parse_hash [OF assms(1), of "H payload" fld "[]"] assms(2) by simp
  then have e: "decode_envelope M (enc_array M 3 @ enc_u64 M CLAIM_TX_WIRE_VERSION @ enc_bytes M payload
    @ enc_bytes M (H payload)) = Inr ((payload, H payload), [])"
    using assms(1,4) by (simp add: decode_envelope_def parse_rules expect_end_Nil)
  have l: "array_len M fld (enc_array M n) = Inr (n, [])" for fld n
    using parse_items(4) [OF assms(1), of fld n "[]"] by simp
  have "decode_collection M (enc_array M 3 @ enc_array M (2 ^ 63)) = Inl DecPanic"
    using assms(1) l [of _ "2 ^ 63"] by (simp add: decode_collection_def parse_rules with_capacity_def)
  then have "decode_payload M payload = Inl DecPanic"
    using assms(1) by (simp add: assms(3) decode_payload_def decode_claim_tx_def parse_rules wire_const_defs)
  with e show ?thesis by (simp add: from_cbor_def)
qed

theorem from_cbor_capacity_panic_witness:
  "\<exists>bs. length bs < 64 \<and> from_cbor sum_digest rfc8949 bs = Inl DecPanic"
proof -
  let ?payload = "enc_array rfc8949 2 @ enc_u64 rfc8949 VARIANT_COLLECTION @ enc_array rfc8949 3
    @ enc_array rfc8949 (2 ^ 63)"
  have "length ?payload < 32"
    by (simp add: rfc8949_def cbor_head_def Let_def VARIANT_COLLECTION_def)
  then show ?thesis
    using from_cbor_capacity_panic [OF cbor_laws_rfc8949 digest32_sum_digest refl]
    by (intro exI [of _ "enc_array rfc8949 3 @ enc_u64 rfc8949 CLAIM_TX_WIRE_VERSION
      @ enc_bytes rfc8949 ?payload @ enc_bytes rfc8949 (blake3_256 sum_digest ?payload)"])
      (simp add: rfc8949_def cbor_head_def Let_def as_u64_def CLAIM_TX_WIRE_VERSION_def VARIANT_COLLECTION_def)
qed

end
