(* ===== verification/Claim_Prover.thy ===== *)
theory Claim_Prover
  imports Inclusion_Witness Claim_Wire Leaf_Encoding
begin

text \<open>
  The checks of \<open>omega-claim-prover/src/lib.rs\<close> before the proof system runs: the published
  commitment, the membership witnesses and their validation against it, and the public values
  that bind a proof to the commitment and to every public input. The lemmas relate the path
  walk to the trees of \<open>Merkle_Tree\<close>: a validated witness carries a committed payload.
\<close>

section \<open>Constants\<close>

definition MAX_V01_LEAF_PREIMAGE_LEN :: nat where "MAX_V01_LEAF_PREIMAGE_LEN = 64"

definition MAX_V01_LEAF_PAYLOAD_LEN :: nat where
  "MAX_V01_LEAF_PAYLOAD_LEN = MAX_V01_LEAF_PREIMAGE_LEN - length DOMAIN_LEAF - 1 - 8 - 8"

definition PROOF_ENVELOPE_VERSION :: u8 where "PROOF_ENVELOPE_VERSION = 2"
definition SUB_TREE_COUNT :: nat where "SUB_TREE_COUNT = 7"
definition HASH_LEN :: nat where "HASH_LEN = 32"
definition LEAF_INDEX_LEN :: nat where "LEAF_INDEX_LEN = 8"
definition PUBLIC_SUB_TREE_ID_OFFSET :: nat where "PUBLIC_SUB_TREE_ID_OFFSET = 0"
definition PUBLIC_LEAF_INDEX_OFFSET :: nat where "PUBLIC_LEAF_INDEX_OFFSET = PUBLIC_SUB_TREE_ID_OFFSET + 1"
definition PUBLIC_TREE_DEPTH_OFFSET :: nat where "PUBLIC_TREE_DEPTH_OFFSET = PUBLIC_LEAF_INDEX_OFFSET + LEAF_INDEX_LEN"
definition PUBLIC_ROOT_OFFSET :: nat where "PUBLIC_ROOT_OFFSET = PUBLIC_TREE_DEPTH_OFFSET + 1"
definition PROOF_BINDING_WORD_OFFSET :: nat where "PROOF_BINDING_WORD_OFFSET = PUBLIC_ROOT_OFFSET + HASH_LEN"
definition PROOF_BINDING_WORDS :: nat where "PROOF_BINDING_WORDS = 32"
definition PROOF_PUBLIC_VALUE_COUNT :: nat where "PROOF_PUBLIC_VALUE_COUNT = PROOF_BINDING_WORD_OFFSET + PROOF_BINDING_WORDS"
definition DOMAIN_PROOF_BINDING :: bytes where "DOMAIN_PROOF_BINDING = ascii ''omega:proof:v2:binding''"

lemmas offset_defs = PUBLIC_SUB_TREE_ID_OFFSET_def PUBLIC_LEAF_INDEX_OFFSET_def PUBLIC_TREE_DEPTH_OFFSET_def
  PUBLIC_ROOT_OFFSET_def PROOF_BINDING_WORD_OFFSET_def PROOF_BINDING_WORDS_def PROOF_PUBLIC_VALUE_COUNT_def
  HASH_LEN_def LEAF_INDEX_LEN_def SUB_TREE_COUNT_def

section \<open>Commitment, witnesses, errors\<close>

record omega_commitment =
  oc_bundle_root_blake3 :: hash
  oc_sub_tree_roots_blake3 :: "hash list"
  oc_item_counts :: "u64 list"
  oc_leaf_counts :: "u64 list"
  oc_tree_depths :: "u32 list"

text \<open>The arrays have \<open>SUB_TREE_COUNT\<close> entries and hashes 32 bytes.\<close>

definition commitment_wf :: "omega_commitment \<Rightarrow> bool" where
  "commitment_wf c \<longleftrightarrow> length (oc_bundle_root_blake3 c) = 32
     \<and> length (oc_sub_tree_roots_blake3 c) = 7 \<and> list_all hash_wf (oc_sub_tree_roots_blake3 c)
     \<and> length (oc_item_counts c) = 7 \<and> length (oc_leaf_counts c) = 7 \<and> length (oc_tree_depths c) = 7"

record membership_witness =
  mw_public :: claim_public_inputs
  mw_leaf_payload :: bytes
  mw_merkle_path :: "hash list"

definition from_inclusion :: "claim_public_inputs \<Rightarrow> bytes \<Rightarrow> inclusion_witness \<Rightarrow> membership_witness" where
  "from_inclusion public leaf_payload inclusion =
     \<lparr>mw_public = public, mw_leaf_payload = leaf_payload, mw_merkle_path = iw_siblings inclusion\<rparr>"

datatype prover_error =
  ProverUnknownSubTree u8
| LeafTooLargeForV01 nat nat nat
| LeafIndexOutOfRange nat u64 u64
| PathDepthMismatch nat nat nat
| PathMismatch nat
| PublicBundleRootMismatch nat
| PublicSubTreeRootMismatch nat
| PublicTreeDepthMismatch nat
| TreeDepthTooLarge nat u32
| CommitmentMismatch hash hash
| ProverSerialize string

record prover_config =
  rng_seed :: u64

definition prover_config_default :: prover_config where
  "prover_config_default = \<lparr>rng_seed = 1\<rparr>"

record proof_envelope =
  pe_version :: u8
  pe_config :: prover_config
  pe_commitment :: omega_commitment
  pe_public_inputs :: "claim_public_inputs list"
  pe_public_values :: "u32 list list"
  pe_stark_proof :: bytes

record checked_witness =
  ck_public :: claim_public_inputs
  ck_leaf_payload :: bytes
  ck_merkle_path :: "hash list"
  ck_leaf_hash :: hash

section \<open>Validation\<close>

definition bundle_root :: "digest \<Rightarrow> hash list \<Rightarrow> hash" where
  "bundle_root H sub_tree_roots = blake3_256 H (concat sub_tree_roots)"

definition sub_tree_index :: "u8 \<Rightarrow> prover_error + nat" where
  "sub_tree_index sub_tree_id =
     (if sub_tree_id = 0 then Inl (ProverUnknownSubTree sub_tree_id)
      else (let index = unat (sub_tree_id - 1)
            in if index \<ge> SUB_TREE_COUNT then Inl (ProverUnknownSubTree sub_tree_id) else Inr index))"

definition validate_bundle_root :: "digest \<Rightarrow> omega_commitment \<Rightarrow> prover_error + unit" where
  "validate_bundle_root H c =
     (let recomputed = bundle_root H (oc_sub_tree_roots_blake3 c)
      in if recomputed \<noteq> oc_bundle_root_blake3 c
         then Inl (CommitmentMismatch (oc_bundle_root_blake3 c) recomputed) else Inr ())"

definition leaf_preimage_len :: "nat \<Rightarrow> nat" where
  "leaf_preimage_len payload_len = length DOMAIN_LEAF + 1 + 8 + 8 + payload_len"

fun walk_v1_path :: "digest \<Rightarrow> hash \<Rightarrow> u64 \<Rightarrow> hash list \<Rightarrow> hash" where
  "walk_v1_path H current idx [] = current"
| "walk_v1_path H current idx (sibling # rest) =
     walk_v1_path H
       (if idx AND 1 = 0 then node_hash_v2 H current sibling else node_hash_v2 H sibling current)
       (idx div 2) rest"

definition validate_witness ::
  "digest \<Rightarrow> omega_commitment \<Rightarrow> nat \<Rightarrow> membership_witness \<Rightarrow> prover_error + checked_witness" where
  "validate_witness H cm witness_index w =
     (let public = mw_public w; preimage_len = leaf_preimage_len (length (mw_leaf_payload w))
      in if preimage_len > MAX_V01_LEAF_PREIMAGE_LEN
         then Inl (LeafTooLargeForV01 preimage_len MAX_V01_LEAF_PREIMAGE_LEN witness_index)
         else if cp_bundle_root_blake3 public \<noteq> oc_bundle_root_blake3 cm
         then Inl (PublicBundleRootMismatch witness_index)
         else res_bind (sub_tree_index (cp_sub_tree_id public)) (\<lambda>sub_tree_idx.
           let item_count = oc_item_counts cm ! sub_tree_idx;
               commitment_depth = oc_tree_depths cm ! sub_tree_idx;
               expected_depth = unat commitment_depth;
               committed_root = oc_sub_tree_roots_blake3 cm ! sub_tree_idx
           in if cp_leaf_index public \<ge> item_count
              then Inl (LeafIndexOutOfRange witness_index (cp_leaf_index public) item_count)
              else if commitment_depth > 255 then Inl (TreeDepthTooLarge witness_index commitment_depth)
              else if cp_tree_depth public \<noteq> ucast commitment_depth
              then Inl (PublicTreeDepthMismatch witness_index)
              else if cp_per_sub_tree_root public \<noteq> committed_root
              then Inl (PublicSubTreeRootMismatch witness_index)
              else if length (mw_merkle_path w) \<noteq> expected_depth
              then Inl (PathDepthMismatch witness_index expected_depth (length (mw_merkle_path w)))
              else (let leaf = leaf_hash_v2 H (cp_sub_tree_id public) (cp_leaf_index public) (mw_leaf_payload w);
                        rt = walk_v1_path H leaf (cp_leaf_index public) (mw_merkle_path w)
                    in if rt \<noteq> committed_root then Inl (PathMismatch witness_index)
                       else Inr \<lparr>ck_public = public, ck_leaf_payload = mw_leaf_payload w,
                                 ck_merkle_path = mw_merkle_path w, ck_leaf_hash = leaf\<rparr>)))"

definition validate_witnesses ::
  "digest \<Rightarrow> omega_commitment \<Rightarrow> membership_witness list \<Rightarrow> prover_error + checked_witness list" where
  "validate_witnesses H cm ws = collect_results (\<lambda>(i, w). validate_witness H cm i w) (enumerate 0 ws)"

section \<open>Public values\<close>

definition public_input_bytes :: "claim_public_inputs \<Rightarrow> bytes" where
  "public_input_bytes p =
     [cp_sub_tree_id p] @ to_be_bytes (cp_leaf_index p) @ [cp_tree_depth p] @ cp_per_sub_tree_root p
       @ cp_bundle_root_blake3 p @ cp_nullifier p @ cp_recipient_starstream_addr p"

definition proof_binding_preimage :: "omega_commitment \<Rightarrow> claim_public_inputs list \<Rightarrow> bytes" where
  "proof_binding_preimage cm public_inputs =
     DOMAIN_PROOF_BINDING @ oc_bundle_root_blake3 cm @ concat (oc_sub_tree_roots_blake3 cm)
       @ concat (map to_be_bytes (oc_item_counts cm)) @ concat (map to_be_bytes (oc_leaf_counts cm))
       @ concat (map to_be_bytes (oc_tree_depths cm)) @ to_be_bytes (as_u64 (length public_inputs))
       @ concat (map public_input_bytes public_inputs)"

definition proof_binding_digest :: "digest \<Rightarrow> omega_commitment \<Rightarrow> claim_public_inputs list \<Rightarrow> hash" where
  "proof_binding_digest H cm public_inputs = blake3_256 H (proof_binding_preimage cm public_inputs)"

text \<open>\<open>words.iter_mut().zip(digest)\<close> over 32 zero words.\<close>

definition proof_binding_words :: "digest \<Rightarrow> omega_commitment \<Rightarrow> claim_public_inputs list \<Rightarrow> u32 list" where
  "proof_binding_words H cm public_inputs = map ucast (proof_binding_digest H cm public_inputs)"

definition public_value_row :: "u32 list \<Rightarrow> claim_public_inputs \<Rightarrow> u32 list" where
  "public_value_row binding_words p =
     [ucast (cp_sub_tree_id p)] @ map ucast (to_be_bytes (cp_leaf_index p)) @ [ucast (cp_tree_depth p)]
       @ map ucast (cp_per_sub_tree_root p) @ binding_words"

definition proof_public_values :: "digest \<Rightarrow> omega_commitment \<Rightarrow> claim_public_inputs list \<Rightarrow> u32 list list" where
  "proof_public_values H cm public_inputs =
     map (public_value_row (proof_binding_words H cm public_inputs)) public_inputs"

section \<open>Paths in version-1 trees\<close>

lemma word_even_unat: "(w :: u64) AND 1 = 0 \<longleftrightarrow> even (unat w)"
proof -
  have "unat (w AND 1) = unat w AND 1" by (simp add: unsigned_and_eq)
  then show ?thesis
    by (metis One_nat_def even_and_one(1) unat_eq_0)
qed

lemma unat_half: "unat ((w :: u64) div 2) = unat w div 2"
  by (simp add: unat_div_distrib)

lemma walk_v1_path_walk: "walk_v1_path H c idx sibs = walk (node_hash_v2 H) c (unat idx) sibs"
  by (induction H c idx sibs rule: walk_v1_path.induct)
    (simp_all add: word_even_unat even_and_one unat_half)

text \<open>The strings that a membership check hashes.\<close>

definition membership_preimages :: "digest \<Rightarrow> u8 \<Rightarrow> u64 \<Rightarrow> bytes \<Rightarrow> hash list \<Rightarrow> bytes set" where
  "membership_preimages H s idx payload path =
     insert (leaf_preimage s idx payload)
       (path_preimages node_preimage (node_hash_v2 H) (leaf_hash_v2 H s idx payload) (unat idx) path)"

text \<open>A leaf of the tree: a payload at its sorted position, or the padding leaf.\<close>

definition v1_member :: "bytes list \<Rightarrow> u64 \<Rightarrow> bytes \<Rightarrow> bool" where
  "v1_member ps idx payload \<longleftrightarrow> unat idx < length ps \<and> payload = sort ps ! unat idx"

definition v1_padding :: "bytes list \<Rightarrow> u64 \<Rightarrow> bytes \<Rightarrow> bool" where
  "v1_padding ps idx payload \<longleftrightarrow> length ps < 2 ^ v1_depth ps \<and> idx = EMPTY_INDEX_SENTINEL \<and> payload = []"

lemma v1_leaf_preimage_member:
  assumes "length ps < 2 ^ 64" "leaf_preimage s idx payload = v1_leaf_preimage s' ps i" "i < 2 ^ v1_depth ps"
  shows "s = s' \<and> (v1_member ps idx payload \<or> v1_padding ps idx payload)"
proof (cases "i < length ps")
  case True
  with assms show ?thesis
    by (auto simp: v1_leaf_preimage_def leaf_preimage_inject v1_member_def unat_as_u64)
next
  case False
  with assms show ?thesis
    by (auto simp: v1_leaf_preimage_def leaf_preimage_inject v1_padding_def)
qed

lemma v1_all_leaves_wf: "digest32 H \<Longrightarrow> x \<in> set (v1_all_leaves H s ps) \<Longrightarrow> length x = 32"
  using v1_all_leaves_hashed [of H s ps] by auto

lemma walk_v1_sound:
  assumes H: "digest32 H"
    and inj: "inj_on H (membership_preimages H s idx payload path \<union> v1_preimages H s' ps)"
    and len: "length ps < 2 ^ 64" "length path = v1_depth ps" "list_all hash_wf path"
    and walk: "walk_v1_path H (leaf_hash_v2 H s idx payload) idx path = v1_root H s' ps"
  shows "s = s' \<and> (v1_member ps idx payload \<or> v1_padding ps idx payload)"
proof -
  let ?leaf = "leaf_hash_v2 H s idx payload" and ?i = "unat idx mod 2 ^ v1_depth ps"
  have "inj_on H (path_preimages node_preimage (node_hash_v2 H) ?leaf (unat idx) path
      \<union> v1_node_preimages H (v1_depth ps) (v1_all_leaves H s' ps))"
    by (rule inj_on_subset [OF inj]) (auto simp: membership_preimages_def v1_preimages_def)
  moreover have "\<forall>x \<in> set (v1_all_leaves H s' ps) \<union> set path. length x = 32"
    using v1_all_leaves_wf [OF H] len(3) by (auto simp: list_all_iff)
  moreover have "length ?leaf = 32" using H by (simp add: leaf_hash_v2_def)
  ultimately have "?leaf = v1_all_leaves H s' ps ! ?i"
    using walk len(2) by (intro v1_node.path_sound [OF H]) (simp_all add: walk_v1_path_walk v1_root_def)
  then have "H (leaf_preimage s idx payload) = H (v1_leaf_preimage s' ps ?i)"
    by (simp add: nth_v1_all_leaves leaf_hash_v2_def)
  then have "leaf_preimage s idx payload = v1_leaf_preimage s' ps ?i"
    by (rule inj_onD [OF inj]) (auto simp: membership_preimages_def v1_preimages_def v1_leaf_preimage_in)
  then show ?thesis
    by (rule v1_leaf_preimage_member [OF len(1)]) simp
qed

section \<open>Validated witnesses\<close>

text \<open>The position of a sub-tree in the arrays of the commitment.\<close>

definition tree_slot :: "u8 \<Rightarrow> nat" where
  "tree_slot s = unat s - 1"

lemma sub_tree_index_Inr: "sub_tree_index s = Inr k \<longleftrightarrow> s \<noteq> 0 \<and> k = tree_slot s \<and> k < 7"
proof (cases "s = 0")
  case False
  then have "unat (s - 1) = unat s - 1"
    by (simp add: unat_minus_one)
  with False show ?thesis by (auto simp: sub_tree_index_def SUB_TREE_COUNT_def Let_def tree_slot_def)
qed (simp add: sub_tree_index_def)

lemma validate_witness_Inr:
  "validate_witness H cm i w = Inr c \<longleftrightarrow>
     (\<exists>k. sub_tree_index (cp_sub_tree_id (mw_public w)) = Inr k
        \<and> leaf_preimage_len (length (mw_leaf_payload w)) \<le> 64
        \<and> cp_bundle_root_blake3 (mw_public w) = oc_bundle_root_blake3 cm
        \<and> cp_leaf_index (mw_public w) < oc_item_counts cm ! k
        \<and> oc_tree_depths cm ! k \<le> 255 \<and> cp_tree_depth (mw_public w) = ucast (oc_tree_depths cm ! k)
        \<and> cp_per_sub_tree_root (mw_public w) = oc_sub_tree_roots_blake3 cm ! k
        \<and> length (mw_merkle_path w) = unat (oc_tree_depths cm ! k)
        \<and> walk_v1_path H (leaf_hash_v2 H (cp_sub_tree_id (mw_public w)) (cp_leaf_index (mw_public w)) (mw_leaf_payload w))
            (cp_leaf_index (mw_public w)) (mw_merkle_path w) = oc_sub_tree_roots_blake3 cm ! k
        \<and> c = \<lparr>ck_public = mw_public w, ck_leaf_payload = mw_leaf_payload w, ck_merkle_path = mw_merkle_path w,
             ck_leaf_hash = leaf_hash_v2 H (cp_sub_tree_id (mw_public w)) (cp_leaf_index (mw_public w)) (mw_leaf_payload w)\<rparr>)"
  unfolding validate_witness_def Let_def MAX_V01_LEAF_PREIMAGE_LEN_def guard_eq_Inr res_bind_eq_Inr not_less not_le
  by (simp only: not_not sum.inject) blast

text \<open>What a commitment says of one sub-tree: its root, item count and depth are those of the tree.\<close>

definition commits_to :: "digest \<Rightarrow> omega_commitment \<Rightarrow> u8 \<Rightarrow> bytes list \<Rightarrow> merkle_tree \<Rightarrow> bool" where
  "commits_to H cm s ps t \<longleftrightarrow>
     build_v1 H s ps = Some (Inr t) \<and> length ps < 2 ^ 64
     \<and> s \<noteq> 0 \<and> tree_slot s < 7
     \<and> root t = Some (oc_sub_tree_roots_blake3 cm ! tree_slot s)
     \<and> oc_item_counts cm ! tree_slot s = as_u64 (length ps)
     \<and> unat (oc_tree_depths cm ! tree_slot s) = depth t"

lemma commits_to_root:
  assumes "commits_to H cm s ps t"
  shows "oc_sub_tree_roots_blake3 cm ! tree_slot s = v1_root H s ps" "unat (oc_tree_depths cm ! tree_slot s) = v1_depth ps"
    "sub_tree_index s = Inr (tree_slot s)" "length ps < 2 ^ 64" "oc_item_counts cm ! tree_slot s = as_u64 (length ps)"
  using assms by (auto simp: commits_to_def build_v1_Inr v1_tree_simps sub_tree_index_Inr)

lemma member_of_index:
  assumes "v1_member ps idx payload \<or> v1_padding ps idx payload" "length ps < 2 ^ 64" "idx < as_u64 (length ps)"
  shows "v1_member ps idx payload"
proof -
  have "unat idx < length ps"
    using assms(2,3) by (simp add: word_less_nat_alt unat_as_u64)
  moreover have "idx \<noteq> EMPTY_INDEX_SENTINEL"
    using sentinel_not_index [OF assms(2) \<open>unat idx < length ps\<close>] by (simp add: as_u64_def)
  ultimately show ?thesis using assms(1) by (auto simp: v1_padding_def)
qed

lemma validated_member:
  assumes "digest32 H" "commits_to H cm (cp_sub_tree_id (mw_public w)) ps t" "list_all hash_wf (mw_merkle_path w)"
    and inj: "inj_on H (membership_preimages H (cp_sub_tree_id (mw_public w)) (cp_leaf_index (mw_public w))
      (mw_leaf_payload w) (mw_merkle_path w) \<union> v1_preimages H (cp_sub_tree_id (mw_public w)) ps)"
    and "validate_witness H cm i w = Inr c"
  shows "v1_member ps (cp_leaf_index (mw_public w)) (mw_leaf_payload w)"
proof -
  note c = commits_to_root [OF assms(2)]
  from assms(5) c(3) have v: "cp_leaf_index (mw_public w) < as_u64 (length ps)"
    "length (mw_merkle_path w) = v1_depth ps"
    "walk_v1_path H (leaf_hash_v2 H (cp_sub_tree_id (mw_public w)) (cp_leaf_index (mw_public w)) (mw_leaf_payload w))
       (cp_leaf_index (mw_public w)) (mw_merkle_path w) = v1_root H (cp_sub_tree_id (mw_public w)) ps"
    by (auto simp: validate_witness_Inr c)
  from walk_v1_sound [OF assms(1) inj c(4) v(2) assms(3) v(3)] c(4) v(1) show ?thesis
    by (blast intro: member_of_index)
qed

lemma honest_witness_validates:
  assumes "commits_to H cm s ps t" "depth t \<le> 255" "j < length ps" "j < 2 ^ 32" "length (sort ps ! j) \<le> 34"
    and "cp_sub_tree_id pub = s" "cp_leaf_index pub = as_u64 j" "cp_tree_depth pub = of_nat (depth t)"
      "cp_per_sub_tree_root pub = oc_sub_tree_roots_blake3 cm ! tree_slot s"
      "cp_bundle_root_blake3 pub = oc_bundle_root_blake3 cm"
  shows "\<exists>iw c. build_at_index t (of_nat j) = Some (Some iw)
    \<and> validate_witness H cm i (from_inclusion pub (sort ps ! j) iw) = Inr c"
proof -
  note c = commits_to_root [OF assms(1)]
  have t: "t = v1_tree H s ps" using assms(1) by (simp add: commits_to_def build_v1_Inr)
  have j: "j < 2 ^ v1_depth ps" using assms(3) length_le_v1_depth [of ps] by simp
  have uj: "unat (of_nat j :: u32) = j" "unat (as_u64 j) = j"
    using assms(3,4) c(4) by (simp_all only: unat_of_nat) (simp_all add: take_bit_eq_mod unat_as_u64)
  obtain sibs where sibs: "path_siblings (take (v1_depth ps) (layers t)) j = Some sibs" "length sibs = v1_depth ps"
    "walk (node_hash_v2 H) (v1_all_leaves H s ps ! j) j sibs = v1_root H s ps"
    using path_siblings_perfect [OF length_v1_all_leaves j, of "node_hash_v2 H" H s]
    by (auto simp: t v1_tree_def v1_root_def)
  let ?iw = "\<lparr>iw_leaf = v1_all_leaves H s ps ! j, iw_leaf_index = of_nat j, iw_siblings = sibs\<rparr>"
  have b: "build_at_index t (of_nat j) = Some (Some ?iw)"
    using sibs(1) j by (simp add: build_at_index_def get_at_def uj t v1_tree_simps)
  have "v1_all_leaves H s ps ! j = leaf_hash_v2 H s (as_u64 j) (sort ps ! j)"
    using j assms(3) by (simp add: v1_leaf_of leaf_hash_v2_def)
  moreover have "as_u64 j < as_u64 (length ps)"
    using assms(3) c(4) by (simp add: word_less_nat_alt uj unat_as_u64)
  moreover have d: "depth t = v1_depth ps" by (simp add: t v1_tree_simps)
  moreover have "oc_tree_depths cm ! tree_slot s \<le> 255"
    using assms(2) d c(2) by (simp add: word_le_nat_alt)
  moreover have "ucast (oc_tree_depths cm ! tree_slot s) = (of_nat (depth t) :: u8)"
    by (simp add: d flip: c(2))
  ultimately have "\<exists>c. validate_witness H cm i (from_inclusion pub (sort ps ! j) ?iw) = Inr c"
    using assms(5-) sibs(2,3) c
    by (simp add: validate_witness_Inr from_inclusion_def walk_v1_path_walk uj leaf_preimage_len_def)
  with b show ?thesis by blast
qed

section \<open>What the binding digest binds\<close>

lemma public_input_bytes_length: "public_wf p \<Longrightarrow> length (public_input_bytes p) = 138"
  by (simp add: public_input_bytes_def public_wf_def)

lemma public_input_bytes_inject: "inj_on public_input_bytes {p. public_wf p}"
  by (rule inj_onI) (auto simp: public_input_bytes_def public_wf_def intro!: claim_public_inputs.equality)

lemma public_inputs_concat_inject:
  assumes "list_all public_wf ps" "list_all public_wf qs" "length ps = length qs"
    "concat (map public_input_bytes ps) = concat (map public_input_bytes qs)"
  shows "ps = qs"
proof -
  have "inj_on public_input_bytes (set ps \<union> set qs)"
    by (rule inj_on_subset [OF public_input_bytes_inject]) (use assms in \<open>auto simp: list_all_iff\<close>)
  with concat_map_fixed_inject [of ps qs public_input_bytes 138 "[]" "[]"] assms public_input_bytes_length
  show ?thesis by (auto simp: list_all_iff)
qed

lemma u64_list_concat_inject:
  assumes "length xs = length ys" "concat (map to_be_bytes (xs :: u64 list)) @ r = concat (map to_be_bytes ys) @ r'"
  shows "xs = ys \<and> r = r'"
  using assms by (intro concat_map_fixed_inject [where n = 8]) (auto simp: inj_on_def)

lemma u32_list_concat_inject:
  assumes "length xs = length ys" "concat (map to_be_bytes (xs :: u32 list)) @ r = concat (map to_be_bytes ys) @ r'"
  shows "xs = ys \<and> r = r'"
  using assms by (intro concat_map_fixed_inject [where n = 4]) (auto simp: inj_on_def)

lemma proof_binding_preimage_inject:
  assumes wf: "commitment_wf cm" "commitment_wf cm'" "list_all public_wf ps" "list_all public_wf qs"
    and len: "length ps < 2 ^ 64" "length qs < 2 ^ 64"
    and eq: "proof_binding_preimage cm ps = proof_binding_preimage cm' qs"
  shows "cm = cm' \<and> ps = qs"
proof -
  have b: "oc_bundle_root_blake3 cm = oc_bundle_root_blake3 cm'"
    and e1: "concat (oc_sub_tree_roots_blake3 cm) @ concat (map to_be_bytes (oc_item_counts cm))
      @ concat (map to_be_bytes (oc_leaf_counts cm)) @ concat (map to_be_bytes (oc_tree_depths cm))
      @ to_be_bytes (as_u64 (length ps)) @ concat (map public_input_bytes ps)
     = concat (oc_sub_tree_roots_blake3 cm') @ concat (map to_be_bytes (oc_item_counts cm'))
      @ concat (map to_be_bytes (oc_leaf_counts cm')) @ concat (map to_be_bytes (oc_tree_depths cm'))
      @ to_be_bytes (as_u64 (length qs)) @ concat (map public_input_bytes qs)"
    using eq wf(1,2) by (auto simp: proof_binding_preimage_def commitment_wf_def)
  from concat_fixed_inject [OF _ _ e1, of 32] wf(1,2)
  have r: "oc_sub_tree_roots_blake3 cm = oc_sub_tree_roots_blake3 cm'"
    and e2: "concat (map to_be_bytes (oc_item_counts cm))
      @ concat (map to_be_bytes (oc_leaf_counts cm)) @ concat (map to_be_bytes (oc_tree_depths cm))
      @ to_be_bytes (as_u64 (length ps)) @ concat (map public_input_bytes ps)
     = concat (map to_be_bytes (oc_item_counts cm'))
      @ concat (map to_be_bytes (oc_leaf_counts cm')) @ concat (map to_be_bytes (oc_tree_depths cm'))
      @ to_be_bytes (as_u64 (length qs)) @ concat (map public_input_bytes qs)"
    by (auto simp: commitment_wf_def list_all_iff)
  from u64_list_concat_inject [OF _ e2] wf(1,2) have i: "oc_item_counts cm = oc_item_counts cm'"
    and e3: "concat (map to_be_bytes (oc_leaf_counts cm)) @ concat (map to_be_bytes (oc_tree_depths cm))
      @ to_be_bytes (as_u64 (length ps)) @ concat (map public_input_bytes ps)
     = concat (map to_be_bytes (oc_leaf_counts cm')) @ concat (map to_be_bytes (oc_tree_depths cm'))
      @ to_be_bytes (as_u64 (length qs)) @ concat (map public_input_bytes qs)"
    by (auto simp: commitment_wf_def)
  from u64_list_concat_inject [OF _ e3] wf(1,2) have l: "oc_leaf_counts cm = oc_leaf_counts cm'"
    and e4: "concat (map to_be_bytes (oc_tree_depths cm)) @ to_be_bytes (as_u64 (length ps)) @ concat (map public_input_bytes ps)
     = concat (map to_be_bytes (oc_tree_depths cm')) @ to_be_bytes (as_u64 (length qs)) @ concat (map public_input_bytes qs)"
    by (auto simp: commitment_wf_def)
  from u32_list_concat_inject [OF _ e4] wf(1,2) have d: "oc_tree_depths cm = oc_tree_depths cm'"
    and e5: "as_u64 (length ps) = as_u64 (length qs)" "concat (map public_input_bytes ps) = concat (map public_input_bytes qs)"
    by (auto simp: commitment_wf_def)
  have "length ps = length qs" using e5(1) len by (simp add: as_u64_inject)
  with public_inputs_concat_inject [OF wf(3,4) _ e5(2)] b r i l d show ?thesis
    by (auto intro!: omega_commitment.equality)
qed

lemma ucast_map_inject: "map (ucast :: u8 \<Rightarrow> u32) xs = map ucast ys \<longleftrightarrow> xs = ys"
proof -
  have "inj (ucast :: u8 \<Rightarrow> u32)"
    by (rule injI) (simp add: word_unat_eq_iff)
  then show ?thesis by (simp add: inj_map_eq_map)
qed

section \<open>Properties\<close>

text \<open>
  The prover accepts only committed leaves: if the commitment publishes root, item count and
  depth of the tree over \<open>ps\<close>, the digest has no collision among the strings hashed, and
  \<open>validate_witness\<close> accepts a witness, then its payload is the payload of \<open>ps\<close> at its leaf
  index in sorted order. Padding leaves are excluded by the item-count check.
\<close>

theorem validated_witness_is_committed:
  assumes "digest32 H" "commits_to H cm (cp_sub_tree_id (mw_public w)) ps t" "list_all hash_wf (mw_merkle_path w)"
    and "inj_on H (membership_preimages H (cp_sub_tree_id (mw_public w)) (cp_leaf_index (mw_public w))
      (mw_leaf_payload w) (mw_merkle_path w) \<union> v1_preimages H (cp_sub_tree_id (mw_public w)) ps)"
    and "validate_witness H cm i w = Inr c"
  shows "unat (cp_leaf_index (mw_public w)) < length ps \<and> mw_leaf_payload w = sort ps ! unat (cp_leaf_index (mw_public w))"
  using validated_member [OF assms] by (simp add: v1_member_def)

text \<open>
  The prover accepts every committed leaf: for a tree of depth at most 255 and a payload of
  at most 34 bytes, the witness that \<open>build_at_index\<close> returns for the leaf, with public inputs
  that match the commitment, passes \<open>validate_witness\<close>.
\<close>

theorem prover_accepts_committed_leaf:
  assumes "commits_to H cm s ps t" "depth t \<le> 255" "j < length ps" "j < 2 ^ 32" "length (sort ps ! j) \<le> 34"
    and "cp_sub_tree_id pub = s" "cp_leaf_index pub = as_u64 j" "cp_tree_depth pub = of_nat (depth t)"
      "cp_per_sub_tree_root pub = oc_sub_tree_roots_blake3 cm ! tree_slot s"
      "cp_bundle_root_blake3 pub = oc_bundle_root_blake3 cm"
  shows "\<exists>iw c. build_at_index t (of_nat j) = Some (Some iw)
    \<and> validate_witness H cm i (from_inclusion pub (sort ps ! j) iw) = Inr c"
  by (rule honest_witness_validates [OF assms])

text \<open>A commitment to the two payloads of sub-tree 1.\<close>

definition example_commitment :: omega_commitment where
  "example_commitment =
     (let roots = v1_root sum_digest 1 [[1], [2]] # replicate 6 ZERO_HASH
      in \<lparr>oc_bundle_root_blake3 = bundle_root sum_digest roots, oc_sub_tree_roots_blake3 = roots,
          oc_item_counts = 2 # replicate 6 0, oc_leaf_counts = 2 # replicate 6 1, oc_tree_depths = 1 # replicate 6 0\<rparr>)"

definition example_claim_public :: claim_public_inputs where
  "example_claim_public = \<lparr>cp_sub_tree_id = 1, cp_leaf_index = 1, cp_tree_depth = 1,
     cp_per_sub_tree_root = v1_root sum_digest 1 [[1], [2]],
     cp_bundle_root_blake3 = oc_bundle_root_blake3 example_commitment,
     cp_nullifier = replicate 32 7, cp_recipient_starstream_addr = replicate 32 8\<rparr>"

definition example_membership :: membership_witness where
  "example_membership = \<lparr>mw_public = example_claim_public, mw_leaf_payload = [2],
     mw_merkle_path = [leaf_hash_v2 sum_digest 1 0 [1]]\<rparr>"

lemma example_commits_to: "commits_to sum_digest example_commitment 1 [[1], [2]] (v1_tree sum_digest 1 [[1], [2]])"
  by (simp add: commits_to_def build_v1_distinct v1_tree_simps example_commitment_def Let_def tree_slot_def
      v1_depth_def clog2_eval as_u64_def)

lemma example_v1_root:
  "v1_root sum_digest 1 [[1], [2]] = node_hash_v2 sum_digest (leaf_hash_v2 sum_digest 1 0 [1]) (leaf_hash_v2 sum_digest 1 1 [2])"
  by (simp add: v1_root_def v1_all_leaves_def v1_leaves_def v1_depth_def clog2_eval as_u64_def)

lemma example_membership_valid: "\<exists>c. validate_witness sum_digest example_commitment 0 example_membership = Inr c"
  by (simp add: validate_witness_Inr sub_tree_index_Inr tree_slot_def example_membership_def example_claim_public_def
      example_commitment_def Let_def leaf_preimage_len_def walk_v1_path_walk example_v1_root even_and_one)

lemma example_membership_inj:
  "inj_on sum_digest (membership_preimages sum_digest 1 1 [2] [leaf_hash_v2 sum_digest 1 0 [1]]
     \<union> v1_preimages sum_digest 1 [[1], [2]])"
proof -
  have "membership_preimages sum_digest 1 1 [2] [leaf_hash_v2 sum_digest 1 0 [1]] \<subseteq> v1_preimages sum_digest 1 [[1], [2]]"
    by (simp add: membership_preimages_def v1_preimages_def leaf_preimages_def v1_depth_def clog2_eval
        v1_all_leaves_def v1_leaves_def as_u64_def even_and_one)
  with example_preimages_inj show ?thesis
    by (auto intro: inj_on_subset)
qed

theorem validated_witness_is_committed_witness:
  "\<exists>c. validate_witness sum_digest example_commitment 0 example_membership = Inr c
    \<and> mw_leaf_payload example_membership = sort [[1], [2]] ! 1"
proof -
  obtain c where c: "validate_witness sum_digest example_commitment 0 example_membership = Inr c"
    using example_membership_valid by blast
  have "commits_to sum_digest example_commitment (cp_sub_tree_id (mw_public example_membership)) [[1], [2]]
      (v1_tree sum_digest 1 [[1], [2]])"
    using example_commits_to by (simp add: example_membership_def example_claim_public_def)
  moreover have "list_all hash_wf (mw_merkle_path example_membership)"
    by (simp add: example_membership_def leaf_hash_v2_def)
  moreover have "inj_on sum_digest (membership_preimages sum_digest (cp_sub_tree_id (mw_public example_membership))
      (cp_leaf_index (mw_public example_membership)) (mw_leaf_payload example_membership)
      (mw_merkle_path example_membership) \<union> v1_preimages sum_digest (cp_sub_tree_id (mw_public example_membership)) [[1], [2]])"
    using example_membership_inj by (simp add: example_membership_def example_claim_public_def)
  ultimately have "mw_leaf_payload example_membership = sort [[1], [2]] ! unat (cp_leaf_index (mw_public example_membership))"
    using validated_witness_is_committed [OF digest32_sum_digest _ _ _ c] by blast
  with c show ?thesis by (simp add: example_membership_def example_claim_public_def)
qed

theorem prover_accepts_committed_leaf_witness:
  "\<exists>iw c. build_at_index (v1_tree sum_digest 1 [[1], [2]]) (of_nat 1) = Some (Some iw)
    \<and> validate_witness sum_digest example_commitment 0 (from_inclusion example_claim_public (sort [[1], [2]] ! 1) iw) = Inr c"
  by (rule prover_accepts_committed_leaf [OF example_commits_to])
    (simp_all add: v1_tree_simps v1_depth_def clog2_eval example_claim_public_def example_commitment_def Let_def
      tree_slot_def as_u64_def)

text \<open>
  C17. The binding words bind a proof to one statement: for two commitments and two lists of
  public inputs on whose preimages the digest does not collide, the words agree exactly when the
  commitments and all public inputs agree, including nullifiers and recipients.
\<close>

theorem proof_binding_words_bind:
  assumes "inj_on H {proof_binding_preimage cm ps, proof_binding_preimage cm' qs}"
    and "commitment_wf cm" "commitment_wf cm'" "list_all public_wf ps" "list_all public_wf qs"
    and "length ps < 2 ^ 64" "length qs < 2 ^ 64"
  shows "proof_binding_words H cm ps = proof_binding_words H cm' qs \<longleftrightarrow> cm = cm' \<and> ps = qs"
proof
  assume "proof_binding_words H cm ps = proof_binding_words H cm' qs"
  then have "H (proof_binding_preimage cm ps) = H (proof_binding_preimage cm' qs)"
    by (simp add: proof_binding_words_def proof_binding_digest_def ucast_map_inject)
  then have "proof_binding_preimage cm ps = proof_binding_preimage cm' qs"
    by (rule inj_onD [OF assms(1)]) simp_all
  then show "cm = cm' \<and> ps = qs" by (rule proof_binding_preimage_inject [OF assms(2-7)])
qed simp

lemma concat_replicate_replicate: "concat (replicate n (replicate m x)) = replicate (n * m) x"
  by (induction n) (simp_all add: replicate_add)

theorem proof_binding_words_bind_witness:
  "proof_binding_words sum_digest example_commitment [example_claim_public]
    \<noteq> proof_binding_words sum_digest example_commitment []"
proof -
  have wf: "commitment_wf example_commitment" "list_all public_wf [example_claim_public]" "list_all public_wf []"
    by (simp_all add: commitment_wf_def example_commitment_def Let_def bundle_root_def example_v1_root ZERO_HASH_def
        public_wf_def example_claim_public_def node_hash_v2_def list_all_iff)
  let ?p = "proof_binding_preimage example_commitment [example_claim_public]"
    and ?q = "proof_binding_preimage example_commitment []"
  have "sum_list ?p \<noteq> sum_list ?q"
    by (simp add: proof_binding_preimage_def public_input_bytes_def example_claim_public_def example_commitment_def
        Let_def bundle_root_def example_v1_root node_hash_v2_def leaf_hash_v2_def preimage_eval ZERO_HASH_def
        concat_replicate_replicate)
  then have "inj_on sum_digest {?p, ?q}"
    by (auto simp: inj_on_def sum_digest_def)
  from proof_binding_words_bind [OF this wf(1,1) wf(2,3)] show ?thesis by simp
qed

end
