(* ===== verification/Claim_Verifier.thy ===== *)
theory Claim_Verifier
  imports Claim_Prover
begin

text \<open>
  The verifier of \<open>omega-claim-verifier/src/lib.rs\<close>. The proof system (Plonky3) and the
  \<open>postcard\<close> codec are the parameter \<open>V\<close>: decoding of envelope and proof, the degree bits of a
  proof, and \<open>verify_batch\<close> under the configuration that \<open>make_stark_config\<close> derives from the
  seed. The lemmas give the exact acceptance condition of \<open>verify\<close>.
\<close>

section \<open>Proof AIRs and field values\<close>

datatype omega_proof_air = MembershipAir | Blake3TableAir

definition proof_airs :: "nat \<Rightarrow> omega_proof_air list" where
  "proof_airs membership_count = replicate membership_count MembershipAir @ [Blake3TableAir]"

definition BABY_BEAR_PRIME :: nat where "BABY_BEAR_PRIME = 2013265921"

text \<open>\<open>Val::from_u32\<close>: the residue in the BabyBear field.\<close>

definition val_from_u32 :: "u32 \<Rightarrow> nat" where
  "val_from_u32 w = unat w mod BABY_BEAR_PRIME"

definition public_value_fields :: "u32 list list \<Rightarrow> nat list list" where
  "public_value_fields values = map (map val_from_u32) values @ [[]]"

record 'p stark_lib =
  dec_envelope :: "bytes \<Rightarrow> proof_envelope option"
  dec_proof :: "bytes \<Rightarrow> 'p option"
  degree_bits :: "'p \<Rightarrow> nat list"
  verify_batch :: "u64 \<Rightarrow> omega_proof_air list \<Rightarrow> 'p \<Rightarrow> nat list list \<Rightarrow> bool"

datatype verify_error =
  VerifyUnsupportedVersion u8
| VerifyCommitmentMismatch
| PublicInputMismatch
| VerifyUnknownSubTree nat u8
| VerifyPublicBundleRootMismatch nat
| WrongSubTreeRoot nat
| DepthMismatch nat u8 u8
| InvalidProof

fun verify_error_display :: "verify_error \<Rightarrow> string" where
  "verify_error_display (VerifyUnsupportedVersion v) = ''unsupported proof envelope version '' @ show_nat (unat v)"
| "verify_error_display VerifyCommitmentMismatch = ''proof commitment does not match verifier commitment''"
| "verify_error_display PublicInputMismatch = ''proof public inputs do not match verifier public inputs''"
| "verify_error_display (VerifyUnknownSubTree index s) =
     ''public input '' @ show_nat index @ '' references unknown sub-tree id '' @ show_nat (unat s)"
| "verify_error_display (VerifyPublicBundleRootMismatch index) =
     ''public input '' @ show_nat index @ '' bundle root does not match the verifier commitment''"
| "verify_error_display (WrongSubTreeRoot index) =
     ''public input '' @ show_nat index @ '' per-sub-tree root does not match the verifier commitment''"
| "verify_error_display (DepthMismatch index expected actual) =
     ''public input '' @ show_nat index @ '' tree depth mismatch: expected '' @ show_nat (unat expected)
       @ '', actual '' @ show_nat (unat actual)"
| "verify_error_display InvalidProof = ''invalid Plonky3 proof''"

section \<open>The checks\<close>

definition verifier_sub_tree_index :: "u8 \<Rightarrow> nat option" where
  "verifier_sub_tree_index sub_tree_id =
     (if sub_tree_id = 0 then None
      else (let index = unat (sub_tree_id - 1) in if index < 7 then Some index else None))"

definition validate_public_input :: "omega_commitment \<Rightarrow> nat \<Rightarrow> claim_public_inputs \<Rightarrow> verify_error + unit" where
  "validate_public_input cm index public =
     (if cp_bundle_root_blake3 public \<noteq> oc_bundle_root_blake3 cm then Inl (VerifyPublicBundleRootMismatch index)
      else res_bind (ok_or (verifier_sub_tree_index (cp_sub_tree_id public))
                       (VerifyUnknownSubTree index (cp_sub_tree_id public))) (\<lambda>k.
        if cp_per_sub_tree_root public \<noteq> oc_sub_tree_roots_blake3 cm ! k then Inl (WrongSubTreeRoot index)
        else if oc_tree_depths cm ! k > 255 then Inl InvalidProof
        else (let expected = ucast (oc_tree_depths cm ! k)
              in if cp_tree_depth public \<noteq> expected
                 then Inl (DepthMismatch index expected (cp_tree_depth public)) else Inr ())))"

definition validate_public_inputs :: "omega_commitment \<Rightarrow> claim_public_inputs list \<Rightarrow> verify_error + unit" where
  "validate_public_inputs cm public_inputs =
     res_bind (collect_results (\<lambda>(i, p). validate_public_input cm i p) (enumerate 0 public_inputs)) (\<lambda>_. Inr ())"

text \<open>The body of the zip loop: every early return is \<open>InvalidProof\<close>.\<close>

definition public_values_match :: "u32 list \<Rightarrow> u32 list \<Rightarrow> claim_public_inputs \<Rightarrow> bool" where
  "public_values_match binding_words values public \<longleftrightarrow>
     length values = PROOF_PUBLIC_VALUE_COUNT
     \<and> values ! PUBLIC_SUB_TREE_ID_OFFSET = ucast (cp_sub_tree_id public)
     \<and> list_all (\<lambda>(i, b). values ! (PUBLIC_LEAF_INDEX_OFFSET + i) = ucast b)
         (enumerate 0 (to_be_bytes (cp_leaf_index public)))
     \<and> values ! PUBLIC_TREE_DEPTH_OFFSET = ucast (cp_tree_depth public)
     \<and> list_all (\<lambda>(i, b). values ! (PUBLIC_ROOT_OFFSET + i) = ucast b) (enumerate 0 (cp_per_sub_tree_root public))
     \<and> drop PROOF_BINDING_WORD_OFFSET values = binding_words"

definition validate_envelope_public_values ::
  "digest \<Rightarrow> omega_commitment \<Rightarrow> claim_public_inputs list \<Rightarrow> u32 list list \<Rightarrow> verify_error + unit" where
  "validate_envelope_public_values H cm public_inputs public_values =
     (if length public_values \<noteq> length public_inputs then Inl InvalidProof
      else (let binding_words = proof_binding_words H cm public_inputs
            in if list_all (\<lambda>(values, public). public_values_match binding_words values public)
                    (zip public_values public_inputs)
               then Inr () else Inl InvalidProof))"

definition verify_membership_batch :: "'p stark_lib \<Rightarrow> proof_envelope \<Rightarrow> verify_error + unit" where
  "verify_membership_batch V env =
     res_bind (ok_or (dec_proof V (pe_stark_proof env)) InvalidProof) (\<lambda>prf.
       let airs = proof_airs (length (pe_public_inputs env))
       in if length (degree_bits V prf) \<noteq> length airs then Inl InvalidProof
          else if verify_batch V (rng_seed (pe_config env)) airs prf (public_value_fields (pe_public_values env))
          then Inr () else Inl InvalidProof)"

definition verify ::
  "digest \<Rightarrow> 'p stark_lib \<Rightarrow> omega_commitment \<Rightarrow> claim_public_inputs list \<Rightarrow> proof_bytes \<Rightarrow> verify_error + unit" where
  "verify H V cm public_inputs prf =
     res_bind (ok_or (dec_envelope V (proof_raw prf)) InvalidProof) (\<lambda>env.
       if pe_version env \<noteq> PROOF_ENVELOPE_VERSION then Inl (VerifyUnsupportedVersion (pe_version env))
       else if pe_commitment env \<noteq> cm then Inl VerifyCommitmentMismatch
       else if pe_public_inputs env \<noteq> public_inputs then Inl PublicInputMismatch
       else res_bind (validate_public_inputs cm public_inputs) (\<lambda>_.
            res_bind (validate_envelope_public_values H cm public_inputs (pe_public_values env)) (\<lambda>_.
            verify_membership_batch V env)))"

section \<open>What the verifier accepts\<close>

lemma verifier_sub_tree_index_Some: "verifier_sub_tree_index s = Some k \<longleftrightarrow> sub_tree_index s = Inr k"
  by (auto simp: verifier_sub_tree_index_def sub_tree_index_def Let_def SUB_TREE_COUNT_def)

lemma segment_matches:
  assumes "off + length bs \<le> length v"
  shows "list_all (\<lambda>(i, b). v ! (off + i) = f b) (enumerate 0 bs) \<longleftrightarrow> take (length bs) (drop off v) = map f bs"
  using assms by (auto simp: list_all_iff in_set_enumerate_eq list_eq_iff_nth_eq)

lemma split_values:
  assumes "length v = 74"
  shows "v = [v ! 0] @ take 8 (drop 1 v) @ [v ! 9] @ take 32 (drop 10 v) @ drop 42 v"
proof (rule nth_equalityI)
  fix i assume "i < length v"
  then consider "i = 0" | "0 < i" "i < 9" | "i = 9" | "9 < i" "i < 42" | "42 \<le> i" "i < 74"
    using assms by linarith
  then show "v ! i = ([v ! 0] @ take 8 (drop 1 v) @ [v ! 9] @ take 32 (drop 10 v) @ drop 42 v) ! i"
    by cases (use assms in \<open>auto simp: nth_append nth_Cons'\<close>)
qed (use assms in simp)

lemma public_values_match_row:
  assumes "public_wf p" "length words = 32"
  shows "public_values_match words v p \<longleftrightarrow> v = public_value_row words p"
proof (cases "length v = 74")
  case True
  have "public_values_match words v p \<longleftrightarrow> v ! 0 = ucast (cp_sub_tree_id p)
      \<and> take 8 (drop 1 v) = map ucast (to_be_bytes (cp_leaf_index p)) \<and> v ! 9 = ucast (cp_tree_depth p)
      \<and> take 32 (drop 10 v) = map ucast (cp_per_sub_tree_root p) \<and> drop 42 v = words"
    using True assms segment_matches [of 1 "to_be_bytes (cp_leaf_index p)" v ucast]
      segment_matches [of 10 "cp_per_sub_tree_root p" v ucast]
    by (simp add: public_values_match_def offset_defs public_wf_def)
  also have "\<dots> \<longleftrightarrow> v = public_value_row words p"
  proof
    assume *: "v ! 0 = ucast (cp_sub_tree_id p)
      \<and> take 8 (drop 1 v) = map ucast (to_be_bytes (cp_leaf_index p)) \<and> v ! 9 = ucast (cp_tree_depth p)
      \<and> take 32 (drop 10 v) = map ucast (cp_per_sub_tree_root p) \<and> drop 42 v = words"
    show "v = public_value_row words p"
      by (subst split_values [OF True]) (simp only: * public_value_row_def)
  next
    assume "v = public_value_row words p"
    then show "v ! 0 = ucast (cp_sub_tree_id p)
      \<and> take 8 (drop 1 v) = map ucast (to_be_bytes (cp_leaf_index p)) \<and> v ! 9 = ucast (cp_tree_depth p)
      \<and> take 32 (drop 10 v) = map ucast (cp_per_sub_tree_root p) \<and> drop 42 v = words"
      using assms by (simp add: public_value_row_def public_wf_def nth_append)
  qed
  finally show ?thesis .
next
  case False
  then show ?thesis
    using assms by (auto simp: public_values_match_def offset_defs public_value_row_def public_wf_def)
qed

lemma proof_binding_words_length: "digest32 H \<Longrightarrow> length (proof_binding_words H cm ps) = 32"
  by (simp add: proof_binding_words_def proof_binding_digest_def)

lemma all_values_match:
  "length vs = length ps \<Longrightarrow> length w = 32 \<Longrightarrow> list_all public_wf ps \<Longrightarrow>
   list_all (\<lambda>(v, p). public_values_match w v p) (zip vs ps) \<longleftrightarrow> vs = map (public_value_row w) ps"
  by (induction vs ps rule: list_induct2) (auto simp: public_values_match_row)

lemma validate_envelope_public_values_Inr:
  assumes "digest32 H" "list_all public_wf ps"
  shows "validate_envelope_public_values H cm ps vs = Inr u \<longleftrightarrow> vs = proof_public_values H cm ps"
  using all_values_match [OF _ proof_binding_words_length [OF assms(1)] assms(2), of vs cm ps]
  by (auto simp: validate_envelope_public_values_def proof_public_values_def Let_def)

text \<open>What is checked of one public input against the commitment; the leaf index is not.\<close>

definition input_matches :: "omega_commitment \<Rightarrow> claim_public_inputs \<Rightarrow> bool" where
  "input_matches cm p \<longleftrightarrow>
     (\<exists>k. sub_tree_index (cp_sub_tree_id p) = Inr k \<and> cp_bundle_root_blake3 p = oc_bundle_root_blake3 cm
       \<and> cp_per_sub_tree_root p = oc_sub_tree_roots_blake3 cm ! k
       \<and> oc_tree_depths cm ! k \<le> 255 \<and> cp_tree_depth p = ucast (oc_tree_depths cm ! k))"

lemma validate_public_input_Inr: "validate_public_input cm i p = Inr u \<longleftrightarrow> input_matches cm p"
  unfolding validate_public_input_def Let_def guard_eq_Inr res_bind_eq_Inr ok_or_eq_Inr
    verifier_sub_tree_index_Some input_matches_def not_less
  by auto

lemma validate_public_inputs_Inr:
  "validate_public_inputs cm ps = Inr u \<longleftrightarrow> list_all (input_matches cm) ps"
proof -
  have "(\<exists>us. collect_results (\<lambda>(i, p). validate_public_input cm i p) (enumerate n ps) = Inr us)
    \<longleftrightarrow> list_all (input_matches cm) ps" for n
  proof (induction ps arbitrary: n)
    case (Cons p ps)
    have "(\<exists>us. collect_results (\<lambda>(i, p). validate_public_input cm i p) (enumerate n (p # ps)) = Inr us)
      \<longleftrightarrow> (\<exists>u. validate_public_input cm n p = Inr u)
        \<and> (\<exists>us. collect_results (\<lambda>(i, p). validate_public_input cm i p) (enumerate (Suc n) ps) = Inr us)"
      by auto
    also have "\<dots> \<longleftrightarrow> list_all (input_matches cm) (p # ps)"
      using validate_public_input_Inr [of cm n p] Cons [of "Suc n"] by auto
    finally show ?case .
  qed simp
  from this [of 0] show ?thesis by (simp add: validate_public_inputs_def)
qed

lemma verify_Inr:
  assumes "digest32 H" "list_all public_wf ps"
  shows "verify H V cm ps prf = Inr () \<longleftrightarrow>
    (\<exists>env sp. dec_envelope V (proof_raw prf) = Some env \<and> pe_version env = PROOF_ENVELOPE_VERSION
       \<and> pe_commitment env = cm \<and> pe_public_inputs env = ps \<and> list_all (input_matches cm) ps
       \<and> pe_public_values env = proof_public_values H cm ps
       \<and> dec_proof V (pe_stark_proof env) = Some sp \<and> length (degree_bits V sp) = Suc (length ps)
       \<and> verify_batch V (rng_seed (pe_config env)) (proof_airs (length ps)) sp
           (public_value_fields (proof_public_values H cm ps)))"
proof -
  have batch: "verify_membership_batch V env = Inr () \<longleftrightarrow> (\<exists>sp. dec_proof V (pe_stark_proof env) = Some sp
      \<and> length (degree_bits V sp) = Suc (length (pe_public_inputs env))
      \<and> verify_batch V (rng_seed (pe_config env)) (proof_airs (length (pe_public_inputs env))) sp
          (public_value_fields (pe_public_values env)))" for env
    by (auto simp: verify_membership_batch_def Let_def proof_airs_def)
  show ?thesis
    unfolding verify_def res_bind_eq_Inr ok_or_eq_Inr guard_eq_Inr validate_public_inputs_Inr
      validate_envelope_public_values_Inr [OF assms] batch not_not
    by auto
qed

section \<open>The statement of a proof\<close>

text \<open>What a membership proof is about: some payload has a path of the claimed depth to the root.\<close>

definition membership_statement :: "digest \<Rightarrow> claim_public_inputs \<Rightarrow> bytes \<Rightarrow> hash list \<Rightarrow> bool" where
  "membership_statement H p payload path \<longleftrightarrow>
     length payload \<le> MAX_V01_LEAF_PAYLOAD_LEN \<and> length path = unat (cp_tree_depth p) \<and> list_all hash_wf path
     \<and> walk_v1_path H (leaf_hash_v2 H (cp_sub_tree_id p) (cp_leaf_index p) payload) (cp_leaf_index p) path
        = cp_per_sub_tree_root p"

lemma statement_sound:
  assumes "digest32 H" "commits_to H cm (cp_sub_tree_id p) ps t" "input_matches cm p"
    and "inj_on H (membership_preimages H (cp_sub_tree_id p) (cp_leaf_index p) payload path
      \<union> v1_preimages H (cp_sub_tree_id p) ps)"
    and "membership_statement H p payload path"
  shows "v1_member ps (cp_leaf_index p) payload \<or> v1_padding ps (cp_leaf_index p) payload"
proof -
  note c = commits_to_root [OF assms(2)]
  from assms(3) c(3) have m: "cp_per_sub_tree_root p = v1_root H (cp_sub_tree_id p) ps"
    "oc_tree_depths cm ! tree_slot (cp_sub_tree_id p) \<le> 255"
    "cp_tree_depth p = ucast (oc_tree_depths cm ! tree_slot (cp_sub_tree_id p))"
    by (auto simp: input_matches_def c(1))
  have "unat (cp_tree_depth p) = v1_depth ps"
    using m(2,3) c(2) by (simp add: unsigned_ucast_eq take_bit_eq_mod word_le_nat_alt)
  with assms(5) m(1) walk_v1_sound [OF assms(1,4) c(4)] show ?thesis
    by (auto simp: membership_statement_def)
qed

lemma walk_mod: "walk f c idx sibs = walk f c (idx mod 2 ^ length sibs) sibs"
proof (induction sibs arbitrary: c idx)
  case Nil
  then show ?case by simp
next
  case (Cons s sibs)
  have e: "even (idx mod 2 ^ Suc (length sibs)) \<longleftrightarrow> even idx"
    by (simp add: dvd_mod_iff)
  have d: "idx mod 2 ^ Suc (length sibs) div 2 = idx div 2 mod 2 ^ length sibs"
    by (simp add: mod_mult2_eq)
  show ?case
    by (simp only: walk.simps length_Cons One_nat_def even_and_one(1) e d) (rule Cons.IH)
qed

lemma sentinel_mod: "d \<le> 64 \<Longrightarrow> unat EMPTY_INDEX_SENTINEL mod 2 ^ d = 2 ^ d - 1"
proof -
  assume "d \<le> 64"
  have "take_bit d (mask 64 :: nat) = mask (min d 64)"
    by (simp add: take_bit_of_mask)
  with \<open>d \<le> 64\<close> have "(mask 64 :: nat) mod 2 ^ d = mask d"
    by (simp add: take_bit_eq_mod min_absorb1)
  then show ?thesis
    by (simp add: EMPTY_INDEX_SENTINEL_def unsigned_minus_1_eq_mask) (simp add: mask_eq_exp_minus_1)
qed

lemma v1_depth_bound: "length ps < 2 ^ 64 \<Longrightarrow> v1_depth ps \<le> 64"
  using clog2_le_iff [of "length ps" 64] by (simp add: v1_depth_def)

lemma padding_path:
  assumes "digest32 H" "length ps < 2 ^ 64" "length ps < 2 ^ v1_depth ps"
  shows "\<exists>path. length path = v1_depth ps \<and> list_all hash_wf path
    \<and> walk_v1_path H (leaf_hash_v2 H s EMPTY_INDEX_SENTINEL []) EMPTY_INDEX_SENTINEL path = v1_root H s ps"
proof -
  let ?i = "2 ^ v1_depth ps - 1 :: nat"
  have i: "?i < 2 ^ v1_depth ps" "length ps \<le> ?i" using assms(3) by auto
  from path_siblings_perfect [OF length_v1_all_leaves i(1), of "node_hash_v2 H" H s] obtain sibs where
    s: "path_siblings (take (v1_depth ps) (perfect_layers (node_hash_v2 H) (v1_depth ps) (v1_all_leaves H s ps))) ?i = Some sibs"
      "length sibs = v1_depth ps" "walk (node_hash_v2 H) (v1_all_leaves H s ps ! ?i) ?i sibs = v1_root H s ps"
    by (auto simp: v1_root_def)
  have "list_all hash_wf sibs"
    using assms(1) v1_all_leaves_wf [OF assms(1)] by (intro path_siblings_wf [OF _ _ _ s(1)]) (auto simp: node_hash_v2_def)
  moreover have "v1_all_leaves H s ps ! ?i = leaf_hash_v2 H s EMPTY_INDEX_SENTINEL []"
    using i by (simp add: v1_leaf_of leaf_hash_v2_def)
  ultimately show ?thesis
    using walk_mod [of "node_hash_v2 H" _ "unat EMPTY_INDEX_SENTINEL" sibs] s(2,3)
      sentinel_mod [OF v1_depth_bound [OF assms(2)]]
    by (intro exI [of _ sibs]) (simp add: walk_v1_path_walk)
qed

text \<open>The padding leaf of a committed tree is a statement that the checks on public inputs let through.\<close>

lemma padding_statement:
  assumes "digest32 H" "commits_to H cm s ps t" "length ps < leaf_count t" "depth t \<le> 255"
    and "cp_sub_tree_id p = s" "cp_leaf_index p = EMPTY_INDEX_SENTINEL" "cp_tree_depth p = of_nat (depth t)"
      "cp_per_sub_tree_root p = oc_sub_tree_roots_blake3 cm ! tree_slot s"
      "cp_bundle_root_blake3 p = oc_bundle_root_blake3 cm"
  shows "input_matches cm p \<and> (\<exists>path. membership_statement H p [] path)"
proof -
  note c = commits_to_root [OF assms(2)]
  have t: "t = v1_tree H s ps" using assms(2) by (simp add: commits_to_def build_v1_Inr)
  have d: "depth t = v1_depth ps" "length ps < 2 ^ v1_depth ps"
    using assms(3) by (simp_all add: t v1_tree_simps)
  have u: "unat (of_nat (v1_depth ps) :: u8) = v1_depth ps"
    using assms(4) d(1) by (simp add: unat_of_nat take_bit_eq_mod)
  have "oc_tree_depths cm ! tree_slot s \<le> 255"
    using assms(4) d(1) c(2) by (simp add: word_le_nat_alt)
  moreover have "ucast (oc_tree_depths cm ! tree_slot s) = (of_nat (depth t) :: u8)"
    by (simp add: d(1) flip: c(2))
  ultimately have "input_matches cm p"
    using c(3) assms(5-) by (simp add: input_matches_def)
  moreover from padding_path [OF assms(1) c(4) d(2), of s] obtain path where
    "length path = v1_depth ps" "list_all hash_wf path"
    "walk_v1_path H (leaf_hash_v2 H s EMPTY_INDEX_SENTINEL []) EMPTY_INDEX_SENTINEL path = v1_root H s ps"
    by blast
  ultimately show ?thesis
    using assms(5-8) c(1) d(1) u by (auto simp: membership_statement_def)
qed

section \<open>Properties\<close>

text \<open>
  C13. The exact acceptance condition of \<open>verify\<close>: the proof decodes to an envelope of the
  current version that names the verifier's commitment and public inputs, every public input
  carries the bundle root, sub-tree root and depth of the commitment, the public values of the
  envelope are exactly the ones recomputed from commitment and inputs, and the batch proof
  verifies for them with one AIR per input and one for the table.
\<close>

theorem verify_accepts_iff:
  assumes "digest32 H" "list_all public_wf ps"
  shows "verify H V cm ps prf = Inr () \<longleftrightarrow>
    (\<exists>env sp. dec_envelope V (proof_raw prf) = Some env \<and> pe_version env = PROOF_ENVELOPE_VERSION
       \<and> pe_commitment env = cm \<and> pe_public_inputs env = ps \<and> list_all (input_matches cm) ps
       \<and> pe_public_values env = proof_public_values H cm ps
       \<and> dec_proof V (pe_stark_proof env) = Some sp \<and> length (degree_bits V sp) = Suc (length ps)
       \<and> verify_batch V (rng_seed (pe_config env)) (proof_airs (length ps)) sp
           (public_value_fields (proof_public_values H cm ps)))"
  by (rule verify_Inr [OF assms])

definition example_envelope :: "claim_public_inputs list \<Rightarrow> proof_envelope" where
  "example_envelope ps = \<lparr>pe_version = 2, pe_config = prover_config_default, pe_commitment = example_commitment,
     pe_public_inputs = ps, pe_public_values = proof_public_values sum_digest example_commitment ps,
     pe_stark_proof = replicate (length ps) 1\<rparr>"

text \<open>The same leaf data claimed at index 0.\<close>

definition example_other_public :: claim_public_inputs where
  "example_other_public = example_claim_public\<lparr>cp_leaf_index := 0\<rparr>"

text \<open>A proof system that knows three envelopes: one claim, another one, and the first one twice.\<close>

definition example_stark :: "nat list stark_lib" where
  "example_stark = \<lparr>dec_envelope = (\<lambda>b. if b = [1] then Some (example_envelope [example_claim_public])
       else if b = [2] then Some (example_envelope [example_other_public])
       else if b = [3] then Some (example_envelope [example_claim_public, example_claim_public]) else None),
     dec_proof = (\<lambda>b. Some (replicate (Suc (length b)) 3)), degree_bits = (\<lambda>p. p),
     verify_batch = (\<lambda>seed airs p values. True)\<rparr>"

lemma example_public_wf: "list_all public_wf [example_claim_public]" "public_wf example_other_public"
  by (simp_all add: public_wf_def example_other_public_def example_claim_public_def example_commitment_def Let_def bundle_root_def
      example_v1_root node_hash_v2_def)

lemma example_input_matches:
  "input_matches example_commitment example_claim_public" "input_matches example_commitment example_other_public"
  by (simp_all add: input_matches_def sub_tree_index_Inr tree_slot_def example_other_public_def example_claim_public_def example_commitment_def Let_def)

lemma example_verifies:
  "verify sum_digest example_stark example_commitment [example_claim_public] (ProofBytes [1]) = Inr ()"
  "verify sum_digest example_stark example_commitment [example_other_public] (ProofBytes [2]) = Inr ()"
  "verify sum_digest example_stark example_commitment [example_claim_public, example_claim_public] (ProofBytes [3]) = Inr ()"
  by (subst verify_Inr [OF digest32_sum_digest];
      use example_public_wf example_input_matches in
        \<open>simp add: example_stark_def example_envelope_def PROOF_ENVELOPE_VERSION_def\<close>)+

theorem verify_accepts_iff_witness:
  "verify sum_digest example_stark example_commitment [example_claim_public] (ProofBytes [1]) = Inr ()"
  using verify_accepts_iff [OF digest32_sum_digest example_public_wf(1), of example_stark example_commitment "ProofBytes [1]"]
    example_input_matches
  by (simp add: example_stark_def example_envelope_def PROOF_ENVELOPE_VERSION_def)

end
