(* ===== verification/Mock_Ledger.thy ===== *)
theory Mock_Ledger
  imports Claim_Verifier
begin

text \<open>
  The ledger of \<open>omega-mock-ledger\<close> (\<open>lib.rs\<close>, \<open>schema.rs\<close>, \<open>writer.rs\<close>): the SQLite tables as
  maps with their primary keys, and the writer thread that owns the only writing connection as a
  step function over its commands. A transaction is a function that returns the new tables or an
  error; the tables are replaced only on success, as a dropped transaction rolls back. SQLite
  itself is modelled by its documented behaviour (uniqueness of primary keys, \<open>VACUUM INTO\<close>,
  \<open>ATTACH\<close>); failures of the disk are not modelled. The file format of SQLite and the codec of
  the raft types are parameters.
\<close>

section \<open>Tables and errors\<close>

record utxo_row =
  ur_recipient :: hash
  ur_value :: int
  ur_asset_blob :: bytes
  ur_datum :: "bytes option"
  ur_script_ref :: "bytes option"
  ur_block_idx :: int
  ur_spent_in :: "int option"

record ledger_db =
  raft_log :: "int \<rightharpoonup> int \<times> bytes"
  raft_meta :: "string \<rightharpoonup> bytes"
  nullifiers :: "int \<times> int \<rightharpoonup> int"
  starstream_utxos :: "hash \<rightharpoonup> utxo_row"
  genesis :: "string \<rightharpoonup> bytes"

text \<open>The tables right after \<open>create_tables\<close> on a new file.\<close>

definition create_tables :: ledger_db where
  "create_tables = \<lparr>raft_log = Map.empty, raft_meta = Map.empty, nullifiers = Map.empty,
     starstream_utxos = Map.empty, genesis = Map.empty\<rparr>"

datatype ledger_error =
  LedgerIo string
| LedgerSqlite string
| LedgerPool string
| WriterClosed
| WriterReplyCanceled
| ReaderJoin string
| LedgerVerify verify_error
| InvalidClaim string
| Codec string
| IntegerOutOfRange string u64
| Replay u8 u64

fun ledger_error_display :: "ledger_error \<Rightarrow> string" where
  "ledger_error_display (LedgerIo e) = ''io error: '' @ e"
| "ledger_error_display (LedgerSqlite e) = ''sqlite error: '' @ e"
| "ledger_error_display (LedgerPool e) = ''sqlite reader pool error: '' @ e"
| "ledger_error_display WriterClosed = ''writer actor is closed''"
| "ledger_error_display WriterReplyCanceled = ''writer actor dropped the reply channel''"
| "ledger_error_display (ReaderJoin e) = ''reader task failed: '' @ e"
| "ledger_error_display (LedgerVerify e) = ''claim verification failed: '' @ verify_error_display e"
| "ledger_error_display (InvalidClaim e) = ''claim shape is invalid: '' @ e"
| "ledger_error_display (Codec e) = ''codec error: '' @ e"
| "ledger_error_display (IntegerOutOfRange field v) =
     ''integer value '' @ show_nat (unat v) @ '' for '' @ field @ '' does not fit sqlite INTEGER''"
| "ledger_error_display (Replay s i) =
     ''claim replay for sub_tree_id='' @ show_nat (unat s) @ '', leaf_index='' @ show_nat (unat i)"

type_synonym ledger_tx = "ledger_db \<Rightarrow> ledger_error + ledger_db"

text \<open>\<open>conn.transaction() ... tx.commit()\<close>: an error leaves the tables as they were.\<close>

definition transaction :: "ledger_tx \<Rightarrow> ledger_db \<Rightarrow> (ledger_error + unit) \<times> ledger_db" where
  "transaction body db = (case body db of Inl e \<Rightarrow> (Inl e, db) | Inr db' \<Rightarrow> (Inr (), db'))"

text \<open>\<open>INSERT INTO t\<close> of a row under its primary key.\<close>

definition insert_row :: "'k \<Rightarrow> 'v \<Rightarrow> ('k \<rightharpoonup> 'v) \<Rightarrow> ledger_error + ('k \<rightharpoonup> 'v)" where
  "insert_row k v t = (if t k \<noteq> None then Inl (LedgerSqlite ''UNIQUE constraint failed'') else Inr (t(k \<mapsto> v)))"

definition sqlite_i64 :: "string \<Rightarrow> u64 \<Rightarrow> ledger_error + int" where
  "sqlite_i64 field v = (if unat v < 2 ^ 63 then Inr (uint v) else Inl (IntegerOutOfRange field v))"

definition utxo_id_preimage :: "hash \<Rightarrow> bytes \<Rightarrow> u64 \<Rightarrow> u64 \<Rightarrow> bytes" where
  "utxo_id_preimage recipient leaf_payload block_idx ordinal =
     ascii ''omega:mock-ledger:v1:utxo'' @ recipient @ to_be_bytes block_idx @ to_be_bytes ordinal
       @ to_be_bytes (as_u64 (length leaf_payload)) @ leaf_payload"

definition starstream_utxo_id :: "digest \<Rightarrow> hash \<Rightarrow> bytes \<Rightarrow> u64 \<Rightarrow> u64 \<Rightarrow> hash" where
  "starstream_utxo_id H recipient leaf_payload block_idx ordinal =
     blake3_256 H (utxo_id_preimage recipient leaf_payload block_idx ordinal)"

section \<open>Applying a claim\<close>

record parsed_claim =
  pc_public_inputs :: "claim_public_inputs list"
  pc_witnesses :: "claim_witness list"
  pc_proof :: proof_bytes

fun parse_claim :: "claim_tx \<Rightarrow> ledger_error + parsed_claim" where
  "parse_claim (ClaimTxUtxo c) =
     Inr \<lparr>pc_public_inputs = [cu_public c], pc_witnesses = [cu_witness c], pc_proof = cu_proof c\<rparr>"
| "parse_claim (ClaimTxCollection c) =
     (if length (cc_public c) \<noteq> length (cc_witness c) then Inl (InvalidClaim ''collection arity mismatch'')
      else Inr \<lparr>pc_public_inputs = cc_public c, pc_witnesses = cc_witness c, pc_proof = cc_proof c\<rparr>)"

text \<open>The key under which a claim is recorded: \<open>(i64::from(sub_tree_id), leaf_index)\<close>.\<close>

definition nullifier_key :: "u8 \<Rightarrow> int \<Rightarrow> int \<times> int" where
  "nullifier_key sub_tree_id leaf_index = (uint sub_tree_id, leaf_index)"

definition reject_replay :: "ledger_db \<Rightarrow> claim_public_inputs \<Rightarrow> ledger_error + unit" where
  "reject_replay db public =
     res_bind (sqlite_i64 ''leaf_index'' (cp_leaf_index public)) (\<lambda>leaf_index.
       if nullifiers db (nullifier_key (cp_sub_tree_id public) leaf_index) \<noteq> None
       then Inl (Replay (cp_sub_tree_id public) (cp_leaf_index public)) else Inr ())"

definition insert_nullifier :: "claim_public_inputs \<Rightarrow> int \<Rightarrow> ledger_tx" where
  "insert_nullifier public block_idx db =
     res_bind (sqlite_i64 ''leaf_index'' (cp_leaf_index public)) (\<lambda>leaf_index.
     res_bind (insert_row (nullifier_key (cp_sub_tree_id public) leaf_index) block_idx (nullifiers db)) (\<lambda>t.
     Inr (db\<lparr>nullifiers := t\<rparr>)))"

definition payload_value :: "bytes \<Rightarrow> u64" where
  "payload_value payload = (if length payload < 16 then 0 else from_be_bytes (take 8 (drop 8 payload)))"

definition insert_starstream_utxo ::
  "digest \<Rightarrow> claim_public_inputs \<Rightarrow> claim_witness \<Rightarrow> u64 \<Rightarrow> u64 \<Rightarrow> int \<Rightarrow> ledger_tx" where
  "insert_starstream_utxo H public witness block_idx ordinal block_idx_i64 db =
     (let utxo_id = starstream_utxo_id H (cp_recipient_starstream_addr public) (cw_leaf_payload witness) block_idx ordinal;
          v = payload_value (cw_leaf_payload witness)
      in res_bind (sqlite_i64 ''value'' v) (\<lambda>v_i64.
         res_bind (insert_row utxo_id
             \<lparr>ur_recipient = cp_recipient_starstream_addr public, ur_value = v_i64, ur_asset_blob = [],
              ur_datum = None, ur_script_ref = None, ur_block_idx = block_idx_i64, ur_spent_in = None\<rparr>
             (starstream_utxos db)) (\<lambda>t.
         Inr (db\<lparr>starstream_utxos := t\<rparr>))))"

fun reject_replays :: "claim_public_inputs list \<Rightarrow> ledger_db \<Rightarrow> ledger_error + unit" where
  "reject_replays [] db = Inr ()"
| "reject_replays (p # ps) db = res_bind (reject_replay db p) (\<lambda>_. reject_replays ps db)"

text \<open>The second loop of \<open>apply_claim_tx\<close>: \<open>zip\<close> of inputs and witnesses, enumerated.\<close>

fun insert_claims ::
  "digest \<Rightarrow> u64 \<Rightarrow> int \<Rightarrow> nat \<Rightarrow> (claim_public_inputs \<times> claim_witness) list \<Rightarrow> ledger_tx" where
  "insert_claims H block_idx block_idx_i64 ordinal [] db = Inr db"
| "insert_claims H block_idx block_idx_i64 ordinal ((public, witness) # rest) db =
     res_bind (insert_nullifier public block_idx_i64 db) (\<lambda>db1.
     res_bind (insert_starstream_utxo H public witness block_idx (as_u64 ordinal) block_idx_i64 db1) (\<lambda>db2.
     insert_claims H block_idx block_idx_i64 (Suc ordinal) rest db2))"

definition apply_claim_body :: "digest \<Rightarrow> u64 \<Rightarrow> int \<Rightarrow> parsed_claim \<Rightarrow> ledger_tx" where
  "apply_claim_body H block_idx block_idx_i64 pc db =
     res_bind (reject_replays (pc_public_inputs pc) db) (\<lambda>_.
     insert_claims H block_idx block_idx_i64 0 (zip (pc_public_inputs pc) (pc_witnesses pc)) db)"

text \<open>
  \<open>fp\<close> is the fail point \<open>omega_mock_ledger::writer_close\<close>: compiled in by the feature
  \<open>failpoints\<close> and set to return. Without the feature it is \<open>False\<close>.
\<close>

definition apply_claim_tx ::
  "bool \<Rightarrow> digest \<Rightarrow> 'p stark_lib \<Rightarrow> u64 \<Rightarrow> omega_commitment \<Rightarrow> claim_tx \<Rightarrow> ledger_db \<Rightarrow> (ledger_error + unit) \<times> ledger_db" where
  "apply_claim_tx fp H V block_idx cm claim db =
     (if fp then (Inl WriterClosed, db)
      else case res_bind (sqlite_i64 ''block_idx'' block_idx) (\<lambda>block_idx_i64.
           res_bind (parse_claim claim) (\<lambda>pc.
           res_bind (map_err LedgerVerify (verify H V cm (pc_public_inputs pc) (pc_proof pc))) (\<lambda>_.
           Inr (block_idx_i64, pc)))) of
        Inl e \<Rightarrow> (Inl e, db)
      | Inr (block_idx_i64, pc) \<Rightarrow> transaction (apply_claim_body H block_idx block_idx_i64 pc) db)"

definition insert_synthetic_claim ::
  "digest \<Rightarrow> u8 \<Rightarrow> u64 \<Rightarrow> u64 \<Rightarrow> ledger_db \<Rightarrow> (ledger_error + unit) \<times> ledger_db" where
  "insert_synthetic_claim H sub_tree_id leaf_index block_idx db =
     (case res_bind (sqlite_i64 ''leaf_index'' leaf_index) (\<lambda>li.
           res_bind (sqlite_i64 ''block_idx'' block_idx) (\<lambda>bi. Inr (li, bi))) of
        Inl e \<Rightarrow> (Inl e, db)
      | Inr (li, bi) \<Rightarrow>
          (let recipient = replicate 32 0xC7;
               payload = to_be_bytes leaf_index @ to_be_bytes block_idx;
               utxo_id = starstream_utxo_id H recipient payload block_idx leaf_index;
               v = (if leaf_index = - 1 then - 1 else leaf_index + 1)
           in transaction (\<lambda>db.
                res_bind (insert_row (nullifier_key sub_tree_id li) bi (nullifiers db)) (\<lambda>t.
                res_bind (sqlite_i64 ''value'' v) (\<lambda>v_i64.
                res_bind (insert_row utxo_id
                    \<lparr>ur_recipient = recipient, ur_value = v_i64, ur_asset_blob = [], ur_datum = None,
                     ur_script_ref = None, ur_block_idx = bi, ur_spent_in = None\<rparr> (starstream_utxos db)) (\<lambda>u.
                Inr (db\<lparr>nullifiers := t, starstream_utxos := u\<rparr>))))) db))"

section \<open>Raft log and metadata\<close>

definition save_raft_meta :: "string \<Rightarrow> bytes option \<Rightarrow> ledger_db \<Rightarrow> ledger_db" where
  "save_raft_meta key v db = db\<lparr>raft_meta := (raft_meta db)(key := v)\<rparr>"

record raft_log_row =
  rl_log_idx :: u64
  rl_term :: u64
  rl_payload :: bytes

fun upsert_rows :: "raft_log_row list \<Rightarrow> ledger_tx" where
  "upsert_rows [] db = Inr db"
| "upsert_rows (row # rows) db =
     res_bind (sqlite_i64 ''log_idx'' (rl_log_idx row)) (\<lambda>i.
     res_bind (sqlite_i64 ''term'' (rl_term row)) (\<lambda>t.
     upsert_rows rows (db\<lparr>raft_log := (raft_log db)(i \<mapsto> (t, rl_payload row))\<rparr>)))"

definition append_raft_logs :: "raft_log_row list \<Rightarrow> ledger_db \<Rightarrow> (ledger_error + unit) \<times> ledger_db" where
  "append_raft_logs rows db = transaction (upsert_rows rows) db"

definition delete_raft_logs_since :: "u64 \<Rightarrow> ledger_db \<Rightarrow> (ledger_error + unit) \<times> ledger_db" where
  "delete_raft_logs_since log_idx db =
     transaction (\<lambda>db. res_bind (sqlite_i64 ''log_idx'' log_idx) (\<lambda>i.
       Inr (db\<lparr>raft_log := (\<lambda>k. if k \<ge> i then None else raft_log db k)\<rparr>))) db"

definition purge_raft_logs_upto :: "u64 \<Rightarrow> bytes \<Rightarrow> ledger_db \<Rightarrow> (ledger_error + unit) \<times> ledger_db" where
  "purge_raft_logs_upto log_idx last_purged db =
     transaction (\<lambda>db. res_bind (sqlite_i64 ''log_idx'' log_idx) (\<lambda>i.
       Inr (save_raft_meta ''last_purged_log_id'' (Some last_purged)
              (db\<lparr>raft_log := (\<lambda>k. if k \<le> i then None else raft_log db k)\<rparr>)))) db"

text \<open>The raft types of \<open>openraft\<close> that the ledger stores: log identifiers and entries.\<close>

record log_id =
  lid_term :: u64
  lid_node_id :: u64
  lid_index :: u64

record ledger_command =
  lc_block_idx :: u64
  lc_commitment :: omega_commitment
  lc_claim :: claim_tx

datatype 'm entry_payload = Blank | Normal ledger_command | Membership 'm

record 'm raft_entry =
  en_log_id :: log_id
  en_payload :: "'m entry_payload"

datatype ledger_reject = RejectVerify | RejectInvalidClaim | RejectReplay | RejectWriterClosed | RejectInternal

record ledger_response =
  lr_accepted :: bool
  lr_reject :: "ledger_reject option"
  lr_error :: "string option"

definition response_accepted :: ledger_response where
  "response_accepted = \<lparr>lr_accepted = True, lr_reject = None, lr_error = None\<rparr>"

fun reject_class :: "ledger_error \<Rightarrow> ledger_reject" where
  "reject_class (LedgerVerify e) = RejectVerify"
| "reject_class (InvalidClaim e) = RejectInvalidClaim"
| "reject_class (Replay s i) = RejectReplay"
| "reject_class WriterClosed = RejectWriterClosed"
| "reject_class WriterReplyCanceled = RejectWriterClosed"
| "reject_class _ = RejectInternal"

definition response_rejected :: "ledger_error \<Rightarrow> ledger_response" where
  "response_rejected e =
     \<lparr>lr_accepted = False, lr_reject = Some (reject_class e), lr_error = Some (ledger_error_display e)\<rparr>"

fun claim_proof :: "claim_tx \<Rightarrow> proof_bytes" where
  "claim_proof (ClaimTxUtxo c) = cu_proof c"
| "claim_proof (ClaimTxCollection c) = cc_proof c"

text \<open>\<open>LedgerCommand::apply_claim\<close>: the command takes its commitment from the claim's own proof.\<close>

definition command_apply_claim :: "'p stark_lib \<Rightarrow> claim_tx \<Rightarrow> ledger_error + ledger_command" where
  "command_apply_claim V claim =
     res_bind (ok_or (dec_envelope V (proof_raw (claim_proof claim))) (LedgerVerify InvalidProof)) (\<lambda>env.
     Inr \<lparr>lc_block_idx = 0, lc_commitment = pe_commitment env, lc_claim = claim\<rparr>)"

fun apply_payload ::
  "bool \<Rightarrow> digest \<Rightarrow> 'p stark_lib \<Rightarrow> 'm entry_payload \<Rightarrow> ledger_db \<Rightarrow> ledger_response \<times> ledger_db" where
  "apply_payload fp H V Blank db = (response_accepted, db)"
| "apply_payload fp H V (Membership m) db = (response_accepted, db)"
| "apply_payload fp H V (Normal cmd) db =
     (case apply_claim_tx fp H V (lc_block_idx cmd) (lc_commitment cmd) (lc_claim cmd) db of
        (Inr u, db') \<Rightarrow> (response_accepted, db')
      | (Inl e, db') \<Rightarrow> (response_rejected e, db'))"

text \<open>The loop over the entries; the log identifier is encoded by \<open>enc\<close> (\<open>ciborium\<close>).\<close>

fun apply_entries ::
  "bool \<Rightarrow> digest \<Rightarrow> 'p stark_lib \<Rightarrow> (log_id \<Rightarrow> string + bytes) \<Rightarrow> 'm raft_entry list \<Rightarrow> ledger_db
     \<Rightarrow> (ledger_error + ledger_response list) \<times> ledger_db" where
  "apply_entries fp H V enc [] db = (Inr [], db)"
| "apply_entries fp H V enc (e # es) db =
     (case apply_payload fp H V (en_payload e) db of (response, db1) \<Rightarrow>
      case enc (en_log_id e) of
        Inl msg \<Rightarrow> (Inl (Codec msg), db1)
      | Inr last_applied \<Rightarrow>
          (case apply_entries fp H V enc es (save_raft_meta ''last_applied_log_id'' (Some last_applied) db1) of
             (r, db2) \<Rightarrow> (res_bind r (\<lambda>responses. Inr (response # responses)), db2)))"

definition apply_raft_entries ::
  "bool \<Rightarrow> digest \<Rightarrow> 'p stark_lib \<Rightarrow> (log_id \<Rightarrow> string + bytes) \<Rightarrow> 'm raft_entry list \<Rightarrow> bytes option \<Rightarrow> ledger_db
     \<Rightarrow> (ledger_error + ledger_response list) \<times> ledger_db" where
  "apply_raft_entries fp H V enc entries last_membership db =
     (case apply_entries fp H V enc entries db of
        (Inl e, db') \<Rightarrow> (Inl e, db')
      | (Inr responses, db') \<Rightarrow>
          (Inr responses,
           case last_membership of None \<Rightarrow> db' | Some m \<Rightarrow> save_raft_meta ''last_membership'' (Some m) db'))"

section \<open>The writer thread\<close>

text \<open>
  What a file is to \<open>ATTACH DATABASE\<close>: not a database, a database without the ledger's tables
  (a file of no bytes, or one that SQLite creates because it is missing), or a set of tables.
\<close>

datatype sqlite_file = NotADatabase | NoTables | Tables ledger_db

record 'p ledger_env =
  le_digest :: digest
  le_stark :: "'p stark_lib"
  le_enc_log_id :: "log_id \<Rightarrow> string + bytes"
  le_vacuum :: "ledger_db \<Rightarrow> bytes"
  le_open :: "bytes \<Rightarrow> sqlite_file"
  le_dir :: string
  le_writer_close :: bool

text \<open>
  The documented behaviour of SQLite that snapshots rely on: a copy that opens holds the tables
  that were copied, and a file of no bytes is an empty database.
\<close>

definition sqlite_laws :: "'p ledger_env \<Rightarrow> bool" where
  "sqlite_laws E \<longleftrightarrow>
     (\<forall>db db'. le_open E (le_vacuum E db) = Tables db' \<longrightarrow> db' = db) \<and> le_open E [] = NoTables"

text \<open>The copy of these tables can be opened.\<close>

definition readable_image :: "'p ledger_env \<Rightarrow> ledger_db \<Rightarrow> bool" where
  "readable_image E db \<longleftrightarrow> le_open E (le_vacuum E db) = Tables db"

record writer_state =
  ws_db :: ledger_db
  ws_attached :: bool
  ws_files :: "string \<rightharpoonup> bytes"

definition snapshot_path :: "string \<Rightarrow> string \<Rightarrow> string" where
  "snapshot_path dir snapshot_id = dir @ ''/snapshot-'' @ snapshot_id @ ''.sqlite''"

definition snapshot :: "'p ledger_env \<Rightarrow> string \<Rightarrow> writer_state \<Rightarrow> (ledger_error + string) \<times> writer_state" where
  "snapshot E snapshot_id st =
     (let path = snapshot_path (le_dir E) snapshot_id
      in (Inr path, st\<lparr>ws_files := (ws_files st)(path \<mapsto> le_vacuum E (ws_db st))\<rparr>))"

text \<open>An error after \<open>ATTACH\<close> rolls the transaction back but leaves \<open>snapshot_db\<close> attached.\<close>

definition restore_snapshot :: "'p ledger_env \<Rightarrow> string \<Rightarrow> writer_state \<Rightarrow> (ledger_error + unit) \<times> writer_state" where
  "restore_snapshot E path st =
     (if ws_attached st then (Inl (LedgerSqlite ''database snapshot_db is already in use''), st)
      else case (case ws_files st path of None \<Rightarrow> NoTables | Some b \<Rightarrow> le_open E b) of
        NotADatabase \<Rightarrow> (Inl (LedgerSqlite ''file is not a database''), st)
      | NoTables \<Rightarrow> (Inl (LedgerSqlite ''no such table: snapshot_db.raft_log''), st\<lparr>ws_attached := True\<rparr>)
      | Tables db' \<Rightarrow> (Inr (), st\<lparr>ws_db := db', ws_files := (ws_files st)(path := None)\<rparr>))"

datatype 'm write_cmd =
  CmdApplyClaim u64 omega_commitment claim_tx
| CmdCheckpointWalTruncate
| CmdSnapshot string
| CmdRestoreSnapshot string
| CmdInsertSyntheticClaim u8 u64 u64
| CmdSaveRaftMeta string "bytes option"
| CmdAppendRaftLogs "raft_log_row list"
| CmdDeleteRaftLogsSince u64
| CmdPurgeRaftLogsUpto u64 bytes
| CmdApplyRaftEntries "'m raft_entry list" "bytes option"

datatype write_reply =
  ReplyUnit "ledger_error + unit"
| ReplyPath "ledger_error + string"
| ReplyResponses "ledger_error + ledger_response list"

definition on_db :: "('r \<Rightarrow> write_reply) \<Rightarrow> (ledger_db \<Rightarrow> 'r \<times> ledger_db) \<Rightarrow> writer_state \<Rightarrow> write_reply \<times> writer_state" where
  "on_db reply f st = (case f (ws_db st) of (r, db') \<Rightarrow> (reply r, st\<lparr>ws_db := db'\<rparr>))"

text \<open>One turn of the loop of \<open>run_writer\<close>.\<close>

fun writer_step :: "'p ledger_env \<Rightarrow> 'm write_cmd \<Rightarrow> writer_state \<Rightarrow> write_reply \<times> writer_state" where
  "writer_step E (CmdApplyClaim block_idx cm claim) st =
     on_db ReplyUnit (apply_claim_tx (le_writer_close E) (le_digest E) (le_stark E) block_idx cm claim) st"
| "writer_step E CmdCheckpointWalTruncate st = (ReplyUnit (Inr ()), st)"
| "writer_step E (CmdSnapshot snapshot_id) st = map_prod ReplyPath id (snapshot E snapshot_id st)"
| "writer_step E (CmdRestoreSnapshot path) st = map_prod ReplyUnit id (restore_snapshot E path st)"
| "writer_step E (CmdInsertSyntheticClaim sub_tree_id leaf_index block_idx) st =
     on_db ReplyUnit (insert_synthetic_claim (le_digest E) sub_tree_id leaf_index block_idx) st"
| "writer_step E (CmdSaveRaftMeta key v) st = on_db ReplyUnit (\<lambda>db. (Inr (), save_raft_meta key v db)) st"
| "writer_step E (CmdAppendRaftLogs rows) st = on_db ReplyUnit (append_raft_logs rows) st"
| "writer_step E (CmdDeleteRaftLogsSince log_idx) st = on_db ReplyUnit (delete_raft_logs_since log_idx) st"
| "writer_step E (CmdPurgeRaftLogsUpto log_idx last_purged) st =
     on_db ReplyUnit (purge_raft_logs_upto log_idx last_purged) st"
| "writer_step E (CmdApplyRaftEntries entries last_membership) st =
     on_db ReplyResponses
       (apply_raft_entries (le_writer_close E) (le_digest E) (le_stark E) (le_enc_log_id E) entries last_membership) st"

fun run_writer :: "'p ledger_env \<Rightarrow> 'm write_cmd list \<Rightarrow> writer_state \<Rightarrow> write_reply list \<times> writer_state" where
  "run_writer E [] st = ([], st)"
| "run_writer E (cmd # cmds) st =
     (case writer_step E cmd st of (r, st1) \<Rightarrow>
      case run_writer E cmds st1 of (rs, st2) \<Rightarrow> (r # rs, st2))"

section \<open>Readers\<close>

definition nullifier_exists :: "u8 \<Rightarrow> u64 \<Rightarrow> ledger_db \<Rightarrow> ledger_error + bool" where
  "nullifier_exists sub_tree_id leaf_index db =
     res_bind (sqlite_i64 ''leaf_index'' leaf_index) (\<lambda>i.
     Inr (nullifiers db (nullifier_key sub_tree_id i) \<noteq> None))"

definition starstream_utxo_count :: "ledger_db \<Rightarrow> nat" where
  "starstream_utxo_count db = card (dom (starstream_utxos db))"

definition nullifier_count :: "ledger_db \<Rightarrow> nat" where
  "nullifier_count db = card (dom (nullifiers db))"

section \<open>What a claim does to the tables\<close>

definition i64_ok :: "u64 \<Rightarrow> bool" where
  "i64_ok v \<longleftrightarrow> unat v < 2 ^ 63"

lemma sqlite_i64_Inr [simp]: "sqlite_i64 field v = Inr i \<longleftrightarrow> i64_ok v \<and> i = uint v"
  by (auto simp: sqlite_i64_def i64_ok_def)

lemma insert_row_Inr [simp]: "insert_row k v t = Inr t' \<longleftrightarrow> k \<notin> dom t \<and> t' = t(k \<mapsto> v)"
  by (auto simp: insert_row_def)

lemma transaction_Inr: "transaction body db = (Inr u, db') \<longleftrightarrow> body db = Inr db'"
  by (auto simp: transaction_def split: sum.splits)

lemma transaction_Inl: "transaction body db = (Inl e, db') \<longleftrightarrow> body db = Inl e \<and> db' = db"
  by (auto simp: transaction_def split: sum.splits)

definition claim_key :: "claim_public_inputs \<Rightarrow> int \<times> int" where
  "claim_key p = nullifier_key (cp_sub_tree_id p) (uint (cp_leaf_index p))"

definition credit_row :: "claim_public_inputs \<Rightarrow> claim_witness \<Rightarrow> int \<Rightarrow> utxo_row" where
  "credit_row p w bi = \<lparr>ur_recipient = cp_recipient_starstream_addr p,
     ur_value = uint (payload_value (cw_leaf_payload w)), ur_asset_blob = [],
     ur_datum = None, ur_script_ref = None, ur_block_idx = bi, ur_spent_in = None\<rparr>"

text \<open>The rows that a batch adds to \<open>starstream_utxos\<close>, from the ordinal \<open>n\<close> on.\<close>

fun credits :: "digest \<Rightarrow> u64 \<Rightarrow> nat \<Rightarrow> (claim_public_inputs \<times> claim_witness) list \<Rightarrow> (hash \<times> utxo_row) list" where
  "credits H b n [] = []"
| "credits H b n ((p, w) # xs) =
     (starstream_utxo_id H (cp_recipient_starstream_addr p) (cw_leaf_payload w) b (as_u64 n),
      credit_row p w (uint b)) # credits H b (Suc n) xs"

definition claim_nulls :: "u64 \<Rightarrow> claim_public_inputs list \<Rightarrow> ((int \<times> int) \<times> int) list" where
  "claim_nulls b ps = map (\<lambda>p. (claim_key p, uint b)) ps"

lemma claim_nulls_simps [simp]:
  "claim_nulls b [] = []"
  "claim_nulls b (p # ps) = (claim_key p, uint b) # claim_nulls b ps"
  by (simp_all add: claim_nulls_def)

lemma insert_nullifier_Inr:
  "insert_nullifier p bi db = Inr db' \<longleftrightarrow> i64_ok (cp_leaf_index p) \<and> claim_key p \<notin> dom (nullifiers db)
     \<and> db' = db\<lparr>nullifiers := (nullifiers db)(claim_key p \<mapsto> bi)\<rparr>"
  by (auto simp: insert_nullifier_def claim_key_def)

lemma insert_starstream_utxo_Inr:
  "insert_starstream_utxo H p w b n bi db = Inr db' \<longleftrightarrow> i64_ok (payload_value (cw_leaf_payload w))
     \<and> starstream_utxo_id H (cp_recipient_starstream_addr p) (cw_leaf_payload w) b n \<notin> dom (starstream_utxos db)
     \<and> db' = db\<lparr>starstream_utxos := (starstream_utxos db)
         (starstream_utxo_id H (cp_recipient_starstream_addr p) (cw_leaf_payload w) b n \<mapsto> credit_row p w bi)\<rparr>"
  by (auto simp: insert_starstream_utxo_def credit_row_def Let_def)

definition fresh_rows :: "('k \<times> 'v) list \<Rightarrow> ('k \<rightharpoonup> 'v) \<Rightarrow> bool" where
  "fresh_rows rows t \<longleftrightarrow> distinct (map fst rows) \<and> set (map fst rows) \<inter> dom t = {}"

lemma fresh_rows_Nil [simp]: "fresh_rows [] t"
  by (simp add: fresh_rows_def)

lemma fresh_rows_Cons: "fresh_rows ((k, v) # rows) t \<longleftrightarrow> k \<notin> dom t \<and> fresh_rows rows (t(k \<mapsto> v))"
  by (auto simp: fresh_rows_def)

lemma fresh_rows_insert:
  "fresh_rows ((k, v) # rows) t \<Longrightarrow> t(k \<mapsto> v) ++ map_of rows = t ++ map_of ((k, v) # rows)"
  by (simp add: fresh_rows_def map_add_upd_left dom_map_of_conv_image_fst)

lemma insert_claims_Inr:
  "insert_claims H b (uint b) n xs db = Inr db' \<longleftrightarrow>
     list_all (\<lambda>(p, w). i64_ok (cp_leaf_index p) \<and> i64_ok (payload_value (cw_leaf_payload w))) xs
     \<and> fresh_rows (claim_nulls b (map fst xs)) (nullifiers db) \<and> fresh_rows (credits H b n xs) (starstream_utxos db)
     \<and> db' = db\<lparr>nullifiers := nullifiers db ++ map_of (claim_nulls b (map fst xs)),
         starstream_utxos := starstream_utxos db ++ map_of (credits H b n xs)\<rparr>"
proof (induction xs arbitrary: n db)
  case Nil
  then show ?case by auto
next
  case (Cons x xs)
  obtain p w where x: "x = (p, w)" by (cases x)
  show ?case
    unfolding x list.map fst_conv claim_nulls_simps insert_claims.simps credits.simps res_bind_eq_Inr insert_nullifier_Inr
      insert_starstream_utxo_Inr fresh_rows_Cons Cons.IH map_of.simps fst_conv snd_conv map_add_upd
    by (auto simp: map_add_upd_left dom_map_of_conv_image_fst fresh_rows_def) (simp_all add: fun_upd_def)
qed

lemma reject_replays_Inr:
  "reject_replays ps db = Inr u \<longleftrightarrow> list_all (\<lambda>p. i64_ok (cp_leaf_index p) \<and> claim_key p \<notin> dom (nullifiers db)) ps"
  by (induction ps) (auto simp: reject_replay_def guard_eq_Inr claim_key_def)

fun claim_publics :: "claim_tx \<Rightarrow> claim_public_inputs list" where
  "claim_publics (ClaimTxUtxo c) = [cu_public c]"
| "claim_publics (ClaimTxCollection c) = cc_public c"

fun claim_witnesses :: "claim_tx \<Rightarrow> claim_witness list" where
  "claim_witnesses (ClaimTxUtxo c) = [cu_witness c]"
| "claim_witnesses (ClaimTxCollection c) = cc_witness c"

definition claim_pairs :: "claim_tx \<Rightarrow> (claim_public_inputs \<times> claim_witness) list" where
  "claim_pairs c = zip (claim_publics c) (claim_witnesses c)"

lemma parse_claim_Inr:
  "parse_claim c = Inr pc \<longleftrightarrow> length (claim_publics c) = length (claim_witnesses c)
     \<and> pc = \<lparr>pc_public_inputs = claim_publics c, pc_witnesses = claim_witnesses c, pc_proof = claim_proof c\<rparr>"
  by (cases c) auto

text \<open>When the ledger accepts a claim, and the tables afterwards.\<close>

definition claim_admissible ::
  "digest \<Rightarrow> 'p stark_lib \<Rightarrow> u64 \<Rightarrow> omega_commitment \<Rightarrow> claim_tx \<Rightarrow> ledger_db \<Rightarrow> bool" where
  "claim_admissible H V b cm c db \<longleftrightarrow>
     i64_ok b \<and> length (claim_publics c) = length (claim_witnesses c)
     \<and> verify H V cm (claim_publics c) (claim_proof c) = Inr ()
     \<and> list_all (\<lambda>p. i64_ok (cp_leaf_index p)) (claim_publics c)
     \<and> list_all (\<lambda>w. i64_ok (payload_value (cw_leaf_payload w))) (claim_witnesses c)
     \<and> fresh_rows (claim_nulls b (claim_publics c)) (nullifiers db)
     \<and> fresh_rows (credits H b 0 (claim_pairs c)) (starstream_utxos db)"

definition claim_effect :: "digest \<Rightarrow> u64 \<Rightarrow> claim_tx \<Rightarrow> ledger_db \<Rightarrow> ledger_db" where
  "claim_effect H b c db = db\<lparr>nullifiers := nullifiers db ++ map_of (claim_nulls b (claim_publics c)),
     starstream_utxos := starstream_utxos db ++ map_of (credits H b 0 (claim_pairs c))\<rparr>"

lemma list_all_zip_conj:
  "length xs = length ys \<Longrightarrow> list_all (\<lambda>(x, y). P x \<and> Q y) (zip xs ys) \<longleftrightarrow> list_all P xs \<and> list_all Q ys"
  by (induction xs ys rule: list_induct2) auto

lemma apply_claim_body_Inr:
  assumes "length ps = length ws"
  shows "apply_claim_body H b (uint b) \<lparr>pc_public_inputs = ps, pc_witnesses = ws, pc_proof = prf\<rparr> db = Inr db' \<longleftrightarrow>
    list_all (\<lambda>p. i64_ok (cp_leaf_index p)) ps \<and> list_all (\<lambda>w. i64_ok (payload_value (cw_leaf_payload w))) ws
    \<and> fresh_rows (claim_nulls b ps) (nullifiers db) \<and> fresh_rows (credits H b 0 (zip ps ws)) (starstream_utxos db)
    \<and> db' = db\<lparr>nullifiers := nullifiers db ++ map_of (claim_nulls b ps),
        starstream_utxos := starstream_utxos db ++ map_of (credits H b 0 (zip ps ws))\<rparr>"
proof -
  have "fresh_rows (claim_nulls b ps) (nullifiers db) \<Longrightarrow> list_all (\<lambda>p. claim_key p \<notin> dom (nullifiers db)) ps"
    by (auto simp: fresh_rows_def claim_nulls_def list_all_iff)
  with assms show ?thesis
    unfolding apply_claim_body_def parsed_claim.simps res_bind_eq_Inr reject_replays_Inr insert_claims_Inr
      list_all_zip_conj [OF assms] map_fst_zip [OF assms]
    by (auto simp: list_all_iff)
qed

lemma apply_claim_tx_Inr:
  "apply_claim_tx fp H V b cm c db = (Inr u, db') \<longleftrightarrow> \<not> fp \<and> claim_admissible H V b cm c db \<and> db' = claim_effect H b c db"
proof -
  let ?pc = "\<lparr>pc_public_inputs = claim_publics c, pc_witnesses = claim_witnesses c, pc_proof = claim_proof c\<rparr>"
  have "apply_claim_tx fp H V b cm c db = (Inr u, db') \<longleftrightarrow>
    \<not> fp \<and> i64_ok b \<and> length (claim_publics c) = length (claim_witnesses c)
    \<and> verify H V cm (claim_publics c) (claim_proof c) = Inr () \<and> apply_claim_body H b (uint b) ?pc db = Inr db'"
    (is "?l \<longleftrightarrow> ?r")
  proof
    assume ?l
    then show ?r
      by (auto simp: apply_claim_tx_def parse_claim_Inr transaction_Inr split: sum.splits if_splits)
  next
    assume ?r
    moreover from this have "sqlite_i64 ''block_idx'' b = Inr (uint b)" "parse_claim c = Inr ?pc"
      by (simp_all add: parse_claim_Inr)
    ultimately show ?l by (simp add: apply_claim_tx_def transaction_Inr del: sqlite_i64_Inr)
  qed
  then show ?thesis
    by (auto simp: apply_claim_body_Inr claim_admissible_def claim_effect_def claim_pairs_def)
qed

lemma apply_claim_tx_Inl: "apply_claim_tx fp H V b cm c db = (Inl e, db') \<Longrightarrow> db' = db"
  by (auto simp: apply_claim_tx_def transaction_Inl split: sum.splits if_splits)

section \<open>Registers of claims\<close>

text \<open>
  The contract of a component that records claims: a step reports the keys it claimed, they were
  not recorded before, and they are the only ones that are recorded afterwards in addition.
\<close>

locale claim_register =
  fixes step :: "'c \<Rightarrow> 's \<Rightarrow> 'r \<times> 's"
    and spent :: "'s \<Rightarrow> 'k set"
    and claims :: "'c \<Rightarrow> 'r \<Rightarrow> 'k list"
    and ok :: "'c \<Rightarrow> bool"
  assumes step_claims: "ok c \<Longrightarrow> step c s = (r, s') \<Longrightarrow>
    distinct (claims c r) \<and> set (claims c r) \<inter> spent s = {} \<and> spent s' = spent s \<union> set (claims c r)"
begin

lemma run_claims:
  "list_all ok cs \<Longrightarrow> run_steps step cs s = (rs, s') \<Longrightarrow>
   distinct (concat (map2 claims cs rs)) \<and> set (concat (map2 claims cs rs)) \<inter> spent s = {}
     \<and> spent s' = spent s \<union> set (concat (map2 claims cs rs))"
proof (induction cs arbitrary: s rs)
  case Nil
  then show ?case by simp
next
  case (Cons c cs)
  from Cons.prems(2) obtain r s1 rs' where r: "step c s = (r, s1)" "run_steps step cs s1 = (rs', s')" "rs = r # rs'"
    by (auto simp: run_steps_Cons simp del: run_steps.simps(2))
  from Cons.prems(1) have "ok c" "list_all ok cs" by simp_all
  with Cons.IH [OF _ r(2)] step_claims [OF _ r(1)]
  have "distinct (claims c r)" "set (claims c r) \<inter> spent s = {}" "spent s1 = spent s \<union> set (claims c r)"
    "distinct (concat (map2 claims cs rs'))" "set (concat (map2 claims cs rs')) \<inter> spent s1 = {}"
    "spent s' = spent s1 \<union> set (concat (map2 claims cs rs'))"
    by blast+
  then show ?case by (simp only: r(3) zip_Cons_Cons list.map prod.case concat.simps distinct_append set_append) blast
qed

end

definition entry_step ::
  "bool \<Rightarrow> digest \<Rightarrow> 'p stark_lib \<Rightarrow> (log_id \<Rightarrow> string + bytes) \<Rightarrow> 'm raft_entry \<Rightarrow> ledger_db \<Rightarrow> ledger_response \<times> ledger_db" where
  "entry_step fp H V enc e db =
     map_prod id (save_raft_meta ''last_applied_log_id'' (Some (projr (enc (en_log_id e))))) (apply_payload fp H V (en_payload e) db)"

lemma apply_entries_run:
  "list_all (\<lambda>e. \<not> isl (enc (en_log_id e))) es \<Longrightarrow>
   apply_entries fp H V enc es db = map_prod Inr id (run_steps (entry_step fp H V enc) es db)"
proof (induction es arbitrary: db)
  case (Cons e es)
  then show ?case
    by (cases "enc (en_log_id e)") (auto simp: entry_step_def split: prod.splits)
qed simp

definition entry_claims :: "'m raft_entry \<Rightarrow> ledger_response \<Rightarrow> (int \<times> int) list" where
  "entry_claims e r = (case en_payload e of
     Normal cmd \<Rightarrow> if lr_accepted r then map claim_key (claim_publics (lc_claim cmd)) else [] | _ \<Rightarrow> [])"

lemma nullifiers_save_raft_meta [simp]:
  "nullifiers (save_raft_meta k v db) = nullifiers db"
  "starstream_utxos (save_raft_meta k v db) = starstream_utxos db"
  "raft_log (save_raft_meta k v db) = raft_log db"
  "genesis (save_raft_meta k v db) = genesis db"
  by (simp_all add: save_raft_meta_def)

lemma claim_effect_spent: "dom (nullifiers (claim_effect H b c db)) = dom (nullifiers db) \<union> set (map claim_key (claim_publics c))"
  by (auto simp: claim_effect_def claim_nulls_def dom_map_of_conv_image_fst image_image)

lemma admissible_keys:
  "claim_admissible H V b cm c db \<Longrightarrow>
   distinct (map claim_key (claim_publics c)) \<and> set (map claim_key (claim_publics c)) \<inter> dom (nullifiers db) = {}"
  by (simp add: claim_admissible_def fresh_rows_def claim_nulls_def comp_def)

lemma apply_claim_tx_cases:
  obtains (accepted) "apply_claim_tx fp H V b cm c db = (Inr (), claim_effect H b c db)" "claim_admissible H V b cm c db" "\<not> fp"
  | (rejected) e where "apply_claim_tx fp H V b cm c db = (Inl e, db)" "fp \<or> \<not> claim_admissible H V b cm c db"
proof (cases "apply_claim_tx fp H V b cm c db")
  case (Pair r db')
  show ?thesis
  proof (cases r)
    case (Inl e)
    with Pair have "fp \<or> \<not> claim_admissible H V b cm c db"
      using apply_claim_tx_Inr [of fp H V b cm c db "()" "claim_effect H b c db"] by auto
    with Pair Inl show ?thesis using apply_claim_tx_Inl rejected by blast
  next
    case (Inr u)
    with Pair show ?thesis using apply_claim_tx_Inr [of fp H V b cm c db u db'] accepted by simp
  qed
qed

lemma response_accepted_simps [simp]: "lr_accepted response_accepted" "\<not> lr_accepted (response_rejected e)"
  by (simp_all add: response_accepted_def response_rejected_def)

text \<open>The three facts of the contract, for a single step.\<close>

definition claims_fresh :: "'k list \<Rightarrow> 'k set \<Rightarrow> 'k set \<Rightarrow> bool" where
  "claims_fresh ks s s' \<longleftrightarrow> distinct ks \<and> set ks \<inter> s = {} \<and> s' = s \<union> set ks"

lemma claims_fresh_Nil [simp]: "claims_fresh [] s s' \<longleftrightarrow> s' = s"
  by (auto simp: claims_fresh_def)

definition accepted_keys :: "'e + unit \<Rightarrow> claim_tx \<Rightarrow> (int \<times> int) list" where
  "accepted_keys r c = (if isl r then [] else map claim_key (claim_publics c))"

lemma apply_claim_tx_claims:
  assumes "apply_claim_tx fp H V b cm c db = (r, db')"
  shows "claims_fresh (accepted_keys r c) (dom (nullifiers db)) (dom (nullifiers db'))"
proof (rule apply_claim_tx_cases [of fp H V b cm c db])
  assume *: "apply_claim_tx fp H V b cm c db = (Inr (), claim_effect H b c db)" "claim_admissible H V b cm c db"
  from *(1) assms have "r = Inr ()" "db' = claim_effect H b c db" by simp_all
  with admissible_keys [OF *(2)] show ?thesis
    by (simp add: accepted_keys_def claims_fresh_def claim_effect_spent)
next
  fix e assume "apply_claim_tx fp H V b cm c db = (Inl e, db)"
  with assms show ?thesis by (auto simp: accepted_keys_def)
qed

lemma entry_step_claims:
  assumes "entry_step fp H V enc e db = (r, db')"
  shows "claims_fresh (entry_claims e r) (dom (nullifiers db)) (dom (nullifiers db'))"
proof (cases "en_payload e")
  case (Normal cmd)
  obtain q db1 where q: "apply_claim_tx fp H V (lc_block_idx cmd) (lc_commitment cmd) (lc_claim cmd) db = (q, db1)"
    by fastforce
  with assms Normal have "entry_claims e r = accepted_keys q (lc_claim cmd)" "nullifiers db' = nullifiers db1"
    by (auto simp: entry_step_def entry_claims_def accepted_keys_def split: sum.splits)
  with apply_claim_tx_claims [OF q] show ?thesis by simp
qed (use assms in \<open>auto simp: entry_step_def entry_claims_def\<close>)

interpretation entry_register: claim_register "entry_step fp H V enc" "\<lambda>db. dom (nullifiers db)" entry_claims "\<lambda>_. True"
  for fp H V enc
  by unfold_locales (use entry_step_claims in \<open>unfold claims_fresh_def, blast\<close>)

lemma apply_raft_entries_claims:
  assumes "list_all (\<lambda>e. \<not> isl (enc (en_log_id e))) es" "apply_raft_entries fp H V enc es m db = (r, db')"
  shows "\<exists>rs. r = Inr rs \<and> length rs = length es
    \<and> claims_fresh (concat (map2 entry_claims es rs)) (dom (nullifiers db)) (dom (nullifiers db'))"
proof -
  obtain rs db1 where run: "run_steps (entry_step fp H V enc) es db = (rs, db1)" by fastforce
  with assms have "r = Inr rs" "nullifiers db' = nullifiers db1"
    by (auto simp: apply_raft_entries_def apply_entries_run split: option.splits)
  with entry_register.run_claims [OF _ run] run_steps_length [OF run] show ?thesis
    by (simp add: list_all_iff claims_fresh_def)
qed

fun cmd_claims :: "'m write_cmd \<Rightarrow> write_reply \<Rightarrow> (int \<times> int) list" where
  "cmd_claims (CmdApplyClaim b cm c) (ReplyUnit r) = accepted_keys r c"
| "cmd_claims (CmdInsertSyntheticClaim s i b) (ReplyUnit r) = (if isl r then [] else [nullifier_key s (uint i)])"
| "cmd_claims (CmdApplyRaftEntries es m) (ReplyResponses (Inr rs)) = concat (map2 entry_claims es rs)"
| "cmd_claims _ _ = []"

text \<open>Commands that do not replace the tables, with encodable log identifiers.\<close>

fun cmd_ordinary :: "'p ledger_env \<Rightarrow> 'm write_cmd \<Rightarrow> bool" where
  "cmd_ordinary E (CmdRestoreSnapshot path) = False"
| "cmd_ordinary E (CmdApplyRaftEntries es m) = list_all (\<lambda>e. \<not> isl (le_enc_log_id E (en_log_id e))) es"
| "cmd_ordinary E _ = True"

lemma insert_synthetic_claim_Inr:
  "insert_synthetic_claim H s i b db = (Inr u, db') \<Longrightarrow>
   nullifier_key s (uint i) \<notin> dom (nullifiers db) \<and> nullifiers db' = (nullifiers db)(nullifier_key s (uint i) \<mapsto> uint b)"
  by (auto simp: insert_synthetic_claim_def transaction_Inr Let_def split: sum.splits)

lemma insert_synthetic_claim_Inl: "insert_synthetic_claim H s i b db = (Inl e, db') \<Longrightarrow> db' = db"
  by (auto simp: insert_synthetic_claim_def transaction_Inl Let_def split: sum.splits)

lemma upsert_rows_keeps:
  "upsert_rows rows db = Inr db' \<Longrightarrow> nullifiers db' = nullifiers db \<and> starstream_utxos db' = starstream_utxos db"
  by (induction rows arbitrary: db) auto

lemma transaction_keeps:
  "(\<And>db'. body db = Inr db' \<Longrightarrow> f db' = f db) \<Longrightarrow> transaction body db = (r, db') \<Longrightarrow> f db' = f db"
  by (auto simp: transaction_def split: sum.splits)

lemma raft_log_ops_keep:
  "append_raft_logs rows db = (r, db') \<Longrightarrow> nullifiers db' = nullifiers db \<and> starstream_utxos db' = starstream_utxos db"
  "delete_raft_logs_since i db = (r, db') \<Longrightarrow> nullifiers db' = nullifiers db \<and> starstream_utxos db' = starstream_utxos db"
  "purge_raft_logs_upto i b db = (r, db') \<Longrightarrow> nullifiers db' = nullifiers db \<and> starstream_utxos db' = starstream_utxos db"
  by (auto simp: append_raft_logs_def delete_raft_logs_since_def purge_raft_logs_upto_def transaction_def
      split: sum.splits dest: upsert_rows_keeps)

lemma on_db_eq: "on_db reply f st = (r, st') \<longleftrightarrow> (\<exists>q db'. f (ws_db st) = (q, db') \<and> r = reply q \<and> st' = st\<lparr>ws_db := db'\<rparr>)"
  by (auto simp: on_db_def split: prod.splits)

lemma writer_step_claims:
  assumes "cmd_ordinary E c" "writer_step E c st = (r, st')"
  shows "claims_fresh (cmd_claims c r) (dom (nullifiers (ws_db st))) (dom (nullifiers (ws_db st')))"
proof (cases c)
  case (CmdApplyClaim b cm cl)
  with assms(2) apply_claim_tx_claims show ?thesis by (auto simp: on_db_eq)
next
  case (CmdInsertSyntheticClaim s i b)
  with assms(2) obtain q db' where q: "insert_synthetic_claim (le_digest E) s i b (ws_db st) = (q, db')"
    "r = ReplyUnit q" "st' = st\<lparr>ws_db := db'\<rparr>"
    by (auto simp: on_db_eq)
  with CmdInsertSyntheticClaim show ?thesis
    by (cases q) (auto simp: claims_fresh_def dest!: insert_synthetic_claim_Inr insert_synthetic_claim_Inl)
next
  case (CmdApplyRaftEntries es m)
  with assms obtain q db' where q: "apply_raft_entries (le_writer_close E) (le_digest E) (le_stark E) (le_enc_log_id E) es m (ws_db st) = (q, db')"
    "r = ReplyResponses q" "st' = st\<lparr>ws_db := db'\<rparr>"
    by (auto simp: on_db_eq)
  from assms(1) CmdApplyRaftEntries have "list_all (\<lambda>e. \<not> isl (le_enc_log_id E (en_log_id e))) es" by simp
  from apply_raft_entries_claims [OF this q(1)] q(2,3) CmdApplyRaftEntries show ?thesis by auto
qed (use assms in \<open>auto simp: on_db_eq snapshot_def Let_def dest: raft_log_ops_keep\<close>)

interpretation writer_register: claim_register "writer_step E" "\<lambda>st. dom (nullifiers (ws_db st))" cmd_claims "cmd_ordinary E"
  for E
  by unfold_locales (use writer_step_claims in \<open>unfold claims_fresh_def, blast\<close>)

lemma run_writer_run_steps: "run_writer E cmds st = run_steps (writer_step E) cmds st"
  by (induction cmds arbitrary: st) (auto split: prod.splits)

end
