(* ===== verification/Ledger_Safety.thy ===== *)
theory Ledger_Safety
  imports Mock_Ledger
begin

text \<open>
  Safety of the ledger over whole runs of its writer: the invariant of the tables, that no leaf is
  claimed twice, what a replay is answered with, snapshot and restore, and the places where a claim
  is judged by data that the claimant chooses.
\<close>

section \<open>Invariant of the tables\<close>

text \<open>
  Every nullifier comes with one credited row, keys and values are in the range of their source
  types and of SQLite's INTEGER.
\<close>

definition ledger_inv :: "ledger_db \<Rightarrow> bool" where
  "ledger_inv db \<longleftrightarrow>
     finite (dom (nullifiers db)) \<and> finite (dom (starstream_utxos db))
     \<and> card (dom (nullifiers db)) = card (dom (starstream_utxos db))
     \<and> dom (nullifiers db) \<subseteq> {0..<256} \<times> {0..<2 ^ 63}
     \<and> ran (starstream_utxos db) \<subseteq> {row. ur_value row \<in> {0..<2 ^ 63} \<and> ur_spent_in row = None}"

lemma card_fresh_rows:
  "fresh_rows rows t \<Longrightarrow> finite (dom t) \<Longrightarrow> card (dom (t ++ map_of rows)) = card (dom t) + length rows"
  using card_Un_disjoint [of "fst ` set rows" "dom t"] distinct_card [of "map fst rows"]
  unfolding fresh_rows_def dom_map_add dom_map_of_conv_image_fst by simp

lemma i64_ok_uint: "i64_ok v \<Longrightarrow> uint v < 2 ^ 63"
proof -
  assume "i64_ok v"
  then have "int (unat v) < int (2 ^ 63)" unfolding i64_ok_def by (subst of_nat_less_iff)
  then show ?thesis by simp
qed

lemma claim_key_range: "i64_ok (cp_leaf_index p) \<Longrightarrow> claim_key p \<in> {0..<256} \<times> {0..<2 ^ 63}"
  using uint_bounded [of "cp_sub_tree_id p"] i64_ok_uint [of "cp_leaf_index p"]
  by (simp add: claim_key_def nullifier_key_def)

lemma credits_length [simp]: "length (credits H b n xs) = length xs"
  by (induction H b n xs rule: credits.induct) auto

lemma credits_rows:
  "(k, row) \<in> set (credits H b n xs) \<Longrightarrow> \<exists>p w. (p, w) \<in> set xs \<and> row = credit_row p w (uint b)"
  by (induction H b n xs rule: credits.induct) auto

lemma ran_map_add_subset: "ran (t ++ map_of rows) \<subseteq> ran t \<union> snd ` set rows"
  by (force simp: ran_def map_add_Some_iff dest: map_of_SomeD)

lemma claim_effect_tables:
  "nullifiers (claim_effect H b c db) = nullifiers db ++ map_of (claim_nulls b (claim_publics c))"
  "starstream_utxos (claim_effect H b c db) = starstream_utxos db ++ map_of (credits H b 0 (claim_pairs c))"
  by (simp_all add: claim_effect_def)

lemma ledger_inv_effect:
  assumes "ledger_inv db" "claim_admissible H V b cm c db"
  shows "ledger_inv (claim_effect H b c db)"
proof -
  let ?nulls = "claim_nulls b (claim_publics c)" and ?creds = "credits H b 0 (claim_pairs c)"
  note inv = assms(1) [unfolded ledger_inv_def] and adm = assms(2) [unfolded claim_admissible_def]
  have "length ?nulls = length ?creds"
    using adm by (simp add: claim_nulls_def claim_pairs_def)
  with inv adm card_fresh_rows [of ?nulls "nullifiers db"] card_fresh_rows [of ?creds "starstream_utxos db"]
  have card: "card (dom (nullifiers db ++ map_of ?nulls)) = card (dom (starstream_utxos db ++ map_of ?creds))"
    by simp
  have nulls: "fst ` set ?nulls \<subseteq> {0..<256} \<times> {0..<2 ^ 63}"
    using adm claim_key_range unfolding claim_nulls_def set_map image_image fst_conv list_all_iff by blast
  have creds: "snd ` set ?creds \<subseteq> {row. ur_value row \<in> {0..<2 ^ 63} \<and> ur_spent_in row = None}"
  proof
    fix row assume "row \<in> snd ` set ?creds"
    then obtain k where "(k, row) \<in> set ?creds" by auto
    from credits_rows [OF this] obtain p w where "(p, w) \<in> set (claim_pairs c)" and row: "row = credit_row p w (uint b)"
      by blast
    then have "w \<in> set (claim_witnesses c)" by (auto simp: claim_pairs_def dest: set_zip_rightD)
    with adm have "i64_ok (payload_value (cw_leaf_payload w))" by (simp add: list_all_iff)
    with i64_ok_uint row show "row \<in> {row. ur_value row \<in> {0..<2 ^ 63} \<and> ur_spent_in row = None}"
      by (simp add: credit_row_def)
  qed
  have "dom (nullifiers db ++ map_of ?nulls) \<subseteq> {0..<256} \<times> {0..<2 ^ 63}"
    unfolding dom_map_add dom_map_of_conv_image_fst using nulls inv by (intro Un_least) blast+
  moreover have "ran (starstream_utxos db ++ map_of ?creds) \<subseteq> {row. ur_value row \<in> {0..<2 ^ 63} \<and> ur_spent_in row = None}"
    using ran_map_add_subset inv creds by (meson Un_least order_trans)
  moreover have "finite (dom (nullifiers db ++ map_of ?nulls))" "finite (dom (starstream_utxos db ++ map_of ?creds))"
    using inv by (simp_all add: finite_dom_map_of)
  ultimately show ?thesis
    unfolding ledger_inv_def claim_effect_tables using card by (intro conjI)
qed

lemma ledger_inv_cong:
  "nullifiers db' = nullifiers db \<Longrightarrow> starstream_utxos db' = starstream_utxos db \<Longrightarrow> ledger_inv db' = ledger_inv db"
  by (simp add: ledger_inv_def)

lemma ledger_inv_save [simp]: "ledger_inv (save_raft_meta k v db) = ledger_inv db"
  by (rule ledger_inv_cong) simp_all

lemma ledger_inv_apply_claim_tx: "ledger_inv db \<Longrightarrow> apply_claim_tx fp H V b cm c db = (r, db') \<Longrightarrow> ledger_inv db'"
  by (rule apply_claim_tx_cases [of fp H V b cm c db]) (auto intro: ledger_inv_effect)

lemma ledger_inv_insert:
  assumes "ledger_inv db" "k \<notin> dom (nullifiers db)" "k \<in> {0..<256} \<times> {0..<2 ^ 63}"
    and "u \<notin> dom (starstream_utxos db)" "ur_value row \<in> {0..<2 ^ 63}" "ur_spent_in row = None"
  shows "ledger_inv (db\<lparr>nullifiers := (nullifiers db)(k \<mapsto> v), starstream_utxos := (starstream_utxos db)(u \<mapsto> row)\<rparr>)"
proof -
  have "ran ((starstream_utxos db)(u \<mapsto> row)) = insert row (ran (starstream_utxos db))"
    using assms(4) by (intro ran_map_upd) (simp add: domIff)
  with assms show ?thesis by (simp add: ledger_inv_def)
qed

lemma ledger_inv_synthetic:
  assumes "ledger_inv db" "insert_synthetic_claim H s i b db = (r, db')"
  shows "ledger_inv db'"
proof (cases r)
  case (Inl e)
  with assms insert_synthetic_claim_Inl show ?thesis by blast
next
  case (Inr u)
  let ?v = "if i = - 1 then - 1 else i + 1"
  from Inr assms(2) obtain id where *: "i64_ok i" "i64_ok ?v" "nullifier_key s (uint i) \<notin> dom (nullifiers db)"
    "id \<notin> dom (starstream_utxos db)"
    "db' = db\<lparr>nullifiers := (nullifiers db)(nullifier_key s (uint i) \<mapsto> uint b), starstream_utxos := (starstream_utxos db)(id \<mapsto>
       \<lparr>ur_recipient = replicate 32 0xC7, ur_value = uint ?v, ur_asset_blob = [], ur_datum = None, ur_script_ref = None,
        ur_block_idx = uint b, ur_spent_in = None\<rparr>)\<rparr>"
    by (auto simp: insert_synthetic_claim_def transaction_Inr Let_def split: sum.splits)
  have "nullifier_key s (uint i) \<in> {0..<256} \<times> {0..<2 ^ 63}"
    using uint_bounded [of s] i64_ok_uint [OF *(1)] by (simp add: nullifier_key_def)
  with assms(1) *(3,4) i64_ok_uint [OF *(2)] show ?thesis
    unfolding *(5) by (intro ledger_inv_insert) auto
qed

lemma ledger_inv_entry_step: "ledger_inv db \<Longrightarrow> entry_step fp H V enc e db = (r, db') \<Longrightarrow> ledger_inv db'"
proof (cases "en_payload e")
  case (Normal cmd)
  obtain q db1 where q: "apply_claim_tx fp H V (lc_block_idx cmd) (lc_commitment cmd) (lc_claim cmd) db = (q, db1)"
    by fastforce
  assume "ledger_inv db" "entry_step fp H V enc e db = (r, db')"
  with Normal q ledger_inv_apply_claim_tx [OF _ q] show ?thesis
    by (auto simp: entry_step_def split: sum.splits)
qed (auto simp: entry_step_def)

lemma apply_entries_inv: "ledger_inv db \<Longrightarrow> apply_entries fp H V enc es db = (r, db') \<Longrightarrow> ledger_inv db'"
proof (induction es arbitrary: db r)
  case (Cons e es)
  obtain q db1 where q: "apply_payload fp H V (en_payload e) db = (q, db1)" by fastforce
  have inv: "ledger_inv db1"
    using ledger_inv_entry_step [OF Cons.prems(1), of fp H V "\<lambda>_. Inr []" e] q
    by (simp add: entry_step_def)
  show ?case
  proof (cases "enc (en_log_id e)")
    case (Inl msg)
    with q inv Cons.prems(2) show ?thesis by simp
  next
    case (Inr la)
    with Cons.prems(2) q obtain r1
      where r1: "apply_entries fp H V enc es (save_raft_meta ''last_applied_log_id'' (Some la) db1) = (r1, db')"
      by (auto split: prod.splits)
    from Cons.IH [OF _ r1] inv show ?thesis by simp
  qed
qed simp

text \<open>The invariant of the writer: the tables, and every snapshot file that holds tables.\<close>

definition writer_inv :: "'p ledger_env \<Rightarrow> writer_state \<Rightarrow> bool" where
  "writer_inv E st \<longleftrightarrow> ledger_inv (ws_db st)
     \<and> (\<forall>path b db. ws_files st path = Some b \<longrightarrow> le_open E b = Tables db \<longrightarrow> ledger_inv db)"

lemma writer_inv_db: "writer_inv E st \<Longrightarrow> ledger_inv db' \<Longrightarrow> writer_inv E (st\<lparr>ws_db := db'\<rparr>)"
  by (simp add: writer_inv_def)

lemma writer_inv_step:
  assumes "sqlite_laws E" "writer_inv E st" "writer_step E c st = (r, st')"
  shows "writer_inv E st'"
proof -
  from assms(2) have inv: "ledger_inv (ws_db st)" by (simp add: writer_inv_def)
  show ?thesis
  proof (cases c)
    case (CmdApplyClaim b cm cl)
    with assms inv show ?thesis by (auto simp: on_db_eq intro: writer_inv_db ledger_inv_apply_claim_tx)
  next
    case (CmdSnapshot sid)
    with assms show ?thesis by (auto simp: snapshot_def Let_def writer_inv_def sqlite_laws_def split: if_splits) blast
  next
    case (CmdRestoreSnapshot path)
    with assms show ?thesis
      by (auto simp: restore_snapshot_def writer_inv_def split: if_splits option.splits sqlite_file.splits)
  next
    case (CmdInsertSyntheticClaim s i b)
    with assms inv show ?thesis by (auto simp: on_db_eq intro: writer_inv_db ledger_inv_synthetic)
  next
    case (CmdSaveRaftMeta key v)
    with assms inv show ?thesis by (auto simp: on_db_eq intro!: writer_inv_db)
  next
    case (CmdApplyRaftEntries es m)
    with assms(3) obtain q db' where q: "apply_raft_entries (le_writer_close E) (le_digest E) (le_stark E) (le_enc_log_id E) es m (ws_db st) = (q, db')"
      "st' = st\<lparr>ws_db := db'\<rparr>"
      by (auto simp: on_db_eq)
    obtain q1 db1 where q1: "apply_entries (le_writer_close E) (le_digest E) (le_stark E) (le_enc_log_id E) es (ws_db st) = (q1, db1)" by fastforce
    from q(1) q1 have "nullifiers db' = nullifiers db1" "starstream_utxos db' = starstream_utxos db1"
      by (auto simp: apply_raft_entries_def split: sum.splits option.splits)
    with apply_entries_inv [OF inv q1] have "ledger_inv db'" using ledger_inv_cong by blast
    with assms(2) q(2) writer_inv_db show ?thesis by blast
  qed (use assms inv in \<open>auto simp: on_db_eq dest!: raft_log_ops_keep intro!: writer_inv_db dest: ledger_inv_cong\<close>)
qed

section \<open>Tables only grow\<close>

definition grows :: "ledger_db \<Rightarrow> ledger_db \<Rightarrow> bool" where
  "grows db db' \<longleftrightarrow> nullifiers db \<subseteq>\<^sub>m nullifiers db' \<and> starstream_utxos db \<subseteq>\<^sub>m starstream_utxos db'"

lemma grows_refl [simp]: "grows db db"
  by (simp add: grows_def)

lemma grows_trans: "grows a b \<Longrightarrow> grows b c \<Longrightarrow> grows a c"
  by (auto simp: grows_def intro: map_le_trans)

lemma grows_dom:
  "grows db db' \<Longrightarrow> dom (nullifiers db) \<subseteq> dom (nullifiers db') \<and> dom (starstream_utxos db) \<subseteq> dom (starstream_utxos db')"
  by (simp add: grows_def map_le_implies_dom_le)

lemma grows_cong: "nullifiers db' = nullifiers db \<Longrightarrow> starstream_utxos db' = starstream_utxos db \<Longrightarrow> grows db db'"
  by (simp add: grows_def)

lemma grows_save [simp]: "grows db (save_raft_meta k v db') \<longleftrightarrow> grows db db'"
  by (simp add: grows_def)

lemma map_le_fresh: "fresh_rows rows t \<Longrightarrow> t \<subseteq>\<^sub>m t ++ map_of rows"
proof -
  assume "fresh_rows rows t"
  then have "dom t \<inter> dom (map_of rows) = {}"
    by (simp add: fresh_rows_def dom_map_of_conv_image_fst Int_commute)
  then show ?thesis by (metis map_add_comm map_le_map_add)
qed

lemma grows_apply_claim_tx: "apply_claim_tx fp H V b cm c db = (r, db') \<Longrightarrow> grows db db'"
  by (rule apply_claim_tx_cases [of fp H V b cm c db])
     (auto simp: grows_def claim_effect_tables claim_admissible_def intro: map_le_fresh)

lemma grows_synthetic: "insert_synthetic_claim H s i b db = (r, db') \<Longrightarrow> grows db db'"
  by (auto simp: insert_synthetic_claim_def transaction_def Let_def grows_def insert_row_def map_le_def
      split: sum.splits if_splits)

lemma grows_payload: "apply_payload fp H V p db = (r, db') \<Longrightarrow> grows db db'"
  by (cases p) (auto split: prod.splits sum.splits dest: grows_apply_claim_tx)

lemma grows_entries: "apply_entries fp H V enc es db = (r, db') \<Longrightarrow> grows db db'"
proof (induction es arbitrary: db r)
  case (Cons e es)
  obtain q db1 where q: "apply_payload fp H V (en_payload e) db = (q, db1)" by fastforce
  show ?case
  proof (cases "enc (en_log_id e)")
    case (Inl msg)
    with q Cons.prems grows_payload show ?thesis by fastforce
  next
    case (Inr la)
    with Cons.prems q obtain r1
      where r1: "apply_entries fp H V enc es (save_raft_meta ''last_applied_log_id'' (Some la) db1) = (r1, db')"
      by (auto split: prod.splits)
    from Cons.IH [OF r1] grows_payload [OF q] show ?thesis by (simp add: grows_def) (meson map_le_trans)
  qed
qed simp

fun restores :: "'m write_cmd \<Rightarrow> bool" where
  "restores (CmdRestoreSnapshot path) = True"
| "restores _ = False"

lemma writer_step_grows:
  assumes "\<not> restores c" "writer_step E c st = (r, st')"
  shows "grows (ws_db st) (ws_db st')"
proof (cases c)
  case (CmdApplyRaftEntries es m)
  with assms(2) obtain q db' q1 db1 where
    q: "apply_raft_entries (le_writer_close E) (le_digest E) (le_stark E) (le_enc_log_id E) es m (ws_db st) = (q, db')" "st' = st\<lparr>ws_db := db'\<rparr>"
    and q1: "apply_entries (le_writer_close E) (le_digest E) (le_stark E) (le_enc_log_id E) es (ws_db st) = (q1, db1)"
    by (fastforce simp: on_db_eq)
  from q(1) q1 have "nullifiers db' = nullifiers db1" "starstream_utxos db' = starstream_utxos db1"
    by (auto simp: apply_raft_entries_def split: sum.splits option.splits)
  with grows_entries [OF q1] q(2) show ?thesis by (simp add: grows_def)
qed (use assms in \<open>auto simp: on_db_eq snapshot_def Let_def dest: grows_apply_claim_tx grows_synthetic
  dest!: raft_log_ops_keep intro: grows_cong\<close>)

lemma run_writer_grows:
  assumes "list_all (\<lambda>c. \<not> restores c) cmds" "run_writer E cmds st = (rs, st')"
  shows "grows (ws_db st) (ws_db st')"
proof (rule run_steps_invariant [where I = "\<lambda>s. grows (ws_db st) (ws_db s)" and ok = "\<lambda>c. \<not> restores c"])
  show "run_steps (writer_step E) cmds st = (rs, st')" using assms(2) by (simp add: run_writer_run_steps)
qed (use assms(1) writer_step_grows grows_trans in \<open>auto, blast\<close>)

section \<open>Replays and rejections\<close>

lemma reject_replays_spent:
  assumes "i64_ok (cp_leaf_index p)" "claim_key p \<in> dom (nullifiers db)"
  shows "reject_replays (p # ps) db = Inl (Replay (cp_sub_tree_id p) (cp_leaf_index p))"
  using assms by (auto simp: reject_replay_def claim_key_def sqlite_i64_def i64_ok_def)

text \<open>A claim of the right shape with a valid proof reaches the transaction.\<close>

lemma apply_claim_tx_body:
  assumes "i64_ok b" "length (claim_publics c) = length (claim_witnesses c)"
    and "verify H V cm (claim_publics c) (claim_proof c) = Inr ()"
  shows "apply_claim_tx False H V b cm c db = transaction (apply_claim_body H b (uint b)
    \<lparr>pc_public_inputs = claim_publics c, pc_witnesses = claim_witnesses c, pc_proof = claim_proof c\<rparr>) db"
proof -
  have "sqlite_i64 ''block_idx'' b = Inr (uint b)"
    "parse_claim c = Inr \<lparr>pc_public_inputs = claim_publics c, pc_witnesses = claim_witnesses c, pc_proof = claim_proof c\<rparr>"
    using assms(1,2) by (simp_all add: parse_claim_Inr)
  with assms(3) show ?thesis by (simp add: apply_claim_tx_def del: sqlite_i64_Inr)
qed

lemma admissible_shape:
  "claim_admissible H V b cm c db \<Longrightarrow> length (claim_publics c) = length (claim_witnesses c)
     \<and> verify H V cm (claim_publics c) (claim_proof c) = Inr () \<and> list_all (\<lambda>p. i64_ok (cp_leaf_index p)) (claim_publics c)"
  by (simp add: claim_admissible_def)

lemma replay_after_claim:
  assumes "claim_publics c = p # ps" "apply_claim_tx fp H V b cm c db = (Inr (), db1)" "grows db1 db2" "i64_ok b'"
  shows "apply_claim_tx fp H V b' cm c db2 = (Inl (Replay (cp_sub_tree_id p) (cp_leaf_index p)), db2)"
proof -
  from assms(2) have adm: "claim_admissible H V b cm c db" "db1 = claim_effect H b c db" and fp: "fp = False"
    by (simp_all add: apply_claim_tx_Inr)
  have "claim_key p \<in> dom (nullifiers db1)"
    using assms(1) by (simp add: adm(2) claim_effect_spent)
  with grows_dom [OF assms(3)] have spent: "claim_key p \<in> dom (nullifiers db2)" by blast
  note shape = admissible_shape [OF adm(1)]
  from shape assms(1) have "i64_ok (cp_leaf_index p)" by simp
  from reject_replays_spent [OF this spent] show ?thesis
    using shape assms(1,4) by (simp add: fp apply_claim_tx_body transaction_def apply_claim_body_def del: reject_replays.simps)
qed

lemma internal_errors:
  "sqlite_i64 f v = Inl e \<Longrightarrow> reject_class e = RejectInternal"
  "insert_row k x t = Inl e \<Longrightarrow> reject_class e = RejectInternal"
  by (auto simp: sqlite_i64_def insert_row_def split: if_splits)

lemma insert_errors_internal:
  "insert_nullifier p bi db = Inl e \<Longrightarrow> reject_class e = RejectInternal"
  "insert_starstream_utxo H p w b n bi db = Inl e \<Longrightarrow> reject_class e = RejectInternal"
  by (auto simp: insert_nullifier_def insert_starstream_utxo_def Let_def res_bind_eq_Inl dest: internal_errors)

lemma insert_claims_Inl: "insert_claims H b bi n xs db = Inl e \<Longrightarrow> reject_class e = RejectInternal"
  by (induction H b bi n xs db rule: insert_claims.induct) (auto simp: res_bind_eq_Inl dest: insert_errors_internal)

text \<open>A valid claim for unspent leaves that the ledger still rejects is answered as an internal error.\<close>

lemma rejected_internal:
  assumes "i64_ok b" "length (claim_publics c) = length (claim_witnesses c)"
    and "verify H V cm (claim_publics c) (claim_proof c) = Inr ()"
    and "list_all (\<lambda>p. i64_ok (cp_leaf_index p) \<and> claim_key p \<notin> dom (nullifiers db)) (claim_publics c)"
    and "\<not> claim_admissible H V b cm c db"
  shows "\<exists>e. apply_claim_tx False H V b cm c db = (Inl e, db) \<and> reject_class e = RejectInternal"
proof (rule apply_claim_tx_cases [of False H V b cm c db])
  fix e assume e: "apply_claim_tx False H V b cm c db = (Inl e, db)"
  from assms(4) have "reject_replays (claim_publics c) db = Inr ()" by (simp only: reject_replays_Inr)
  with e have "insert_claims H b (uint b) 0 (zip (claim_publics c) (claim_witnesses c)) db = Inl e"
    by (simp add: apply_claim_tx_body [OF assms(1,2,3)] transaction_Inl apply_claim_body_def)
  from insert_claims_Inl [OF this] e show ?thesis by blast
qed (use assms(5) in blast)

section \<open>Snapshots\<close>

fun touches_files :: "'m write_cmd \<Rightarrow> bool" where
  "touches_files (CmdSnapshot sid) = True"
| "touches_files (CmdRestoreSnapshot path) = True"
| "touches_files _ = False"

lemma writer_step_files:
  "\<not> touches_files c \<Longrightarrow> writer_step E c st = (r, st') \<Longrightarrow> ws_files st' = ws_files st \<and> ws_attached st' = ws_attached st"
  by (cases c) (auto simp: on_db_eq)

lemma run_writer_files:
  assumes "list_all (\<lambda>c. \<not> touches_files c) cmds" "run_writer E cmds st = (rs, st')"
  shows "ws_files st' = ws_files st \<and> ws_attached st' = ws_attached st"
proof (rule run_steps_invariant [where I = "\<lambda>s. ws_files s = ws_files st \<and> ws_attached s = ws_attached st"
      and ok = "\<lambda>c. \<not> touches_files c"])
  show "run_steps (writer_step E) cmds st = (rs, st')" using assms(2) by (simp add: run_writer_run_steps)
qed (use assms(1) in \<open>auto dest: writer_step_files\<close>)

lemma writer_step_attached: "ws_attached st \<Longrightarrow> writer_step E c st = (r, st') \<Longrightarrow> ws_attached st'"
  by (cases c) (auto simp: on_db_eq snapshot_def restore_snapshot_def Let_def)

lemma run_writer_attached: "ws_attached st \<Longrightarrow> run_writer E cmds st = (rs, st') \<Longrightarrow> ws_attached st'"
  by (rule run_steps_invariant [where I = ws_attached and ok = "\<lambda>_. True" and step = "writer_step E" and cs = cmds and s = st])
     (auto simp: run_writer_run_steps list_all_iff dest: writer_step_attached)

section \<open>Example\<close>

definition example_claim_witness :: claim_witness where
  "example_claim_witness = \<lparr>cw_leaf_payload = [2], cw_merkle_path = [], cw_signing_key_proof = []\<rparr>"

definition example_utxo_claim :: claim_utxo where
  "example_utxo_claim = \<lparr>cu_public = example_claim_public, cu_witness = example_claim_witness, cu_proof = ProofBytes [1]\<rparr>"

definition example_other_claim :: claim_utxo where
  "example_other_claim = \<lparr>cu_public = example_other_public, cu_witness = example_claim_witness, cu_proof = ProofBytes [2]\<rparr>"

definition example_twice_claim :: claim_collection where
  "example_twice_claim = \<lparr>cc_public = [example_claim_public, example_claim_public],
     cc_witness = [example_claim_witness, example_claim_witness], cc_proof = ProofBytes [3]\<rparr>"

lemmas example_claim_defs = example_utxo_claim_def example_other_claim_def example_twice_claim_def
  example_claim_witness_def

definition example_ledger_env :: "nat list ledger_env" where
  "example_ledger_env = \<lparr>le_digest = sum_digest, le_stark = example_stark, le_enc_log_id = (\<lambda>l. Inr [9]),
     le_vacuum = (\<lambda>db. if db = create_tables then [1] else [0]),
     le_open = (\<lambda>b. if b = [1] then Tables create_tables else if b = [] then NoTables else NotADatabase),
     le_dir = ''/d'', le_writer_close = False\<rparr>"

definition example_writer :: writer_state where
  "example_writer = \<lparr>ws_db = create_tables, ws_attached = False, ws_files = Map.empty\<rparr>"

definition example_cmds :: "unit write_cmd list" where
  "example_cmds = [CmdApplyClaim 0 example_commitment (ClaimTxUtxo example_utxo_claim), CmdInsertSyntheticClaim 2 5 0,
     CmdSnapshot ''a'']"

lemma example_leaf_index_ok: "i64_ok (cp_leaf_index example_claim_public)" "i64_ok (cp_leaf_index example_other_public)"
  by (simp_all add: i64_ok_def example_claim_public_def example_other_public_def)

lemma example_admissible:
  "claim_admissible sum_digest example_stark 0 example_commitment (ClaimTxUtxo example_utxo_claim) create_tables"
  using example_verifies(1) example_leaf_index_ok
  by (simp add: claim_admissible_def example_claim_defs claim_pairs_def payload_value_def i64_ok_def fresh_rows_def create_tables_def)

lemma example_sqlite_laws: "sqlite_laws example_ledger_env"
  by (simp add: sqlite_laws_def example_ledger_env_def)

lemma example_writer_inv: "writer_inv example_ledger_env example_writer"
  by (simp add: writer_inv_def example_writer_def ledger_inv_def create_tables_def)

section \<open>Properties\<close>

text \<open>
  C7. Applying a claim is atomic and exact: the claim is accepted exactly when it has the right
  shape, its proof verifies, its numbers fit SQLite, its leaves are pairwise different and
  unspent and its credited rows are new; then every leaf is recorded and one row per leaf is
  credited. In every other case, the fail point that closes the writer included, an error is
  returned and the tables are unchanged.
\<close>

theorem apply_claim_exact:
  "snd (apply_claim_tx fp H V b cm c db) = (if \<not> fp \<and> claim_admissible H V b cm c db then claim_effect H b c db else db)
    \<and> (fst (apply_claim_tx fp H V b cm c db) = Inr () \<longleftrightarrow> \<not> fp \<and> claim_admissible H V b cm c db)"
  by (rule apply_claim_tx_cases [of fp H V b cm c db]) auto

text \<open>
  C5. No leaf is claimed twice: over any run of the writer without a snapshot restore and with log
  identifiers that can be encoded, the leaves of all accepted claims (direct, synthetic or through raft entries) are pairwise different, none
  was recorded before the run, and the recorded leaves afterwards are exactly the earlier ones and
  the accepted ones.
\<close>

theorem no_leaf_claimed_twice:
  assumes "list_all (cmd_ordinary E) cmds" "run_writer E cmds st = (rs, st')"
  shows "distinct (concat (map2 cmd_claims cmds rs))
    \<and> set (concat (map2 cmd_claims cmds rs)) \<inter> dom (nullifiers (ws_db st)) = {}
    \<and> dom (nullifiers (ws_db st')) = dom (nullifiers (ws_db st)) \<union> set (concat (map2 cmd_claims cmds rs))"
  using writer_register.run_claims [OF assms(1)] assms(2) by (simp only: run_writer_run_steps)

theorem no_leaf_claimed_twice_witness:
  "\<exists>rs st'. run_writer example_ledger_env example_cmds example_writer = (rs, st')
    \<and> distinct (concat (map2 cmd_claims example_cmds rs))
    \<and> dom (nullifiers (ws_db st')) = set (concat (map2 cmd_claims example_cmds rs))"
proof -
  obtain rs st' where run: "run_writer example_ledger_env example_cmds example_writer = (rs, st')" by fastforce
  have "list_all (cmd_ordinary example_ledger_env) example_cmds" by (simp add: example_cmds_def)
  from no_leaf_claimed_twice [OF this run] run show ?thesis
    by (auto simp: example_writer_def create_tables_def)
qed

text \<open>
  C22. The writer keeps the invariant of the tables: as many credited rows as recorded leaves,
  identifiers and values within their ranges, through every command including restore of a
  snapshot the writer made.
\<close>

theorem writer_keeps_invariant:
  assumes "sqlite_laws E" "writer_inv E st" "run_writer E cmds st = (rs, st')"
  shows "writer_inv E st' \<and> nullifier_count (ws_db st') = starstream_utxo_count (ws_db st')"
proof -
  have "run_steps (writer_step E) cmds st = (rs, st')" "list_all (\<lambda>_. True) cmds"
    using assms(3) by (simp_all add: run_writer_run_steps list_all_iff)
  from run_steps_invariant [where I = "writer_inv E", OF _ this(2) assms(2) this(1)] writer_inv_step [OF assms(1)]
  have "writer_inv E st'" by blast
  then show ?thesis by (simp add: writer_inv_def ledger_inv_def nullifier_count_def starstream_utxo_count_def)
qed

theorem writer_keeps_invariant_witness:
  "\<exists>rs st'. run_writer example_ledger_env example_cmds example_writer = (rs, st')
    \<and> nullifier_count (ws_db st') = starstream_utxo_count (ws_db st')"
proof -
  obtain rs st' where run: "run_writer example_ledger_env example_cmds example_writer = (rs, st')" by fastforce
  from writer_keeps_invariant [OF example_sqlite_laws example_writer_inv run] run show ?thesis by blast
qed

text \<open>
  A replay is answered as such: once a claim was accepted, applying it again after any
  commands but a restore returns \<open>Replay\<close> for its first leaf and changes nothing.
\<close>

theorem replayed_claim_rejected:
  assumes "claim_publics c = p # ps" "apply_claim_tx (le_writer_close E) (le_digest E) (le_stark E) b cm c (ws_db st) = (Inr (), db1)"
    and "list_all (\<lambda>c. \<not> restores c) cmds" "run_writer E cmds (st\<lparr>ws_db := db1\<rparr>) = (rs, st')" "i64_ok b'"
  shows "apply_claim_tx (le_writer_close E) (le_digest E) (le_stark E) b' cm c (ws_db st') =
    (Inl (Replay (cp_sub_tree_id p) (cp_leaf_index p)), ws_db st')"
  using replay_after_claim [OF assms(1,2) _ assms(5)] run_writer_grows [OF assms(3,4)] by simp

theorem replayed_claim_rejected_witness:
  "\<exists>db1. apply_claim_tx False sum_digest example_stark 7 example_commitment (ClaimTxUtxo example_utxo_claim) db1 =
     (Inl (Replay 1 1), db1)"
proof -
  let ?c = "ClaimTxUtxo example_utxo_claim" and ?db = "claim_effect sum_digest 0 (ClaimTxUtxo example_utxo_claim) create_tables"
  have acc: "apply_claim_tx (le_writer_close example_ledger_env) (le_digest example_ledger_env) (le_stark example_ledger_env) 0 example_commitment ?c
      (ws_db example_writer) = (Inr (), ?db)"
    using example_admissible by (simp add: apply_claim_tx_Inr example_ledger_env_def example_writer_def)
  have p: "claim_publics ?c = example_claim_public # []" by (simp add: example_utxo_claim_def)
  have run: "run_writer example_ledger_env ([] :: unit write_cmd list) (example_writer\<lparr>ws_db := ?db\<rparr>) = ([], example_writer\<lparr>ws_db := ?db\<rparr>)"
    by simp
  from replayed_claim_rejected [OF p acc _ run, of 7] show ?thesis
    by (simp add: i64_ok_def example_ledger_env_def example_claim_public_def) blast
qed

text \<open>
  C23. Snapshot and restore: a snapshot, any commands that leave the snapshot files alone, and a
  restore of the snapshot bring back exactly the tables of the moment of the snapshot, raft
  metadata included, and remove the file.
\<close>

theorem snapshot_restore_round_trip:
  assumes "readable_image E (ws_db st)" "\<not> ws_attached st"
    and "snapshot E sid st = (Inr path, st1)" "list_all (\<lambda>c. \<not> touches_files c) cmds" "run_writer E cmds st1 = (rs, st2)"
  shows "restore_snapshot E path st2 =
    (Inr (), st2\<lparr>ws_db := ws_db st, ws_files := (ws_files st2)(path := None)\<rparr>)"
proof -
  from assms(3) have st1: "st1 = st\<lparr>ws_files := (ws_files st)(path \<mapsto> le_vacuum E (ws_db st))\<rparr>"
    by (auto simp: snapshot_def Let_def)
  from run_writer_files [OF assms(4,5)] assms(2)
  have "ws_files st2 path = Some (le_vacuum E (ws_db st))" "\<not> ws_attached st2" by (simp_all add: st1)
  with assms(1) show ?thesis by (simp add: restore_snapshot_def readable_image_def)
qed

theorem snapshot_restore_round_trip_witness:
  "\<exists>path st2. restore_snapshot example_ledger_env path st2 =
     (Inr (), st2\<lparr>ws_db := create_tables, ws_files := (ws_files st2)(path := None)\<rparr>)
     \<and> raft_meta (ws_db st2) ''vote'' = Some [1]"
proof -
  let ?st1 = "snd (snapshot example_ledger_env ''a'' example_writer)"
  let ?path = "snapshot_path ''/d'' ''a''" and ?cmds = "[CmdSaveRaftMeta ''vote'' (Some [1]) :: unit write_cmd]"
  have snap: "snapshot example_ledger_env ''a'' example_writer = (Inr ?path, ?st1)"
    by (simp add: snapshot_def Let_def example_ledger_env_def)
  obtain rs st2 where run: "run_writer example_ledger_env ?cmds ?st1 = (rs, st2)" by fastforce
  then have "raft_meta (ws_db st2) ''vote'' = Some [1]" by (auto simp: on_db_def save_raft_meta_def)
  moreover have "restore_snapshot example_ledger_env ?path st2 =
      (Inr (), st2\<lparr>ws_db := ws_db example_writer, ws_files := (ws_files st2)(?path := None)\<rparr>)"
    by (rule snapshot_restore_round_trip [OF _ _ snap _ run])
       (simp_all add: readable_image_def example_ledger_env_def example_writer_def)
  ultimately show ?thesis by (auto simp: example_writer_def)
qed

text \<open>
  A restore from a missing or empty file fails with the database still attached: the tables
  stay as they were, and from then on every restore of the writer fails, whatever the snapshot.
\<close>

theorem failed_restore_blocks_restores:
  assumes "sqlite_laws E" "\<not> ws_attached st" "ws_files st path = None \<or> ws_files st path = Some []"
    and "restore_snapshot E path st = (r, st1)" "run_writer E cmds st1 = (rs, st2)"
  shows "isl r \<and> ws_db st1 = ws_db st \<and> isl (fst (restore_snapshot E path' st2)) \<and> snd (restore_snapshot E path' st2) = st2"
proof -
  have "(case ws_files st path of None \<Rightarrow> NoTables | Some b \<Rightarrow> le_open E b) = NoTables"
    using assms(1,3) by (auto simp: sqlite_laws_def)
  with assms(2,4) have "isl r" "st1 = st\<lparr>ws_attached := True\<rparr>" by (auto simp: restore_snapshot_def)
  with run_writer_attached [OF _ assms(5)] show ?thesis by (simp add: restore_snapshot_def)
qed

theorem failed_restore_blocks_restores_witness:
  "\<exists>st2. isl (fst (restore_snapshot example_ledger_env (snapshot_path ''/d'' ''a'') st2))
     \<and> ws_files st2 (snapshot_path ''/d'' ''a'') = Some (le_vacuum example_ledger_env create_tables)"
proof -
  let ?cmds = "[CmdSnapshot ''a'' :: unit write_cmd]"
  obtain r st1 where res: "restore_snapshot example_ledger_env ''/missing'' example_writer = (r, st1)" by fastforce
  obtain rs st2 where run: "run_writer example_ledger_env ?cmds st1 = (rs, st2)" by fastforce
  have "isl r \<and> ws_db st1 = ws_db example_writer
    \<and> isl (fst (restore_snapshot example_ledger_env (snapshot_path ''/d'' ''a'') st2))
    \<and> snd (restore_snapshot example_ledger_env (snapshot_path ''/d'' ''a'') st2) = st2"
    by (rule failed_restore_blocks_restores [OF example_sqlite_laws _ _ res run]) (simp_all add: example_writer_def)
  with run show ?thesis
    by (intro exI [of _ st2]) (auto simp: snapshot_def Let_def example_writer_def example_ledger_env_def)
qed

text \<open>
  C24. The credited value is chosen by the claimant: the payload of the witness is not compared
  with the committed leaf, so an accepted claim stays acceptable with any other payload whose
  identifier is new, and the row then carries the value written into that payload.
\<close>

theorem witness_payload_chooses_value:
  assumes "claim_admissible H V b cm (ClaimTxUtxo c) db" "i64_ok v"
    and "payload = replicate 8 0 @ to_be_bytes v"
    and "uid = starstream_utxo_id H (cp_recipient_starstream_addr (cu_public c)) payload b 0"
    and "uid \<notin> dom (starstream_utxos db)"
  shows "\<exists>db' row. apply_claim_tx False H V b cm (ClaimTxUtxo (c\<lparr>cu_witness := (cu_witness c)\<lparr>cw_leaf_payload := payload\<rparr>\<rparr>)) db
      = (Inr (), db') \<and> starstream_utxos db' uid = Some row \<and> ur_value row = uint v"
proof -
  let ?c = "ClaimTxUtxo (c\<lparr>cu_witness := (cu_witness c)\<lparr>cw_leaf_payload := payload\<rparr>\<rparr>)"
  have v: "payload_value payload = v" by (simp add: assms(3) payload_value_def)
  have "claim_admissible H V b cm ?c db"
    using assms(1,2,5) by (simp add: claim_admissible_def claim_pairs_def v fresh_rows_def assms(4) as_u64_def)
  then have "apply_claim_tx False H V b cm ?c db = (Inr (), claim_effect H b ?c db)" by (simp add: apply_claim_tx_Inr)
  moreover have "starstream_utxos (claim_effect H b ?c db) uid = Some (credit_row (cu_public c) ((cu_witness c)\<lparr>cw_leaf_payload := payload\<rparr>) (uint b))"
    by (simp add: claim_effect_def claim_pairs_def assms(4) as_u64_def)
  ultimately show ?thesis by (auto simp: credit_row_def v)
qed

theorem witness_payload_chooses_value_witness:
  "\<exists>payload db' row uid. apply_claim_tx False sum_digest example_stark 0 example_commitment (ClaimTxUtxo
      (example_utxo_claim\<lparr>cu_witness := (cu_witness example_utxo_claim)\<lparr>cw_leaf_payload := payload\<rparr>\<rparr>)) create_tables
      = (Inr (), db') \<and> starstream_utxos db' uid = Some row \<and> ur_value row = 1000000"
  using witness_payload_chooses_value [OF example_admissible, of 1000000, OF _ refl refl]
  by (auto simp: i64_ok_def create_tables_def)

text \<open>
  C25. On the submission path the commitment is taken from the claim itself: the command built
  from a claim passes verification exactly when there is any commitment at all under which the
  proof verifies, so the check against a published commitment never fails there.
\<close>

theorem submitted_claim_brings_own_commitment:
  assumes "command_apply_claim V c = Inr cmd"
  shows "lc_claim cmd = c \<and> (verify H V (lc_commitment cmd) (claim_publics c) (claim_proof c) = Inr ()
    \<longleftrightarrow> (\<exists>cm. verify H V cm (claim_publics c) (claim_proof c) = Inr ()))"
proof -
  from assms obtain env where env: "dec_envelope V (proof_raw (claim_proof c)) = Some env"
    "cmd = \<lparr>lc_block_idx = 0, lc_commitment = pe_commitment env, lc_claim = c\<rparr>"
    by (auto simp: command_apply_claim_def)
  have "verify H V cm (claim_publics c) (claim_proof c) = Inr () \<Longrightarrow> cm = pe_commitment env" for cm
    using env(1) by (auto simp: verify_def guard_eq_Inr)
  with env(2) show ?thesis by auto
qed

theorem submitted_claim_brings_own_commitment_witness:
  "\<exists>cmd. command_apply_claim example_stark (ClaimTxUtxo example_utxo_claim) = Inr cmd
    \<and> verify sum_digest example_stark (lc_commitment cmd) [example_claim_public] (ProofBytes [1]) = Inr ()"
proof -
  let ?c = "ClaimTxUtxo example_utxo_claim"
  obtain cmd where cmd: "command_apply_claim example_stark ?c = Inr cmd"
    by (auto simp: command_apply_claim_def example_stark_def example_utxo_claim_def)
  with submitted_claim_brings_own_commitment [OF cmd, of sum_digest] example_verifies(1) show ?thesis
    by (auto simp: example_utxo_claim_def)
qed

text \<open>
  A batch that names one unspent leaf twice is rejected without effect, as an internal error
  and not as a replay: the replay check runs before the first insertion.
\<close>

theorem repeated_leaf_in_batch_is_internal:
  assumes "i64_ok b" "length (claim_publics c) = length (claim_witnesses c)"
    and "verify H V cm (claim_publics c) (claim_proof c) = Inr ()"
    and "list_all (\<lambda>p. i64_ok (cp_leaf_index p) \<and> claim_key p \<notin> dom (nullifiers db)) (claim_publics c)"
    and "\<not> distinct (map claim_key (claim_publics c))"
  shows "\<exists>e. apply_claim_tx False H V b cm c db = (Inl e, db) \<and> reject_class e = RejectInternal"
  using rejected_internal [OF assms(1-4)] admissible_keys assms(5) by blast

theorem repeated_leaf_in_batch_is_internal_witness:
  "\<exists>e. apply_claim_tx False sum_digest example_stark 0 example_commitment (ClaimTxCollection example_twice_claim) create_tables
     = (Inl e, create_tables) \<and> reject_class e = RejectInternal"
  using repeated_leaf_in_batch_is_internal [of 0 "ClaimTxCollection example_twice_claim" sum_digest example_stark
      example_commitment create_tables] example_verifies(3) example_leaf_index_ok(1)
  by (simp add: example_twice_claim_def i64_ok_def create_tables_def)

text \<open>
  C26. The identifier of a credited row does not depend on the claimed leaf: after an accepted
  claim, a valid claim of another unspent leaf in the same block index with the same recipient
  and payload is rejected as an internal error.
\<close>

theorem equal_credit_collides:
  assumes "apply_claim_tx (le_writer_close E) (le_digest E) (le_stark E) b cm (ClaimTxUtxo c1) (ws_db st) = (Inr (), db1)"
    and "list_all (\<lambda>c. \<not> restores c) cmds" "run_writer E cmds (st\<lparr>ws_db := db1\<rparr>) = (rs, st')"
    and "cp_recipient_starstream_addr (cu_public c2) = cp_recipient_starstream_addr (cu_public c1)"
      "cw_leaf_payload (cu_witness c2) = cw_leaf_payload (cu_witness c1)"
    and "verify (le_digest E) (le_stark E) cm2 [cu_public c2] (cu_proof c2) = Inr ()"
      "i64_ok (cp_leaf_index (cu_public c2))" "claim_key (cu_public c2) \<notin> dom (nullifiers (ws_db st'))"
  shows "\<exists>e. apply_claim_tx (le_writer_close E) (le_digest E) (le_stark E) b cm2 (ClaimTxUtxo c2) (ws_db st') = (Inl e, ws_db st')
    \<and> reject_class e = RejectInternal"
proof -
  let ?id = "starstream_utxo_id (le_digest E) (cp_recipient_starstream_addr (cu_public c1)) (cw_leaf_payload (cu_witness c1)) b 0"
  from assms(1) have adm: "claim_admissible (le_digest E) (le_stark E) b cm (ClaimTxUtxo c1) (ws_db st)"
    and db1: "db1 = claim_effect (le_digest E) b (ClaimTxUtxo c1) (ws_db st)" and fp: "le_writer_close E = False"
    by (simp_all add: apply_claim_tx_Inr)
  have "?id \<in> dom (starstream_utxos db1)" by (simp add: db1 claim_effect_def claim_pairs_def as_u64_def)
  with grows_dom [OF run_writer_grows [OF assms(2,3)]] have "?id \<in> dom (starstream_utxos (ws_db st'))" by auto
  with assms(4,5) have "\<not> claim_admissible (le_digest E) (le_stark E) b cm2 (ClaimTxUtxo c2) (ws_db st')"
    by (simp add: claim_admissible_def claim_pairs_def fresh_rows_def as_u64_def)
  with adm assms(6-) show ?thesis unfolding fp by (intro rejected_internal) (auto simp: claim_admissible_def)
qed

theorem equal_credit_collides_witness:
  "\<exists>db1 e. apply_claim_tx False sum_digest example_stark 0 example_commitment (ClaimTxUtxo example_utxo_claim) create_tables = (Inr (), db1)
    \<and> apply_claim_tx False sum_digest example_stark 0 example_commitment (ClaimTxUtxo example_other_claim) db1 = (Inl e, db1)
    \<and> reject_class e = RejectInternal"
proof -
  let ?db = "claim_effect sum_digest 0 (ClaimTxUtxo example_utxo_claim) create_tables"
  have acc: "apply_claim_tx (le_writer_close example_ledger_env) (le_digest example_ledger_env) (le_stark example_ledger_env) 0 example_commitment
      (ClaimTxUtxo example_utxo_claim) (ws_db example_writer) = (Inr (), ?db)"
    using example_admissible by (simp add: apply_claim_tx_Inr example_ledger_env_def example_writer_def)
  have run: "run_writer example_ledger_env ([] :: unit write_cmd list) (example_writer\<lparr>ws_db := ?db\<rparr>) = ([], example_writer\<lparr>ws_db := ?db\<rparr>)"
    by simp
  have key: "claim_key example_other_public \<notin> dom (nullifiers ?db)"
    by (simp add: claim_effect_spent create_tables_def example_utxo_claim_def claim_key_def nullifier_key_def
        example_other_public_def example_claim_public_def)
  from equal_credit_collides [OF acc _ run, of example_other_claim example_commitment] example_verifies(2) key acc
    example_leaf_index_ok(2)
  show ?thesis
    by (simp add: example_ledger_env_def example_writer_def example_other_claim_def example_utxo_claim_def example_other_public_def)
qed

end
