(* ===== verification/Raft_Storage.thy ===== *)
theory Raft_Storage
  imports Ledger_Safety
begin

text \<open>
  The storage adapter of \<open>omega-mock-ledger/src/storage.rs\<close> that \<open>openraft\<close> drives: log, vote,
  committed and applied markers and snapshots, kept in the ledger's own tables through the writer
  thread. The CBOR codec (\<open>ciborium\<close>) is the parameter \<open>C\<close>; files are the ones of the writer.
\<close>

section \<open>Types\<close>

record vote =
  vote_term :: u64
  vote_node_id :: u64
  vote_committed :: bool

record 'm stored_membership =
  sm_log_id :: "log_id option"
  sm_membership :: 'm

record 'm snapshot_meta =
  sn_last_log_id :: "log_id option"
  sn_last_membership :: "'m stored_membership"
  sn_snapshot_id :: string

record 'm raft_codec =
  enc_vote :: "vote \<Rightarrow> string + bytes"
  dec_vote :: "bytes \<Rightarrow> string + vote"
  enc_log_id :: "log_id \<Rightarrow> string + bytes"
  dec_log_id :: "bytes \<Rightarrow> string + log_id"
  enc_entry :: "'m raft_entry \<Rightarrow> string + bytes"
  dec_entry :: "bytes \<Rightarrow> string + 'm raft_entry"
  enc_membership :: "'m stored_membership \<Rightarrow> string + bytes"
  dec_membership :: "bytes \<Rightarrow> string + 'm stored_membership"
  enc_meta :: "'m snapshot_meta \<Rightarrow> string + bytes"
  dec_meta :: "bytes \<Rightarrow> string + 'm snapshot_meta"
  default_membership :: 'm

text \<open>The documented behaviour of the codec: what it encodes, it decodes.\<close>

definition codec_inverse :: "('a \<Rightarrow> string + bytes) \<Rightarrow> (bytes \<Rightarrow> string + 'a) \<Rightarrow> bool" where
  "codec_inverse enc dec \<longleftrightarrow> (\<forall>x b. enc x = Inr b \<longrightarrow> dec b = Inr x)"

definition codec_laws :: "'m raft_codec \<Rightarrow> bool" where
  "codec_laws C \<longleftrightarrow> codec_inverse (enc_vote C) (dec_vote C) \<and> codec_inverse (enc_log_id C) (dec_log_id C)
     \<and> codec_inverse (enc_entry C) (dec_entry C) \<and> codec_inverse (enc_membership C) (dec_membership C)
     \<and> codec_inverse (enc_meta C) (dec_meta C)"

datatype storage_error = StoRead string | StoWrite string

type_synonym 'a sto = "writer_state \<Rightarrow> (storage_error + 'a) \<times> writer_state"

section \<open>Codec and ranges\<close>

definition MAX_STORAGE_PAYLOAD_BYTES :: nat where
  "MAX_STORAGE_PAYLOAD_BYTES = 64 * 1024 * 1024"

definition too_large :: "bytes \<Rightarrow> string" where
  "too_large bytes = ''storage payload too large: '' @ show_nat (length bytes) @ '' > '' @ show_nat MAX_STORAGE_PAYLOAD_BYTES"

definition encode :: "('a \<Rightarrow> string + bytes) \<Rightarrow> 'a \<Rightarrow> storage_error + bytes" where
  "encode enc v =
     res_bind (map_err StoWrite (enc v)) (\<lambda>bytes.
       if length bytes > MAX_STORAGE_PAYLOAD_BYTES then Inl (StoWrite (too_large bytes)) else Inr bytes)"

definition decode :: "(bytes \<Rightarrow> string + 'a) \<Rightarrow> bytes \<Rightarrow> storage_error + 'a" where
  "decode dec bytes =
     (if length bytes > MAX_STORAGE_PAYLOAD_BYTES then Inl (StoRead (too_large bytes)) else map_err StoRead (dec bytes))"

datatype bound = Included u64 | Excluded u64 | Unbounded

fun start_bound :: "bound \<Rightarrow> storage_error + u64" where
  "start_bound (Included v) = Inr v"
| "start_bound (Excluded v) = (if v = - 1 then Inl (StoRead ''range start overflows u64'') else Inr (v + 1))"
| "start_bound Unbounded = Inr 0"

fun end_bound :: "bound \<Rightarrow> storage_error + u64 option" where
  "end_bound (Included v) = (if v = - 1 then Inl (StoRead ''range end overflows u64'') else Inr (Some (v + 1)))"
| "end_bound (Excluded v) = Inr (Some v)"
| "end_bound Unbounded = Inr None"

definition range_bounds :: "bound \<times> bound \<Rightarrow> storage_error + (u64 \<times> u64 option)" where
  "range_bounds rng =
     res_bind (start_bound (fst rng)) (\<lambda>start. res_bind (end_bound (snd rng)) (\<lambda>e. Inr (start, e)))"

definition sto_read :: "ledger_error \<Rightarrow> storage_error" where
  "sto_read e = StoRead (ledger_error_display e)"

definition sto_write :: "ledger_error \<Rightarrow> storage_error" where
  "sto_write e = StoWrite (ledger_error_display e)"

section \<open>Reading\<close>

definition read_meta :: "(bytes \<Rightarrow> string + 'a) \<Rightarrow> string \<Rightarrow> writer_state \<Rightarrow> storage_error + 'a option" where
  "read_meta dec key st = (case raft_meta (ws_db st) key of
     None \<Rightarrow> Inr None
   | Some bytes \<Rightarrow> res_bind (decode dec bytes) (\<lambda>v. Inr (Some v)))"

text \<open>\<open>SELECT payload ... ORDER BY log_idx ASC\<close> over the rows whose index satisfies \<open>P\<close>.\<close>

definition select_payloads :: "(int \<Rightarrow> bool) \<Rightarrow> ledger_db \<Rightarrow> bytes list" where
  "select_payloads P db = map (\<lambda>i. snd (the (raft_log db i))) (sorted_list_of_set {i \<in> dom (raft_log db). P i})"

definition try_get_log_entries :: "'m raft_codec \<Rightarrow> bound \<times> bound \<Rightarrow> writer_state \<Rightarrow> storage_error + 'm raft_entry list" where
  "try_get_log_entries C rng st =
     res_bind (range_bounds rng) (\<lambda>(start, e).
       case e of
         Some e \<Rightarrow>
           if e \<le> start then Inr []
           else res_bind (map_err sto_read (sqlite_i64 ''log_idx'' start)) (\<lambda>s.
                res_bind (map_err sto_read (sqlite_i64 ''log_idx'' e)) (\<lambda>e'.
                collect_results (decode (dec_entry C)) (select_payloads (\<lambda>i. s \<le> i \<and> i < e') (ws_db st))))
       | None \<Rightarrow>
           res_bind (map_err sto_read (sqlite_i64 ''log_idx'' start)) (\<lambda>s.
           collect_results (decode (dec_entry C)) (select_payloads (\<lambda>i. s \<le> i) (ws_db st))))"

definition read_vote :: "'m raft_codec \<Rightarrow> writer_state \<Rightarrow> storage_error + vote option" where
  "read_vote C st = read_meta (dec_vote C) ''vote'' st"

definition read_committed :: "'m raft_codec \<Rightarrow> writer_state \<Rightarrow> storage_error + log_id option" where
  "read_committed C st = read_meta (dec_log_id C) ''committed'' st"

text \<open>\<open>... ORDER BY log_idx DESC LIMIT 1\<close>.\<close>

definition last_payload :: "ledger_db \<Rightarrow> bytes option" where
  "last_payload db = (if dom (raft_log db) = {} then None else Some (snd (the (raft_log db (Max (dom (raft_log db)))))))"

record log_state =
  ls_last_purged :: "log_id option"
  ls_last_log_id :: "log_id option"

definition get_log_state :: "'m raft_codec \<Rightarrow> writer_state \<Rightarrow> storage_error + log_state" where
  "get_log_state C st =
     res_bind (read_meta (dec_log_id C) ''last_purged_log_id'' st) (\<lambda>last_purged.
     res_bind (case last_payload (ws_db st) of
                 None \<Rightarrow> Inr None
               | Some bytes \<Rightarrow> res_bind (decode (dec_entry C) bytes) (\<lambda>entry. Inr (Some (en_log_id entry)))) (\<lambda>last.
     Inr \<lparr>ls_last_purged = last_purged,
          ls_last_log_id = (case last of Some l \<Rightarrow> Some l | None \<Rightarrow> last_purged)\<rparr>))"

definition last_applied_state :: "'m raft_codec \<Rightarrow> writer_state \<Rightarrow> storage_error + (log_id option \<times> 'm stored_membership)" where
  "last_applied_state C st =
     res_bind (read_meta (dec_log_id C) ''last_applied_log_id'' st) (\<lambda>last_applied.
     res_bind (read_meta (dec_membership C) ''last_membership'' st) (\<lambda>membership.
     Inr (last_applied, case membership of Some m \<Rightarrow> m
                        | None \<Rightarrow> \<lparr>sm_log_id = None, sm_membership = default_membership C\<rparr>)))"

section \<open>Writing\<close>

text \<open>An operation that encodes its argument and then sends one command to the writer.\<close>

definition send :: "(ledger_db \<Rightarrow> (ledger_error + 'a) \<times> ledger_db) \<Rightarrow> 'a sto" where
  "send f st = (case f (ws_db st) of (r, db') \<Rightarrow> (map_err sto_write r, st\<lparr>ws_db := db'\<rparr>))"

definition after :: "storage_error + 'a \<Rightarrow> ('a \<Rightarrow> 'b sto) \<Rightarrow> 'b sto" where
  "after r f st = (case r of Inl e \<Rightarrow> (Inl e, st) | Inr x \<Rightarrow> f x st)"

definition save_meta :: "string \<Rightarrow> bytes option \<Rightarrow> unit sto" where
  "save_meta key v = send (\<lambda>db. (Inr (), save_raft_meta key v db))"

definition save_vote :: "'m raft_codec \<Rightarrow> vote \<Rightarrow> unit sto" where
  "save_vote C v = after (encode (enc_vote C) v) (\<lambda>b. save_meta ''vote'' (Some b))"

definition save_committed :: "'m raft_codec \<Rightarrow> log_id option \<Rightarrow> unit sto" where
  "save_committed C committed =
     after (case committed of None \<Rightarrow> Inr None | Some l \<Rightarrow> res_bind (encode (enc_log_id C) l) (\<lambda>b. Inr (Some b)))
       (\<lambda>v. save_meta ''committed'' v)"

definition entry_row :: "'m raft_codec \<Rightarrow> 'm raft_entry \<Rightarrow> storage_error + raft_log_row" where
  "entry_row C entry =
     res_bind (encode (enc_entry C) entry) (\<lambda>payload.
     Inr \<lparr>rl_log_idx = lid_index (en_log_id entry), rl_term = lid_term (en_log_id entry), rl_payload = payload\<rparr>)"

definition append_to_log :: "'m raft_codec \<Rightarrow> 'm raft_entry list \<Rightarrow> unit sto" where
  "append_to_log C entries = after (collect_results (entry_row C) entries) (\<lambda>rows. send (append_raft_logs rows))"

definition delete_conflict_logs_since :: "log_id \<Rightarrow> unit sto" where
  "delete_conflict_logs_since l = send (delete_raft_logs_since (lid_index l))"

definition purge_logs_upto :: "'m raft_codec \<Rightarrow> log_id \<Rightarrow> unit sto" where
  "purge_logs_upto C l = after (encode (enc_log_id C) l) (\<lambda>b. send (purge_raft_logs_upto (lid_index l) b))"

text \<open>The loop that keeps the encoding of the last membership entry of the batch.\<close>

fun batch_membership :: "'m raft_codec \<Rightarrow> 'm raft_entry list \<Rightarrow> bytes option \<Rightarrow> storage_error + bytes option" where
  "batch_membership C [] acc = Inr acc"
| "batch_membership C (e # es) acc = (case en_payload e of
     Membership m \<Rightarrow>
       res_bind (encode (enc_membership C) \<lparr>sm_log_id = Some (en_log_id e), sm_membership = m\<rparr>) (\<lambda>b.
       batch_membership C es (Some b))
   | _ \<Rightarrow> batch_membership C es acc)"

definition apply_to_state_machine ::
  "'p ledger_env \<Rightarrow> 'm raft_codec \<Rightarrow> 'm raft_entry list \<Rightarrow> ledger_response list sto" where
  "apply_to_state_machine E C entries =
     after (batch_membership C entries None) (\<lambda>last_membership.
     send (apply_raft_entries (le_writer_close E) (le_digest E) (le_stark E) (le_enc_log_id E) entries last_membership))"

section \<open>Snapshots\<close>

definition read_file :: "string \<Rightarrow> writer_state \<Rightarrow> storage_error + bytes" where
  "read_file path st = ok_or (ws_files st path) (StoRead ''No such file or directory (os error 2)'')"

definition installed_snapshot_path :: "string \<Rightarrow> string \<Rightarrow> string" where
  "installed_snapshot_path dir snapshot_id = dir @ ''/snapshot-'' @ snapshot_id @ ''.sqlite''"

definition install_snapshot :: "'p ledger_env \<Rightarrow> 'm raft_codec \<Rightarrow> 'm snapshot_meta \<Rightarrow> bytes \<Rightarrow> unit sto" where
  "install_snapshot E C meta bytes st =
     (let path = installed_snapshot_path (le_dir E) (sn_snapshot_id meta)
      in case restore_snapshot E path (st\<lparr>ws_files := (ws_files st)(path \<mapsto> bytes)\<rparr>) of (r, st1) \<Rightarrow>
         after (map_err sto_write r) (\<lambda>_. after (encode (enc_meta C) meta) (\<lambda>b. save_meta ''snapshot_meta'' (Some b))) st1)"

definition get_current_snapshot ::
  "'p ledger_env \<Rightarrow> 'm raft_codec \<Rightarrow> writer_state \<Rightarrow> storage_error + ('m snapshot_meta \<times> bytes) option" where
  "get_current_snapshot E C st =
     res_bind (read_meta (dec_meta C) ''snapshot_meta'' st) (\<lambda>meta. case meta of
       None \<Rightarrow> Inr None
     | Some meta \<Rightarrow> res_bind (read_file (installed_snapshot_path (le_dir E) (sn_snapshot_id meta)) st) (\<lambda>bytes.
         Inr (Some (meta, bytes))))"

definition snapshot_id_of :: "log_id option \<Rightarrow> string" where
  "snapshot_id_of last_log_id = (case last_log_id of
     Some l \<Rightarrow> show_nat (unat (lid_term l)) @ ''-'' @ show_nat (unat (lid_index l)) | None \<Rightarrow> ''empty'')"

definition build_snapshot :: "'p ledger_env \<Rightarrow> 'm raft_codec \<Rightarrow> ('m snapshot_meta \<times> bytes) sto" where
  "build_snapshot E C st =
     after (last_applied_state C st) (\<lambda>(last_log_id, last_membership) st.
       let meta = \<lparr>sn_last_log_id = last_log_id, sn_last_membership = last_membership,
                   sn_snapshot_id = snapshot_id_of last_log_id\<rparr>
       in case snapshot E (sn_snapshot_id meta) st of (r, st1) \<Rightarrow>
          after (map_err sto_write r) (\<lambda>path.
          after (read_file path st1) (\<lambda>bytes.
          after (encode (enc_meta C) meta) (\<lambda>b st2.
            case save_meta ''snapshot_meta'' (Some b) st2 of (r', st3) \<Rightarrow>
              (res_bind r' (\<lambda>_. Inr (meta, bytes)), st3)))) st1) st"

section \<open>The log as a map\<close>

lemma encode_Inr: "encode enc v = Inr b \<longleftrightarrow> enc v = Inr b \<and> length b \<le> MAX_STORAGE_PAYLOAD_BYTES"
  by (auto simp: encode_def guard_eq_Inr)

lemma decode_encode: "codec_inverse enc dec \<Longrightarrow> encode enc v = Inr b \<Longrightarrow> decode dec b = Inr v"
  by (simp add: codec_inverse_def encode_Inr decode_def)

lemma after_Inr: "after r f st = (Inr y, st') \<longleftrightarrow> (\<exists>x. r = Inr x \<and> f x st = (Inr y, st'))"
  by (auto simp: after_def split: sum.splits)

lemma send_Inr: "send f st = (Inr y, st') \<longleftrightarrow> (\<exists>db'. f (ws_db st) = (Inr y, db') \<and> st' = st\<lparr>ws_db := db'\<rparr>)"
  by (auto simp: send_def split: prod.splits)

lemma save_meta_eq [simp]: "save_meta k v st = (Inr (), st\<lparr>ws_db := save_raft_meta k v (ws_db st)\<rparr>)"
  by (simp add: save_meta_def send_def)

definition entry_index :: "'m raft_entry \<Rightarrow> int" where
  "entry_index e = uint (lid_index (en_log_id e))"

text \<open>Every row of \<open>raft_log\<close> decodes to an entry with the row's index and term.\<close>

definition row_of_entry :: "'m raft_codec \<Rightarrow> int \<Rightarrow> int \<times> bytes \<Rightarrow> 'm raft_entry \<Rightarrow> bool" where
  "row_of_entry C i row e \<longleftrightarrow> decode (dec_entry C) (snd row) = Inr e \<and> entry_index e = i
     \<and> uint (lid_term (en_log_id e)) = fst row"

definition log_inv :: "'m raft_codec \<Rightarrow> writer_state \<Rightarrow> bool" where
  "log_inv C st \<longleftrightarrow> finite (dom (raft_log (ws_db st)))
     \<and> (\<forall>i row. raft_log (ws_db st) i = Some row \<longrightarrow> (\<exists>e. row_of_entry C i row e))"

definition log_of :: "'m raft_codec \<Rightarrow> writer_state \<Rightarrow> int \<rightharpoonup> 'm raft_entry" where
  "log_of C st i = (case raft_log (ws_db st) i of None \<Rightarrow> None
     | Some row \<Rightarrow> (case decode (dec_entry C) (snd row) of Inl e \<Rightarrow> None | Inr e \<Rightarrow> Some e))"

lemma log_of_row: "raft_log (ws_db st) i = Some row \<Longrightarrow> row_of_entry C i row e \<Longrightarrow> log_of C st i = Some e"
  by (simp add: log_of_def row_of_entry_def)

lemma dom_log_of: "log_inv C st \<Longrightarrow> dom (log_of C st) = dom (raft_log (ws_db st))"
proof (rule set_eqI)
  fix i assume inv: "log_inv C st"
  show "i \<in> dom (log_of C st) \<longleftrightarrow> i \<in> dom (raft_log (ws_db st))"
  proof (cases "raft_log (ws_db st) i")
    case (Some row)
    with inv obtain e where "row_of_entry C i row e" unfolding log_inv_def by blast
    with Some log_of_row [OF Some] show ?thesis by auto
  qed (simp add: log_of_def domIff)
qed

lemma log_of_index: "log_inv C st \<Longrightarrow> log_of C st i = Some e \<Longrightarrow> entry_index e = i"
  by (auto simp: log_inv_def log_of_def row_of_entry_def split: option.splits sum.splits) fastforce

lemma entry_row_Inr:
  "codec_laws C \<Longrightarrow> entry_row C e = Inr row \<Longrightarrow> decode (dec_entry C) (rl_payload row) = Inr e
     \<and> rl_log_idx row = lid_index (en_log_id e) \<and> rl_term row = lid_term (en_log_id e)"
  by (auto simp: entry_row_def codec_laws_def dest: decode_encode)

lemma upsert_rows_log:
  assumes "codec_laws C" "list_all2 (\<lambda>e row. entry_row C e = Inr row) es rows" "upsert_rows rows (ws_db st) = Inr db'" "log_inv C st"
  shows "log_inv C (st\<lparr>ws_db := db'\<rparr>)
    \<and> log_of C (st\<lparr>ws_db := db'\<rparr>) = foldl (\<lambda>m e. m(entry_index e \<mapsto> e)) (log_of C st) es"
  using assms(2-)
proof (induction es rows arbitrary: st rule: list_all2_induct)
  case Nil
  then show ?case by (simp add: log_inv_def log_of_def fun_eq_iff)
next
  case (Cons e es row rows)
  note row = entry_row_Inr [OF assms(1) Cons.hyps(1)]
  let ?db = "(ws_db st)\<lparr>raft_log := (raft_log (ws_db st))(entry_index e \<mapsto> (uint (rl_term row), rl_payload row))\<rparr>"
  let ?st = "st\<lparr>ws_db := ?db\<rparr>"
  have r: "row_of_entry C (entry_index e) (uint (rl_term row), rl_payload row) e"
    using row by (simp add: row_of_entry_def)
  then have inv: "log_inv C ?st" using Cons.prems(2) by (auto simp: log_inv_def)
  have log: "log_of C ?st = (log_of C st)(entry_index e \<mapsto> e)"
    using r by (auto simp: log_of_def row_of_entry_def fun_eq_iff)
  from Cons.prems(1) row have "upsert_rows rows (ws_db ?st) = Inr db'"
    by (auto simp: entry_index_def)
  from Cons.IH [OF this inv] log show ?case by simp
qed

lemma append_to_log_refines:
  assumes "codec_laws C" "log_inv C st" "append_to_log C es st = (Inr (), st')"
  shows "log_inv C st' \<and> log_of C st' = foldl (\<lambda>m e. m(entry_index e \<mapsto> e)) (log_of C st) es"
proof -
  from assms(3) obtain rows db' where r: "collect_results (entry_row C) es = Inr rows"
    "upsert_rows rows (ws_db st) = Inr db'" "st' = st\<lparr>ws_db := db'\<rparr>"
    by (auto simp: append_to_log_def after_Inr send_Inr append_raft_logs_def transaction_Inr)
  from r(1) have "list_all2 (\<lambda>e row. entry_row C e = Inr row) es rows"
    by (induction es arbitrary: rows) auto
  from upsert_rows_log [OF assms(1) this r(2) assms(2)] r(3) show ?thesis by simp
qed

lemma restrict_log:
  assumes "log_inv C st"
  shows "log_inv C (st\<lparr>ws_db := (ws_db st)\<lparr>raft_log := (\<lambda>k. if P k then None else raft_log (ws_db st) k)\<rparr>\<rparr>)"
    and "log_of C (st\<lparr>ws_db := (ws_db st)\<lparr>raft_log := (\<lambda>k. if P k then None else raft_log (ws_db st) k)\<rparr>\<rparr>) = log_of C st |` {i. \<not> P i}"
proof -
  have "dom (\<lambda>k. if P k then None else raft_log (ws_db st) k) \<subseteq> dom (raft_log (ws_db st))"
    by (auto split: if_splits)
  with assms show "log_inv C (st\<lparr>ws_db := (ws_db st)\<lparr>raft_log := (\<lambda>k. if P k then None else raft_log (ws_db st) k)\<rparr>\<rparr>)"
    using finite_subset by (auto simp: log_inv_def split: if_splits)
qed (auto simp: log_of_def restrict_map_def fun_eq_iff)

lemma log_ignores_meta:
  "log_inv C (st\<lparr>ws_db := save_raft_meta k v db\<rparr>) = log_inv C (st\<lparr>ws_db := db\<rparr>)"
  "log_of C (st\<lparr>ws_db := save_raft_meta k v db\<rparr>) = log_of C (st\<lparr>ws_db := db\<rparr>)"
  by (simp_all add: log_inv_def log_of_def fun_eq_iff)

lemma delete_conflict_refines:
  assumes "log_inv C st" "delete_conflict_logs_since l st = (Inr (), st')"
  shows "log_inv C st' \<and> log_of C st' = log_of C st |` {i. i < uint (lid_index l)}"
proof -
  from assms(2) have "st' = st\<lparr>ws_db := (ws_db st)\<lparr>raft_log := (\<lambda>k. if uint (lid_index l) \<le> k then None else raft_log (ws_db st) k)\<rparr>\<rparr>"
    by (auto simp: delete_conflict_logs_since_def send_Inr delete_raft_logs_since_def transaction_Inr)
  with restrict_log [OF assms(1), of "\<lambda>k. uint (lid_index l) \<le> k"] show ?thesis by (simp add: not_le)
qed

lemma purge_refines:
  assumes "log_inv C st" "purge_logs_upto C l st = (Inr (), st')"
  shows "log_inv C st' \<and> log_of C st' = log_of C st |` {i. uint (lid_index l) < i}"
proof -
  from assms(2) obtain b where "st' = st\<lparr>ws_db := save_raft_meta ''last_purged_log_id'' (Some b)
      ((ws_db st)\<lparr>raft_log := (\<lambda>k. if k \<le> uint (lid_index l) then None else raft_log (ws_db st) k)\<rparr>)\<rparr>"
    by (auto simp: purge_logs_upto_def after_Inr send_Inr purge_raft_logs_upto_def transaction_Inr)
  with restrict_log [OF assms(1), of "\<lambda>k. k \<le> uint (lid_index l)"] show ?thesis by (simp add: not_le log_ignores_meta)
qed

text \<open>
  What raft expects of a log store, over the abstraction \<open>log\<close> of its state: appending overrides,
  deleting conflicts cuts the tail, purging cuts the head. The client keeps its log without holes.
\<close>

locale raft_log_store =
  fixes log :: "'s \<Rightarrow> int \<rightharpoonup> 'e"
    and inv :: "'s \<Rightarrow> bool"
    and index :: "'e \<Rightarrow> int"
    and append :: "'e list \<Rightarrow> 's \<Rightarrow> 's \<Rightarrow> bool"
    and truncate :: "int \<Rightarrow> 's \<Rightarrow> 's \<Rightarrow> bool"
    and purge :: "int \<Rightarrow> 's \<Rightarrow> 's \<Rightarrow> bool"
  assumes append_log: "inv s \<Longrightarrow> append es s s' \<Longrightarrow> inv s' \<and> log s' = foldl (\<lambda>m e. m(index e \<mapsto> e)) (log s) es"
    and truncate_log: "inv s \<Longrightarrow> truncate i s s' \<Longrightarrow> inv s' \<and> log s' = log s |` {k. k < i}"
    and purge_log: "inv s \<Longrightarrow> purge i s s' \<Longrightarrow> inv s' \<and> log s' = log s |` {k. i < k}"
begin

lemma foldl_upd_dom: "dom (foldl (\<lambda>m e. m(index e \<mapsto> e)) m es) = dom m \<union> index ` set es"
  by (induction es arbitrary: m) auto

lemma foldl_upd_distinct:
  "distinct (map index es) \<Longrightarrow> j < length es \<Longrightarrow> foldl (\<lambda>m e. m(index e \<mapsto> e)) m es (index (es ! j)) = Some (es ! j)"
proof (induction es arbitrary: m rule: rev_induct)
  case (snoc e es)
  show ?case
  proof (cases "j < length es")
    case True
    from snoc.prems have "index e \<notin> index ` set es" by simp
    with True have "index (es ! j) \<noteq> index e" by (metis image_eqI nth_mem)
    with True snoc show ?thesis by (simp add: nth_append)
  qed (use snoc.prems in \<open>simp add: nth_append\<close>)
qed simp

text \<open>Consecutive entries, the first with index \<open>i\<close>.\<close>

lemma consecutive_set: "map index es = map (\<lambda>k. i + int k) [0..<length es] \<Longrightarrow> index ` set es = {i..<i + int (length es)}"
proof -
  assume "map index es = map (\<lambda>k. i + int k) [0..<length es]"
  then have "index ` set es = (\<lambda>k. i + int k) ` {0..<length es}"
    by (metis list.set_map set_upt)
  also have "\<dots> = {i..<i + int (length es)}"
    by (auto simp: image_iff intro!: bexI [of _ "nat (_ - i)"])
  finally show ?thesis .
qed

lemma consecutive_distinct: "map index es = map (\<lambda>k. i + int k) [0..<length es] \<Longrightarrow> distinct (map index es)"
  by (simp add: distinct_map inj_on_def)

lemma append_no_holes:
  assumes "inv s" "append es s s'" "dom (log s) = {a..<b}" "a \<le> b" "map index es = map (\<lambda>k. b + int k) [0..<length es]"
  shows "dom (log s') = {a..<b + int (length es)}"
  using append_log [OF assms(1,2)] assms(3,4) consecutive_set [OF assms(5)] foldl_upd_dom by auto

text \<open>A leader's entries replace a conflicting tail: nothing of the tail is left.\<close>

lemma replace_tail:
  assumes "inv s" "truncate i s s1" "append es s1 s2" "map index es = map (\<lambda>k. i + int k) [0..<length es]"
  shows "log s2 k = (if k < i then log s k else if k < i + int (length es) then Some (es ! nat (k - i)) else None)"
proof -
  note t = truncate_log [OF assms(1,2)]
  have a: "log s2 = foldl (\<lambda>m e. m(index e \<mapsto> e)) (log s |` {k. k < i}) es"
    using append_log [OF _ assms(3)] t by simp
  have ix: "j < length es \<Longrightarrow> index (es ! j) = i + int j" for j
    using arg_cong [OF assms(4), of "\<lambda>l. l ! j"] by simp
  consider "k < i" | "i \<le> k" "k < i + int (length es)" | "i + int (length es) \<le> k" by linarith
  then show ?thesis
  proof cases
    case 1
    have "k \<notin> index ` set es" using 1 consecutive_set [OF assms(4)] by simp
    then have "foldl (\<lambda>m e. m(index e \<mapsto> e)) m es k = m k" for m
      by (induction es arbitrary: m) auto
    with 1 show ?thesis by (simp add: a)
  next
    case 2
    then have "nat (k - i) < length es" "index (es ! nat (k - i)) = k" using ix [of "nat (k - i)"] by auto
    with 2 foldl_upd_distinct [OF consecutive_distinct [OF assms(4)], of "nat (k - i)"] show ?thesis by (simp add: a)
  next
    case 3
    with foldl_upd_dom [of "log s |` {k. k < i}" es] consecutive_set [OF assms(4)] have "k \<notin> dom (log s2)"
      by (auto simp: a)
    with 3 show ?thesis by (simp add: domIff)
  qed
qed

end

definition log_truncated :: "int \<Rightarrow> writer_state \<Rightarrow> writer_state \<Rightarrow> bool" where
  "log_truncated i st st' \<longleftrightarrow> (\<exists>l. uint (lid_index l) = i \<and> delete_conflict_logs_since l st = (Inr (), st'))"

definition log_purged :: "'m raft_codec \<Rightarrow> int \<Rightarrow> writer_state \<Rightarrow> writer_state \<Rightarrow> bool" where
  "log_purged C i st st' \<longleftrightarrow> (\<exists>l. uint (lid_index l) = i \<and> purge_logs_upto C l st = (Inr (), st'))"

interpretation storage_log: raft_log_store "log_of C" "\<lambda>st. codec_laws C \<and> log_inv C st" entry_index
  "\<lambda>es st st'. append_to_log C es st = (Inr (), st')" log_truncated "log_purged C"
  for C
proof (unfold_locales, goal_cases)
  case 1
  then show ?case using append_to_log_refines by blast
next
  case 2
  then show ?case using delete_conflict_refines unfolding log_truncated_def by blast
next
  case 3
  then show ?case using purge_refines unfolding log_purged_def by blast
qed

section \<open>Reading the log\<close>

lemma collect_results_all: "list_all (\<lambda>x. f x = Inr (g x)) xs \<Longrightarrow> collect_results f xs = Inr (map g xs)"
  by (induction xs) auto

lemma collect_results_comp: "collect_results g (map h xs) = collect_results (g \<circ> h) xs"
  by (induction xs) auto

lemma select_payloads_decode:
  assumes "log_inv C st"
  shows "collect_results (decode (dec_entry C)) (select_payloads P (ws_db st)) =
    Inr (map (\<lambda>i. the (log_of C st i)) (sorted_list_of_set {i \<in> dom (log_of C st). P i}))"
proof -
  let ?S = "{i \<in> dom (raft_log (ws_db st)). P i}"
  let ?f = "\<lambda>i. snd (the (raft_log (ws_db st) i))"
  have "finite ?S" using assms by (simp add: log_inv_def)
  have "decode (dec_entry C) (?f i) = Inr (the (log_of C st i))" if "i \<in> ?S" for i
  proof -
    from that obtain row where row: "raft_log (ws_db st) i = Some row" by auto
    with assms obtain e where e: "row_of_entry C i row e" unfolding log_inv_def by blast
    from row e log_of_row [OF row e] show ?thesis by (simp add: row_of_entry_def)
  qed
  then have "list_all (\<lambda>x. (decode (dec_entry C) \<circ> ?f) x = Inr (the (log_of C st x))) (sorted_list_of_set ?S)"
    using \<open>finite ?S\<close> by (simp add: list_all_iff)
  from collect_results_all [OF this] have "collect_results (decode (dec_entry C) \<circ> ?f) (sorted_list_of_set ?S) =
    Inr (map (\<lambda>i. the (log_of C st i)) (sorted_list_of_set ?S))" .
  then show ?thesis unfolding select_payloads_def dom_log_of [OF assms] collect_results_comp .
qed

lemma sorted_list_of_int_interval: "sorted_list_of_set {i..<i + int n} = map (\<lambda>k. i + int k) [0..<n]"
proof -
  have "set (map (\<lambda>k. i + int k) [0..<n]) = {i..<i + int n}"
    by (auto simp: image_iff intro!: bexI [of _ "nat (_ - i)"])
  moreover have "sorted (map (\<lambda>k. i + int k) [0..<n])" "distinct (map (\<lambda>k. i + int k) [0..<n])"
    by (simp_all add: sorted_iff_nth_mono distinct_map inj_on_def)
  ultimately show ?thesis by (metis sorted_list_of_set.idem_if_sorted_distinct)
qed

lemma try_get_range:
  assumes "log_inv C st" "i64_ok a" "i64_ok b"
  shows "try_get_log_entries C (Included a, Excluded b) st =
    Inr (map (\<lambda>i. the (log_of C st i)) (sorted_list_of_set {i \<in> dom (log_of C st). uint a \<le> i \<and> i < uint b}))"
proof (cases "b \<le> a")
  case True
  then have empty: "{i \<in> dom (log_of C st). uint a \<le> i \<and> i < uint b} = {}" by (auto simp: word_le_def)
  show ?thesis using True by (simp only: empty) (simp add: try_get_log_entries_def range_bounds_def)
next
  case False
  have "sqlite_i64 f a = Inr (uint a)" "sqlite_i64 f b = Inr (uint b)" for f using assms(2,3) by simp_all
  with False select_payloads_decode [OF assms(1), of "\<lambda>i. uint a \<le> i \<and> i < uint b"] show ?thesis
    by (simp add: try_get_log_entries_def range_bounds_def del: sqlite_i64_Inr)
qed

section \<open>Markers and snapshots\<close>

lemma read_meta_stored:
  "codec_inverse enc dec \<Longrightarrow> encode enc v = Inr b \<Longrightarrow> raft_meta (ws_db st) k = Some b \<Longrightarrow> read_meta dec k st = Inr (Some v)"
  by (simp add: read_meta_def decode_encode)

lemma save_raft_meta_lookup [simp]: "raft_meta (save_raft_meta k v db) k' = (if k' = k then v else raft_meta db k')"
  by (simp add: save_raft_meta_def)

lemma read_file_Inr [simp]: "read_file path st = Inr b \<longleftrightarrow> ws_files st path = Some b"
  by (simp add: read_file_def)

lemma build_snapshot_Inr:
  "build_snapshot E C st = (Inr (meta, bytes), st') \<longleftrightarrow>
     (\<exists>ll lm b. last_applied_state C st = Inr (ll, lm)
        \<and> meta = \<lparr>sn_last_log_id = ll, sn_last_membership = lm, sn_snapshot_id = snapshot_id_of ll\<rparr>
        \<and> encode (enc_meta C) meta = Inr b \<and> bytes = le_vacuum E (ws_db st)
        \<and> st' = \<lparr>ws_db = save_raft_meta ''snapshot_meta'' (Some b) (ws_db st), ws_attached = ws_attached st,
             ws_files = (ws_files st)(snapshot_path (le_dir E) (sn_snapshot_id meta) \<mapsto> bytes)\<rparr>)"
  by (auto simp: build_snapshot_def after_Inr snapshot_def Let_def split: prod.splits)

lemma install_snapshot_Inr:
  "install_snapshot E C meta bytes st = (Inr (), st') \<longleftrightarrow>
     (\<exists>db b. \<not> ws_attached st \<and> le_open E bytes = Tables db \<and> encode (enc_meta C) meta = Inr b
        \<and> st' = \<lparr>ws_db = save_raft_meta ''snapshot_meta'' (Some b) db, ws_attached = False,
             ws_files = (ws_files st)(installed_snapshot_path (le_dir E) (sn_snapshot_id meta) := None)\<rparr>)"
  by (auto simp: install_snapshot_def restore_snapshot_def Let_def after_Inr split: if_splits sqlite_file.splits prod.splits)

section \<open>Example\<close>

definition example_log_id :: "u64 \<Rightarrow> log_id" where
  "example_log_id i = \<lparr>lid_term = 1, lid_node_id = 1, lid_index = i\<rparr>"

definition example_entry :: "u64 \<Rightarrow> unit raft_entry" where
  "example_entry i = \<lparr>en_log_id = example_log_id i, en_payload = Blank\<rparr>"

definition example_vote :: "u64 \<Rightarrow> vote" where
  "example_vote n = \<lparr>vote_term = 4, vote_node_id = n, vote_committed = False\<rparr>"

definition example_meta :: "unit snapshot_meta" where
  "example_meta = \<lparr>sn_last_log_id = None, sn_last_membership = \<lparr>sm_log_id = None, sm_membership = ()\<rparr>,
     sn_snapshot_id = ''empty''\<rparr>"

text \<open>A codec that knows a few values of every type.\<close>

definition finite_enc :: "('a \<times> bytes) list \<Rightarrow> 'a \<Rightarrow> string + bytes" where
  "finite_enc t v = ok_or (map_of t v) ''unsupported''"

definition finite_dec :: "('a \<times> bytes) list \<Rightarrow> bytes \<Rightarrow> string + 'a" where
  "finite_dec t b = ok_or (map_of (map prod.swap t) b) ''malformed''"

lemma finite_codec: "distinct (map snd t) \<Longrightarrow> codec_inverse (finite_enc t) (finite_dec t)"
  by (auto simp: codec_inverse_def finite_enc_def finite_dec_def comp_def dest!: map_of_SomeD
      intro!: map_of_is_SomeI)

definition example_codec :: "unit raft_codec" where
  "example_codec = (let votes = [(example_vote 1, [1]), (example_vote 2, [2])]; ids = [(example_log_id 1, [1]), (example_log_id 2, [2])];
       entries = [(example_entry 1, [11]), (example_entry 2, [12])]; metas = [(example_meta, [5])]
     in \<lparr>enc_vote = finite_enc votes, dec_vote = finite_dec votes, enc_log_id = finite_enc ids, dec_log_id = finite_dec ids,
         enc_entry = finite_enc entries, dec_entry = finite_dec entries, enc_membership = finite_enc [], dec_membership = finite_dec [],
         enc_meta = finite_enc metas, dec_meta = finite_dec metas, default_membership = ()\<rparr>)"

lemma example_codec_laws: "codec_laws example_codec"
  by (simp add: codec_laws_def example_codec_def Let_def finite_codec)

lemma example_log_inv: "log_inv example_codec example_writer"
  by (simp add: log_inv_def example_writer_def create_tables_def)

lemma example_append:
  "\<exists>st'. append_to_log example_codec [example_entry 1, example_entry 2] example_writer = (Inr (), st')"
  by (simp add: append_to_log_def after_def entry_row_def encode_def example_codec_def Let_def finite_enc_def
      example_entry_def example_log_id_def MAX_STORAGE_PAYLOAD_BYTES_def send_def append_raft_logs_def transaction_def
      sqlite_i64_def)

section \<open>Properties\<close>

text \<open>
  C29. The leader's entries replace a conflicting tail: deleting from a log index on and appending
  consecutive entries from there leaves exactly the old log below the index and the new entries;
  nothing of the old tail survives.
\<close>

theorem conflicting_tail_is_replaced:
  assumes "codec_laws C" "log_inv C st" "delete_conflict_logs_since l st = (Inr (), st1)"
    and "append_to_log C es st1 = (Inr (), st2)"
    and "map entry_index es = map (\<lambda>k. uint (lid_index l) + int k) [0..<length es]"
  shows "log_of C st2 k = (if k < uint (lid_index l) then log_of C st k
    else if k < uint (lid_index l) + int (length es) then Some (es ! nat (k - uint (lid_index l))) else None)"
  by (rule storage_log.replace_tail [OF _ _ assms(4,5)]) (use assms(1-3) in \<open>auto simp: log_truncated_def\<close>)

theorem conflicting_tail_is_replaced_witness:
  "\<exists>st1 st2. append_to_log example_codec [example_entry 1, example_entry 2] example_writer = (Inr (), st1)
    \<and> delete_conflict_logs_since (example_log_id 2) st1 = (Inr (), st2) \<and> log_of example_codec st2 1 = Some (example_entry 1)
    \<and> log_of example_codec st2 2 = None"
proof -
  obtain st1 where a: "append_to_log example_codec [example_entry 1, example_entry 2] example_writer = (Inr (), st1)"
    using example_append by blast
  obtain st2 where d: "delete_conflict_logs_since (example_log_id 2) st1 = (Inr (), st2)"
    by (simp add: delete_conflict_logs_since_def send_def delete_raft_logs_since_def transaction_def sqlite_i64_def example_log_id_def)
  from append_to_log_refines [OF example_codec_laws example_log_inv a]
  have inv: "log_inv example_codec st1" and log: "log_of example_codec st1 1 = Some (example_entry 1)"
    by (simp_all add: entry_index_def example_entry_def example_log_id_def)
  have e: "append_to_log example_codec [] st2 = (Inr (), st2)"
    by (simp add: append_to_log_def after_def send_def append_raft_logs_def transaction_def)
  from conflicting_tail_is_replaced [OF example_codec_laws inv d e] a d log show ?thesis
    by (auto simp: example_log_id_def)
qed

text \<open>
  Entries that were appended are read back: the range of a batch of consecutive entries reads
  exactly the batch, in order.
\<close>

theorem appended_entries_read_back:
  assumes "codec_laws C" "log_inv C st" "append_to_log C es st = (Inr (), st')"
    and "map entry_index es = map (\<lambda>k. uint a + int k) [0..<length es]"
    and "uint b = uint a + int (length es)" "i64_ok b"
  shows "try_get_log_entries C (Included a, Excluded b) st' = Inr es"
proof -
  note r = append_to_log_refines [OF assms(1-3)]
  have "a \<le> b" using assms(5) by (simp add: word_le_def)
  with assms(6) have "i64_ok a" unfolding i64_ok_def word_le_nat_alt by (rule order.strict_trans1 [rotated])
  have dom: "dom (log_of C st') = dom (log_of C st) \<union> {uint a..<uint b}"
    using r storage_log.foldl_upd_dom [of _ es] storage_log.consecutive_set [OF assms(4)] assms(5) by simp
  have rng: "{i \<in> dom (log_of C st'). uint a \<le> i \<and> i < uint b} = {uint a..<uint a + int (length es)}"
    using dom assms(5) by auto
  from r have inv: "log_inv C st'" by simp
  have "try_get_log_entries C (Included a, Excluded b) st' =
      Inr (map (\<lambda>k. the (log_of C st' (uint a + int k))) [0..<length es])"
    unfolding try_get_range [OF inv \<open>i64_ok a\<close> assms(6)] rng sorted_list_of_int_interval map_map comp_def ..
  also have "map (\<lambda>k. the (log_of C st' (uint a + int k))) [0..<length es] = es"
  proof (rule nth_equalityI)
    fix j assume "j < length (map (\<lambda>k. the (log_of C st' (uint a + int k))) [0..<length es])"
    then have j: "j < length es" by simp
    with arg_cong [OF assms(4), of "\<lambda>l. l ! j"] have "entry_index (es ! j) = uint a + int j" by simp
    with storage_log.foldl_upd_distinct [OF storage_log.consecutive_distinct [OF assms(4)] j] r j
    show "map (\<lambda>k. the (log_of C st' (uint a + int k))) [0..<length es] ! j = es ! j" by simp
  qed simp
  finally show ?thesis .
qed

theorem appended_entries_read_back_witness:
  "\<exists>st'. append_to_log example_codec [example_entry 1, example_entry 2] example_writer = (Inr (), st')
    \<and> try_get_log_entries example_codec (Included 1, Excluded 3) st' = Inr [example_entry 1, example_entry 2]"
proof -
  obtain st' where a: "append_to_log example_codec [example_entry 1, example_entry 2] example_writer = (Inr (), st')"
    using example_append by blast
  from appended_entries_read_back [OF example_codec_laws example_log_inv a, of 1 3] a show ?thesis
    by (simp add: entry_index_def example_entry_def example_log_id_def i64_ok_def)
qed

text \<open>
  A snapshot that was built is the current one: it holds a copy of the tables as they were,
  its metadata names the last applied log entry, and \<open>get_current_snapshot\<close> returns it.
\<close>

theorem built_snapshot_is_current:
  assumes "codec_laws C" "build_snapshot E C st = (Inr (meta, bytes), st')"
  shows "get_current_snapshot E C st' = Inr (Some (meta, bytes)) \<and> bytes = le_vacuum E (ws_db st)
    \<and> (\<exists>lm. last_applied_state C st = Inr (sn_last_log_id meta, lm))"
proof -
  from assms(2) obtain b where b: "encode (enc_meta C) meta = Inr b" "bytes = le_vacuum E (ws_db st)"
    "\<exists>lm. last_applied_state C st = Inr (sn_last_log_id meta, lm)"
    "raft_meta (ws_db st') ''snapshot_meta'' = Some b"
    "ws_files st' (installed_snapshot_path (le_dir E) (sn_snapshot_id meta)) = Some bytes"
    by (auto simp: build_snapshot_Inr installed_snapshot_path_def snapshot_path_def)
  have "codec_inverse (enc_meta C) (dec_meta C)" using assms(1) by (simp add: codec_laws_def)
  from read_meta_stored [OF this b(1,4)] b show ?thesis
    by (simp add: get_current_snapshot_def read_file_def)
qed

lemma example_build:
  "\<exists>st'. build_snapshot example_ledger_env example_codec example_writer = (Inr (example_meta, [1]), st')"
  by (simp add: build_snapshot_Inr last_applied_state_def read_meta_def example_writer_def create_tables_def encode_def
      example_codec_def Let_def finite_enc_def example_meta_def snapshot_id_of_def MAX_STORAGE_PAYLOAD_BYTES_def
      example_ledger_env_def)

theorem built_snapshot_is_current_witness:
  "\<exists>st'. get_current_snapshot example_ledger_env example_codec st' = Inr (Some (example_meta, [1]))"
  using example_build built_snapshot_is_current [OF example_codec_laws] by blast

text \<open>
  C30. A follower that installs the leader's snapshot has exactly the leader's tables: log, spent
  leaves and credited rows, but also the vote of the leader in place of its own.
\<close>

theorem installed_snapshot_copies_leader:
  assumes "codec_laws C" "readable_image E (ws_db leader)" "build_snapshot E C leader = (Inr (meta, bytes), leader')"
    and "install_snapshot E C meta bytes follower = (Inr (), follower')"
  shows "nullifiers (ws_db follower') = nullifiers (ws_db leader) \<and> starstream_utxos (ws_db follower') = starstream_utxos (ws_db leader)
    \<and> log_of C follower' = log_of C leader \<and> last_applied_state C follower' = last_applied_state C leader
    \<and> read_vote C follower' = read_vote C leader"
proof -
  from assms(3) have bytes: "bytes = le_vacuum E (ws_db leader)" by (auto simp: build_snapshot_Inr)
  with assms(2,4) obtain b where f: "ws_db follower' = save_raft_meta ''snapshot_meta'' (Some b) (ws_db leader)"
    by (auto simp: install_snapshot_Inr readable_image_def)
  have "log_of C follower' = log_of C leader" by (simp add: log_of_def f fun_eq_iff)
  then show ?thesis by (simp add: f last_applied_state_def read_vote_def read_meta_def)
qed

text \<open>A follower that has voted for node 2; the leader of the example has not voted.\<close>

definition example_follower :: writer_state where
  "example_follower = example_writer\<lparr>ws_db := save_raft_meta ''vote'' (Some [2]) create_tables\<rparr>"

lemma example_install:
  "\<exists>st'. install_snapshot example_ledger_env example_codec example_meta [1] example_follower = (Inr (), st')"
  by (simp add: install_snapshot_Inr example_follower_def example_writer_def example_ledger_env_def encode_def example_codec_def
      Let_def finite_enc_def MAX_STORAGE_PAYLOAD_BYTES_def)

theorem installed_snapshot_copies_leader_witness:
  "\<exists>st'. read_vote example_codec example_follower = Inr (Some (example_vote 2))
    \<and> install_snapshot example_ledger_env example_codec example_meta [1] example_follower = (Inr (), st')
    \<and> read_vote example_codec st' = Inr None"
proof -
  obtain st' where i: "install_snapshot example_ledger_env example_codec example_meta [1] example_follower = (Inr (), st')"
    using example_install by blast
  obtain lst where l: "build_snapshot example_ledger_env example_codec example_writer = (Inr (example_meta, [1]), lst)"
    using example_build by blast
  have "readable_image example_ledger_env (ws_db example_writer)"
    by (simp add: readable_image_def example_ledger_env_def example_writer_def)
  from installed_snapshot_copies_leader [OF example_codec_laws this l i] i show ?thesis
    by (simp add: read_vote_def read_meta_def example_follower_def example_writer_def save_raft_meta_def create_tables_def
        example_codec_def Let_def decode_def finite_dec_def MAX_STORAGE_PAYLOAD_BYTES_def)
qed

text \<open>
  C31. After a successful install the node cannot serve the snapshot: the restore removes the file
  that the saved metadata names, so \<open>get_current_snapshot\<close> fails with a read error.
\<close>

theorem installed_snapshot_is_unreadable:
  assumes "codec_laws C" "install_snapshot E C meta bytes st = (Inr (), st')"
  shows "get_current_snapshot E C st' = Inl (StoRead ''No such file or directory (os error 2)'')"
proof -
  from assms(2) obtain b where b: "encode (enc_meta C) meta = Inr b" "raft_meta (ws_db st') ''snapshot_meta'' = Some b"
    "ws_files st' (installed_snapshot_path (le_dir E) (sn_snapshot_id meta)) = None"
    by (auto simp: install_snapshot_Inr)
  have "codec_inverse (enc_meta C) (dec_meta C)" using assms(1) by (simp add: codec_laws_def)
  from read_meta_stored [OF this b(1,2)] b(3) show ?thesis by (simp add: get_current_snapshot_def read_file_def)
qed

theorem installed_snapshot_is_unreadable_witness:
  "\<exists>st'. install_snapshot example_ledger_env example_codec example_meta [1] example_follower = (Inr (), st')
    \<and> isl (get_current_snapshot example_ledger_env example_codec st')"
  using example_install installed_snapshot_is_unreadable [OF example_codec_laws] by fastforce

end
