(* ===== verification/Snapshot_Transfer.thy ===== *)
theory Snapshot_Transfer
  imports Merkle_Tree
begin

text \<open>
  The snapshot transfer of \<open>omega-network/src/snapshot.rs\<close>: the sender's frames and the receiver
  that stages chunks in a file and renames it into place. The file system is a map from paths to
  contents; failures of the disk are not modelled. SHA3-256 is the parameter \<open>S\<close> and the \<open>hex\<close>
  crate the parameter \<open>hex\<close>.
\<close>

section \<open>Frames and errors\<close>

definition MAX_SNAPSHOT_CHUNK_BYTES :: nat where
  "MAX_SNAPSHOT_CHUNK_BYTES = 1024 * 1024"

record snapshot_init =
  si_snapshot_id :: string
  si_total_chunks :: u64
  si_total_bytes :: u64
  si_sha3_of_full :: hash

record snapshot_chunk =
  sc_snapshot_id :: string
  sc_chunk_idx :: u64
  sc_payload :: bytes

record snapshot_finalize =
  sf_snapshot_id :: string
  sf_sha3_of_full :: hash

datatype snapshot_frame =
  FrameInit snapshot_init
| FrameChunk snapshot_chunk
| FrameFinalize snapshot_finalize

datatype snapshot_ack =
  AckAccepted string u64
| AckComplete string string

datatype snapshot_protocol_error =
  ActiveSnapshot
| NoActiveSnapshot
| SnapshotIdMismatch string string
| OutOfOrderChunk u64 u64
| UnexpectedChunk u64 u64
| ChunkTooLarge nat nat
| BytesExceedTotal u64 u64
| FinalizeBeforeAllChunks u64 u64
| ByteCountMismatch u64 u64
| HashMismatch

datatype snapshot_receive_error =
  Protocol snapshot_protocol_error
| ReceiveIo string

section \<open>The sender\<close>

text \<open>\<open>slice::chunks\<close>: pieces of \<open>n\<close> bytes, the last one possibly shorter.\<close>

function chunks :: "nat \<Rightarrow> 'a list \<Rightarrow> 'a list list" where
  "chunks n xs = (if n = 0 \<or> xs = [] then [] else take n xs # chunks n (drop n xs))"
  by pat_completeness auto
termination by (relation "measure (\<lambda>(n, xs). length xs)") auto

declare chunks.simps [simp del]

definition chunk_frame :: "string \<Rightarrow> nat \<times> bytes \<Rightarrow> snapshot_frame" where
  "chunk_frame snapshot_id ip =
     FrameChunk \<lparr>sc_snapshot_id = snapshot_id, sc_chunk_idx = as_u64 (fst ip), sc_payload = snd ip\<rparr>"

definition div_ceil :: "nat \<Rightarrow> nat \<Rightarrow> nat" where
  "div_ceil a b = (a + b - 1) div b"

definition chunk_snapshot_bytes :: "digest \<Rightarrow> string \<Rightarrow> bytes \<Rightarrow> snapshot_frame list" where
  "chunk_snapshot_bytes S snapshot_id bytes =
     (let digest = sha3_256 S bytes;
          total_chunks = (if bytes = [] then 0 else as_u64 (div_ceil (length bytes) MAX_SNAPSHOT_CHUNK_BYTES))
      in FrameInit \<lparr>si_snapshot_id = snapshot_id, si_total_chunks = total_chunks,
             si_total_bytes = as_u64 (length bytes), si_sha3_of_full = digest\<rparr>
         # map (chunk_frame snapshot_id) (enumerate 0 (chunks MAX_SNAPSHOT_CHUNK_BYTES bytes))
         @ [FrameFinalize \<lparr>sf_snapshot_id = snapshot_id, sf_sha3_of_full = digest\<rparr>])"

section \<open>The receiver\<close>

record active_snapshot =
  as_init :: snapshot_init
  as_next_chunk_idx :: u64
  as_bytes_received :: u64
  as_staged_path :: string

record snapshot_receiver =
  sr_staging_dir :: string
  sr_installed_path :: string
  sr_active :: "active_snapshot option"
  sr_files :: "string \<rightharpoonup> bytes"

definition receiver_new :: "string \<Rightarrow> string \<Rightarrow> (string \<rightharpoonup> bytes) \<Rightarrow> snapshot_receiver" where
  "receiver_new staging_dir installed_path files =
     \<lparr>sr_staging_dir = staging_dir, sr_installed_path = installed_path, sr_active = None, sr_files = files\<rparr>"

definition remove_if_exists :: "string \<Rightarrow> snapshot_receiver \<Rightarrow> snapshot_receiver" where
  "remove_if_exists path rv = rv\<lparr>sr_files := (sr_files rv)(path := None)\<rparr>"

definition remove_active :: "active_snapshot \<Rightarrow> snapshot_receiver \<Rightarrow> snapshot_receiver" where
  "remove_active active rv = remove_if_exists (as_staged_path active) rv"

definition staged_path :: "digest \<Rightarrow> (bytes \<Rightarrow> string) \<Rightarrow> string \<Rightarrow> string \<Rightarrow> string" where
  "staged_path S hex staging_dir snapshot_id =
     staging_dir @ ''/snapshot-'' @ hex (take 8 (sha3_256 S (ascii snapshot_id))) @ ''.part''"

type_synonym receive_result = "(snapshot_receive_error + snapshot_ack) \<times> snapshot_receiver"

definition receive_init :: "digest \<Rightarrow> (bytes \<Rightarrow> string) \<Rightarrow> snapshot_init \<Rightarrow> snapshot_receiver \<Rightarrow> receive_result" where
  "receive_init S hex init rv =
     (if sr_active rv \<noteq> None then (Inl (Protocol ActiveSnapshot), rv)
      else (let path = staged_path S hex (sr_staging_dir rv) (si_snapshot_id init)
            in (Inr (AckAccepted (si_snapshot_id init) 0),
                rv\<lparr>sr_files := (sr_files rv)(path \<mapsto> []),
                   sr_active := Some \<lparr>as_init = init, as_next_chunk_idx = 0, as_bytes_received = 0, as_staged_path = path\<rparr>\<rparr>)))"

text \<open>The checks of a chunk, in the order of the code; the sum wraps at 64 bits.\<close>

definition check_chunk :: "active_snapshot \<Rightarrow> snapshot_chunk \<Rightarrow> snapshot_protocol_error + u64" where
  "check_chunk active chunk =
     (let init = as_init active;
          new_total = as_bytes_received active + as_u64 (length (sc_payload chunk))
      in if sc_snapshot_id chunk \<noteq> si_snapshot_id init then Inl (SnapshotIdMismatch (si_snapshot_id init) (sc_snapshot_id chunk))
         else if sc_chunk_idx chunk \<noteq> as_next_chunk_idx active then Inl (OutOfOrderChunk (as_next_chunk_idx active) (sc_chunk_idx chunk))
         else if as_next_chunk_idx active \<ge> si_total_chunks init then Inl (UnexpectedChunk (si_total_chunks init) (sc_chunk_idx chunk))
         else if length (sc_payload chunk) > MAX_SNAPSHOT_CHUNK_BYTES
           then Inl (ChunkTooLarge (length (sc_payload chunk)) MAX_SNAPSHOT_CHUNK_BYTES)
         else if new_total > si_total_bytes init then Inl (BytesExceedTotal new_total (si_total_bytes init))
         else Inr new_total)"

definition receive_chunk :: "snapshot_chunk \<Rightarrow> snapshot_receiver \<Rightarrow> receive_result" where
  "receive_chunk chunk rv = (case sr_active rv of
     None \<Rightarrow> (Inl (Protocol NoActiveSnapshot), rv)
   | Some active \<Rightarrow>
       (case check_chunk active chunk of
          Inl e \<Rightarrow> (Inl (Protocol e), rv)
        | Inr new_total \<Rightarrow>
            (let next = as_next_chunk_idx active + 1;
                 contents = (case sr_files rv (as_staged_path active) of None \<Rightarrow> [] | Some b \<Rightarrow> b) @ sc_payload chunk
             in (Inr (AckAccepted (si_snapshot_id (as_init active)) next),
                 rv\<lparr>sr_files := (sr_files rv)(as_staged_path active \<mapsto> contents),
                    sr_active := Some (active\<lparr>as_bytes_received := new_total, as_next_chunk_idx := next\<rparr>)\<rparr>))))"

definition check_finalize :: "active_snapshot \<Rightarrow> snapshot_finalize \<Rightarrow> snapshot_protocol_error + unit" where
  "check_finalize active fin =
     (let init = as_init active
      in if sf_snapshot_id fin \<noteq> si_snapshot_id init then Inl (SnapshotIdMismatch (si_snapshot_id init) (sf_snapshot_id fin))
         else if as_next_chunk_idx active \<noteq> si_total_chunks init
           then Inl (FinalizeBeforeAllChunks (si_total_chunks init) (as_next_chunk_idx active))
         else if as_bytes_received active \<noteq> si_total_bytes init
           then Inl (ByteCountMismatch (si_total_bytes init) (as_bytes_received active))
         else if sf_sha3_of_full fin \<noteq> si_sha3_of_full init then Inl HashMismatch
         else Inr ())"

text \<open>\<open>sha3_256_file\<close>: the digest of the whole contents; opening a missing file fails.\<close>

definition sha3_256_file :: "digest \<Rightarrow> string \<Rightarrow> snapshot_receiver \<Rightarrow> string + hash" where
  "sha3_256_file S path rv =
     res_bind (ok_or (sr_files rv path) ''No such file or directory (os error 2)'') (\<lambda>b. Inr (sha3_256 S b))"

definition receive_finalize :: "digest \<Rightarrow> snapshot_finalize \<Rightarrow> snapshot_receiver \<Rightarrow> receive_result" where
  "receive_finalize S fin rv = (case sr_active rv of
     None \<Rightarrow> (Inl (Protocol NoActiveSnapshot), rv)
   | Some active \<Rightarrow>
       (let rv = rv\<lparr>sr_active := None\<rparr>
        in case check_finalize active fin of
             Inl e \<Rightarrow> (Inl (Protocol e), remove_active active rv)
           | Inr _ \<Rightarrow>
               (case sha3_256_file S (as_staged_path active) rv of
                  Inl e \<Rightarrow> (Inl (ReceiveIo e), rv)
                | Inr staged_digest \<Rightarrow>
                    if staged_digest \<noteq> sf_sha3_of_full fin
                    then (Inl (Protocol HashMismatch), remove_if_exists (as_staged_path active) rv)
                    else if as_staged_path active = sr_installed_path rv
                    then (Inl (ReceiveIo ''No such file or directory (os error 2)''), remove_if_exists (sr_installed_path rv) rv)
                    else (let contents = sr_files rv (as_staged_path active)
                          in (Inr (AckComplete (si_snapshot_id (as_init active)) (sr_installed_path rv)),
                              rv\<lparr>sr_files := (sr_files rv)(as_staged_path active := None, sr_installed_path rv := contents)\<rparr>)))))"

fun receive :: "digest \<Rightarrow> (bytes \<Rightarrow> string) \<Rightarrow> snapshot_frame \<Rightarrow> snapshot_receiver \<Rightarrow> receive_result" where
  "receive S hex (FrameInit init) rv = receive_init S hex init rv"
| "receive S hex (FrameChunk chunk) rv = receive_chunk chunk rv"
| "receive S hex (FrameFinalize fin) rv = receive_finalize S fin rv"

definition abort_on_leader_change :: "snapshot_receiver \<Rightarrow> bool \<times> snapshot_receiver" where
  "abort_on_leader_change rv = (case sr_active rv of
     None \<Rightarrow> (False, rv)
   | Some active \<Rightarrow> (True, remove_if_exists (as_staged_path active) (rv\<lparr>sr_active := None\<rparr>)))"

section \<open>Chunks\<close>

lemma concat_chunks: "0 < n \<Longrightarrow> concat (chunks n xs) = xs"
  by (induction n xs rule: chunks.induct) (subst chunks.simps, auto)

lemma chunks_length_le: "c \<in> set (chunks n xs) \<Longrightarrow> length c \<le> n"
proof (induction n xs rule: chunks.induct)
  case (1 n xs)
  from 1(2) show ?case by (subst (asm) chunks.simps) (use 1(1) in \<open>auto split: if_splits\<close>)
qed

lemma length_chunks: "0 < n \<Longrightarrow> length (chunks n xs) = div_ceil (length xs) n"
proof (induction n xs rule: chunks.induct)
  case (1 n xs)
  show ?case
  proof (cases "xs = []")
    case True
    then show ?thesis using 1(2) by (simp add: chunks.simps div_ceil_def)
  next
    case False
    with 1 have "length (chunks n xs) = Suc (div_ceil (length xs - n) n)"
      by (subst chunks.simps) simp
    also have "\<dots> = div_ceil (length xs) n"
    proof (cases "n \<le> length xs")
      case True
      then have "length xs + n - 1 = (length xs - n + n - 1) + n" using 1(2) by linarith
      then have "div_ceil (length xs) n = ((length xs - n + n - 1) + n) div n" by (simp only: div_ceil_def)
      also have "\<dots> = Suc (div_ceil (length xs - n) n)"
        unfolding div_ceil_def using 1(2) by (subst div_add_self2) auto
      finally show ?thesis by simp
    next
      case short: False
      have "length xs + n - 1 = (length xs - 1) + n" using False by (cases xs) auto
      then have "div_ceil (length xs) n = ((length xs - 1) + n) div n" by (simp only: div_ceil_def)
      also have "\<dots> = Suc ((length xs - 1) div n)" using 1(2) by (subst div_add_self2) auto
      finally show ?thesis using short 1(2) by (simp add: div_ceil_def)
    qed
    finally show ?thesis .
  qed
qed

section \<open>Invariant of the receiver\<close>

text \<open>
  An active session stages exactly the bytes it has counted, and its declaration came with one of
  the frames \<open>fs\<close>.
\<close>

definition receiver_inv :: "string \<Rightarrow> snapshot_frame list \<Rightarrow> snapshot_receiver \<Rightarrow> bool" where
  "receiver_inv path fs rv \<longleftrightarrow> sr_installed_path rv = path \<and> (\<forall>a. sr_active rv = Some a \<longrightarrow>
     FrameInit (as_init a) \<in> set fs
     \<and> (\<exists>b. sr_files rv (as_staged_path a) = Some b \<and> as_bytes_received a = as_u64 (length b))
     \<and> as_next_chunk_idx a \<le> si_total_chunks (as_init a) \<and> as_bytes_received a \<le> si_total_bytes (as_init a))"

lemma as_u64_add: "as_u64 m + as_u64 n = as_u64 (m + n)"
  by (simp add: as_u64_def)

lemma check_chunk_Inr:
  "check_chunk a c = Inr t \<longleftrightarrow> sc_snapshot_id c = si_snapshot_id (as_init a) \<and> sc_chunk_idx c = as_next_chunk_idx a
     \<and> as_next_chunk_idx a < si_total_chunks (as_init a) \<and> length (sc_payload c) \<le> MAX_SNAPSHOT_CHUNK_BYTES
     \<and> t = as_bytes_received a + as_u64 (length (sc_payload c)) \<and> t \<le> si_total_bytes (as_init a)"
  unfolding check_chunk_def Let_def guard_eq_Inr not_not not_le not_less sum.inject by blast

lemma check_finalize_Inr:
  "check_finalize a fin = Inr u \<longleftrightarrow> sf_snapshot_id fin = si_snapshot_id (as_init a)
     \<and> as_next_chunk_idx a = si_total_chunks (as_init a) \<and> as_bytes_received a = si_total_bytes (as_init a)
     \<and> sf_sha3_of_full fin = si_sha3_of_full (as_init a)"
  unfolding check_finalize_def Let_def guard_eq_Inr not_not by simp

lemma receiver_inv_chunk:
  assumes "receiver_inv path fs rv" "receive_chunk c rv = (r, rv')"
  shows "receiver_inv path fs rv'"
proof (cases "sr_active rv")
  case None
  with assms show ?thesis by (simp add: receive_chunk_def)
next
  case (Some a)
  show ?thesis
  proof (cases "check_chunk a c")
    case (Inl e)
    with assms Some show ?thesis by (simp add: receive_chunk_def)
  next
    case (Inr t)
    note c = Inr [unfolded check_chunk_Inr]
    from assms(1) Some obtain b where b: "FrameInit (as_init a) \<in> set fs" "sr_files rv (as_staged_path a) = Some b"
      "as_bytes_received a = as_u64 (length b)" "sr_installed_path rv = path"
      by (auto simp: receiver_inv_def)
    have "as_next_chunk_idx a + 1 \<le> si_total_chunks (as_init a)"
      using c by (simp add: inc_le)
    with assms(2) Some Inr b c show ?thesis
      by (auto simp: receive_chunk_def Let_def receiver_inv_def as_u64_add)
  qed
qed

lemma receiver_inv_receive:
  assumes "receiver_inv path fs rv" "receive S hex f rv = (r, rv')"
  shows "receiver_inv path (fs @ [f]) rv'"
proof (cases f)
  case (FrameInit i)
  with assms show ?thesis
    by (auto simp: receive_init_def Let_def receiver_inv_def as_u64_def split: if_splits)
next
  case (FrameChunk c)
  with assms receiver_inv_chunk have "receiver_inv path fs rv'" by auto
  then show ?thesis by (auto simp: receiver_inv_def)
next
  case (FrameFinalize fin)
  with assms show ?thesis
    by (auto simp: receive_finalize_def receiver_inv_def Let_def remove_active_def remove_if_exists_def
        split: option.splits sum.splits if_splits)
qed

lemma receiver_inv_run:
  "receiver_inv path fs rv \<Longrightarrow> run_steps (receive S hex) gs rv = (rs, rv') \<Longrightarrow> receiver_inv path (fs @ gs) rv'"
proof (induction gs arbitrary: fs rv rs)
  case (Cons g gs)
  then obtain r rv1 rs' where r: "receive S hex g rv = (r, rv1)" "run_steps (receive S hex) gs rv1 = (rs', rv')"
    by (auto simp: run_steps_Cons simp del: run_steps.simps(2))
  from Cons.IH [OF receiver_inv_receive [OF Cons.prems(1) r(1)] r(2)] show ?case by simp
qed simp

section \<open>A whole transfer\<close>

lemma receive_chunks_run:
  assumes "sr_active rv = Some \<lparr>as_init = init, as_next_chunk_idx = as_u64 k, as_bytes_received = as_u64 (length pre), as_staged_path = path\<rparr>"
    and "sr_files rv path = Some pre" "list_all (\<lambda>c. length c \<le> MAX_SNAPSHOT_CHUNK_BYTES) cs"
    and "length pre + length (concat cs) < 2 ^ 64" "k + length cs < 2 ^ 64"
    and "si_total_bytes init = as_u64 (length pre + length (concat cs))" "si_total_chunks init = as_u64 (k + length cs)"
  shows "\<exists>rs. run_steps (receive S hex) (map (chunk_frame (si_snapshot_id init)) (enumerate k cs)) rv =
    (rs, rv\<lparr>sr_files := (sr_files rv)(path \<mapsto> pre @ concat cs),
       sr_active := Some \<lparr>as_init = init, as_next_chunk_idx = as_u64 (k + length cs),
         as_bytes_received = as_u64 (length (pre @ concat cs)), as_staged_path = path\<rparr>\<rparr>)"
  using assms
proof (induction cs arbitrary: rv k pre)
  case Nil
  have "(sr_files rv)(path \<mapsto> pre) = sr_files rv" using Nil(2) by (rule fun_upd_idem)
  then show ?case by (simp add: Nil(1) [symmetric])
next
  case (Cons c cs)
  let ?a = "\<lparr>as_init = init, as_next_chunk_idx = as_u64 k, as_bytes_received = as_u64 (length pre), as_staged_path = path\<rparr>"
  let ?c = "\<lparr>sc_snapshot_id = si_snapshot_id init, sc_chunk_idx = as_u64 k, sc_payload = c\<rparr>"
  let ?rv = "rv\<lparr>sr_files := (sr_files rv)(path \<mapsto> pre @ c),
       sr_active := Some \<lparr>as_init = init, as_next_chunk_idx = as_u64 (Suc k),
         as_bytes_received = as_u64 (length (pre @ c)), as_staged_path = path\<rparr>\<rparr>"
  have "as_u64 k < as_u64 (k + length (c # cs))" "as_u64 (length pre + length c) \<le> as_u64 (length pre + length (concat (c # cs)))"
    using Cons.prems(4,5) by (simp_all add: word_less_nat_alt word_le_nat_alt unat_as_u64)
  with Cons.prems(3,6,7) have "check_chunk ?a ?c = Inr (as_u64 (length (pre @ c)))"
    by (simp add: check_chunk_Inr as_u64_add)
  with Cons.prems(1,2) have step: "receive S hex (chunk_frame (si_snapshot_id init) (k, c)) rv = (Inr (AckAccepted (si_snapshot_id init) (as_u64 (Suc k))), ?rv)"
    by (simp add: chunk_frame_def receive_chunk_def as_u64_def Let_def add.commute)
  have "\<exists>rs. run_steps (receive S hex) (map (chunk_frame (si_snapshot_id init)) (enumerate (Suc k) cs)) ?rv =
    (rs, ?rv\<lparr>sr_files := (sr_files ?rv)(path \<mapsto> (pre @ c) @ concat cs),
       sr_active := Some \<lparr>as_init = init, as_next_chunk_idx = as_u64 (Suc k + length cs),
         as_bytes_received = as_u64 (length ((pre @ c) @ concat cs)), as_staged_path = path\<rparr>\<rparr>)"
    by (rule Cons.IH) (use Cons.prems in \<open>simp_all add: add.assoc\<close>)
  then obtain rs where "run_steps (receive S hex) (map (chunk_frame (si_snapshot_id init)) (enumerate (Suc k) cs)) ?rv =
    (rs, rv\<lparr>sr_files := (sr_files rv)(path \<mapsto> pre @ concat (c # cs)),
       sr_active := Some \<lparr>as_init = init, as_next_chunk_idx = as_u64 (k + length (c # cs)),
         as_bytes_received = as_u64 (length (pre @ concat (c # cs))), as_staged_path = path\<rparr>\<rparr>)"
    by (elim exE) (simp add: fun_upd_upd)
  with step show ?case unfolding enumerate_simps list.map run_steps_Cons by blast
qed

lemma MAX_SNAPSHOT_CHUNK_pos [simp]: "0 < MAX_SNAPSHOT_CHUNK_BYTES"
  by (simp add: MAX_SNAPSHOT_CHUNK_BYTES_def)

lemma chunk_count_le: "length (chunks MAX_SNAPSHOT_CHUNK_BYTES bytes) \<le> length bytes"
proof -
  have "(m + MAX_SNAPSHOT_CHUNK_BYTES - 1) div MAX_SNAPSHOT_CHUNK_BYTES \<le> m" for m
    by (cases m) (simp_all add: MAX_SNAPSHOT_CHUNK_BYTES_def)
  then show ?thesis by (simp add: length_chunks div_ceil_def)
qed

section \<open>Properties\<close>

text \<open>
  C32. A snapshot arrives: when an idle receiver gets the frames that the sender makes of a byte
  buffer, the last answer is \<open>Complete\<close>, the installed file holds exactly the buffer, the staging
  file is gone and the receiver is idle again.
\<close>

theorem snapshot_transfer_installs:
  assumes "sr_active rv = None" "length bytes < 2 ^ 64"
    and "staged_path S hex (sr_staging_dir rv) sid \<noteq> sr_installed_path rv"
  shows "\<exists>rs rv'. run_steps (receive S hex) (chunk_snapshot_bytes S sid bytes) rv = (rs, rv')
    \<and> last rs = Inr (AckComplete sid (sr_installed_path rv)) \<and> sr_files rv' (sr_installed_path rv) = Some bytes
    \<and> sr_files rv' (staged_path S hex (sr_staging_dir rv) sid) = None \<and> sr_active rv' = None"
proof -
  let ?cs = "chunks MAX_SNAPSHOT_CHUNK_BYTES bytes" and ?path = "staged_path S hex (sr_staging_dir rv) sid"
  let ?init = "\<lparr>si_snapshot_id = sid, si_total_chunks = as_u64 (length ?cs), si_total_bytes = as_u64 (length bytes),
    si_sha3_of_full = sha3_256 S bytes\<rparr>"
  let ?fin = "\<lparr>sf_snapshot_id = sid, sf_sha3_of_full = sha3_256 S bytes\<rparr>"
  have total: "(if bytes = [] then 0 else as_u64 (div_ceil (length bytes) MAX_SNAPSHOT_CHUNK_BYTES)) = as_u64 (length ?cs)"
    by (simp add: length_chunks as_u64_def div_ceil_def)
  have frames: "chunk_snapshot_bytes S sid bytes = FrameInit ?init # map (chunk_frame sid) (enumerate 0 ?cs) @ [FrameFinalize ?fin]"
    unfolding chunk_snapshot_bytes_def Let_def total ..
  let ?rv0 = "rv\<lparr>sr_files := (sr_files rv)(?path \<mapsto> []), sr_active := Some \<lparr>as_init = ?init, as_next_chunk_idx = as_u64 0,
    as_bytes_received = as_u64 (length ([] :: bytes)), as_staged_path = ?path\<rparr>\<rparr>"
  have init: "receive S hex (FrameInit ?init) rv = (Inr (AckAccepted sid 0), ?rv0)"
    using assms(1) by (simp add: receive_init_def as_u64_def Let_def)
  have small: "list_all (\<lambda>c. length c \<le> MAX_SNAPSHOT_CHUNK_BYTES) ?cs" by (simp add: list_all_iff chunks_length_le)
  have count: "length ?cs < 2 ^ 64" using chunk_count_le assms(2) by (rule le_less_trans)
  have "\<exists>rs. run_steps (receive S hex) (map (chunk_frame (si_snapshot_id ?init)) (enumerate 0 ?cs)) ?rv0 =
    (rs, ?rv0\<lparr>sr_files := (sr_files ?rv0)(?path \<mapsto> [] @ concat ?cs), sr_active := Some \<lparr>as_init = ?init,
      as_next_chunk_idx = as_u64 (0 + length ?cs), as_bytes_received = as_u64 (length ([] @ concat ?cs)), as_staged_path = ?path\<rparr>\<rparr>)"
    by (rule receive_chunks_run) (use small count assms(2) in \<open>simp_all add: concat_chunks\<close>)
  then obtain rs rv1 where run: "run_steps (receive S hex) (map (chunk_frame sid) (enumerate 0 ?cs)) ?rv0 = (rs, rv1)"
    and rv1: "sr_active rv1 = Some \<lparr>as_init = ?init, as_next_chunk_idx = as_u64 (length ?cs),
        as_bytes_received = as_u64 (length bytes), as_staged_path = ?path\<rparr>"
      "sr_files rv1 ?path = Some bytes" "sr_installed_path rv1 = sr_installed_path rv"
    by (auto simp: concat_chunks)
  obtain r rv' where fin: "receive S hex (FrameFinalize ?fin) rv1 = (r, rv')" by fastforce
  then have "r = Inr (AckComplete sid (sr_installed_path rv))" "sr_files rv' (sr_installed_path rv) = Some bytes"
    "sr_files rv' ?path = None" "sr_active rv' = None"
    using rv1 assms(3) by (auto simp: receive_finalize_def check_finalize_def sha3_256_file_def Let_def)
  moreover have "run_steps (receive S hex) (chunk_snapshot_bytes S sid bytes) rv = (Inr (AckAccepted sid 0) # rs @ [r], rv')"
    unfolding frames run_steps_Cons run_steps_append using init run fin by auto
  ultimately show ?thesis by auto
qed

definition example_receiver :: snapshot_receiver where
  "example_receiver = receiver_new ''/s'' ''/installed'' Map.empty"

theorem snapshot_transfer_installs_witness:
  "\<exists>rs rv'. run_steps (receive sum_digest (\<lambda>b. ''00'')) (chunk_snapshot_bytes sum_digest ''1-7'' [1, 2, 3]) example_receiver = (rs, rv')
    \<and> sr_files rv' ''/installed'' = Some [1, 2, 3]"
  using snapshot_transfer_installs [of example_receiver "[1, 2, 3]" sum_digest "\<lambda>b. ''00''" "''1-7''"]
  by (auto simp: example_receiver_def receiver_new_def staged_path_def)

text \<open>
  C33. Whatever frames a peer sends, a completed transfer installs only what was announced: the
  installed bytes have the SHA3 digest and (modulo the 64 bits of the counter) the length that
  one of the received \<open>Init\<close> frames of this snapshot declared.
\<close>

theorem installed_bytes_match_declaration:
  assumes "run_steps (receive S hex) (fs @ [f]) (receiver_new dir path files) = (rs, rv')"
    and "last rs = Inr (AckComplete sid installed)"
  shows "\<exists>init b. FrameInit init \<in> set fs \<and> si_snapshot_id init = sid \<and> installed = path \<and> sr_files rv' path = Some b
    \<and> sha3_256 S b = si_sha3_of_full init \<and> as_u64 (length b) = si_total_bytes init"
proof -
  from assms(1) obtain rs1 rv r where run: "run_steps (receive S hex) fs (receiver_new dir path files) = (rs1, rv)"
    and f: "receive S hex f rv = (r, rv')" "rs = rs1 @ [r]"
    by (auto simp: run_steps_append run_steps_Cons simp del: run_steps.simps(2))
  have "receiver_inv path [] (receiver_new dir path files)" by (simp add: receiver_inv_def receiver_new_def)
  from receiver_inv_run [OF this run] have inv: "receiver_inv path fs rv" by simp
  from f assms(2) have r: "receive S hex f rv = (Inr (AckComplete sid installed), rv')" by simp
  then obtain fin a where fin: "f = FrameFinalize fin" "sr_active rv = Some a"
    by (cases f) (auto simp: receive_init_def receive_chunk_def receive_finalize_def Let_def split: if_splits option.splits sum.splits)
  from inv fin(2) obtain b where b: "FrameInit (as_init a) \<in> set fs" "sr_files rv (as_staged_path a) = Some b"
    "as_bytes_received a = as_u64 (length b)" "sr_installed_path rv = path"
    by (auto simp: receiver_inv_def)
  from r fin b(2,4) have c: "check_finalize a fin = Inr ()" "sha3_256 S b = sf_sha3_of_full fin"
    "si_snapshot_id (as_init a) = sid" "installed = path" "sr_files rv' path = Some b"
    by (auto simp: receive_finalize_def Let_def sha3_256_file_def split: if_splits sum.splits)
  from c(1) have "sf_sha3_of_full fin = si_sha3_of_full (as_init a)" "as_bytes_received a = si_total_bytes (as_init a)"
    by (simp_all add: check_finalize_Inr)
  with b c show ?thesis by auto
qed

theorem installed_bytes_match_declaration_witness:
  "\<exists>rs rv' b. run_steps (receive sum_digest (\<lambda>b. ''00'')) (chunk_snapshot_bytes sum_digest ''1-7'' []) example_receiver = (rs, rv')
    \<and> sr_files rv' ''/installed'' = Some b \<and> as_u64 (length b) = 0"
proof -
  let ?f = "FrameFinalize \<lparr>sf_snapshot_id = ''1-7'', sf_sha3_of_full = sha3_256 sum_digest []\<rparr>"
  let ?i = "\<lparr>si_snapshot_id = ''1-7'', si_total_chunks = 0, si_total_bytes = 0, si_sha3_of_full = sha3_256 sum_digest []\<rparr>"
  have frames: "chunk_snapshot_bytes sum_digest ''1-7'' [] = [FrameInit ?i] @ [?f]"
    by (simp add: chunk_snapshot_bytes_def chunks.simps as_u64_def Let_def)
  obtain rs rv' where run: "run_steps (receive sum_digest (\<lambda>b. ''00'')) ([FrameInit ?i] @ [?f]) example_receiver = (rs, rv')"
    by fastforce
  then have "last rs = Inr (AckComplete ''1-7'' ''/installed'')"
    by (auto simp: example_receiver_def receiver_new_def receive_init_def receive_finalize_def check_finalize_def
        sha3_256_file_def Let_def staged_path_def)
  from installed_bytes_match_declaration [OF run [unfolded example_receiver_def] this] run show ?thesis
    unfolding frames by auto
qed

end
