(* ===== verification/Raft_Network.thy ===== *)
theory Raft_Network
  imports Snapshot_Transfer
begin

text \<open>
  The transport of raft messages in \<open>omega-network\<close>: length-prefixed frames (\<open>protocol.rs\<close>), the
  bounded CBOR envelope (\<open>rpc.rs\<close>), the client side of a call (\<open>network.rs\<close>), the swarm loop that
  pairs requests with replies (\<open>inbound.rs\<close>) and peer discovery settings (\<open>discovery.rs\<close>). CBOR,
  libp2p and the message types of \<open>openraft\<close> are parameters.
\<close>

section \<open>Frames\<close>

definition MAX_RAFT_RPC_BYTES :: nat where
  "MAX_RAFT_RPC_BYTES = 16 * 1024 * 1024"

definition MAX_FRAME_BYTES :: nat where
  "MAX_FRAME_BYTES = MAX_RAFT_RPC_BYTES"

datatype io_error = UnexpectedEof | InvalidData string

text \<open>\<open>read_exact\<close> on a stream with the given remaining bytes.\<close>

definition read_exact :: "nat \<Rightarrow> bytes \<Rightarrow> io_error + (bytes \<times> bytes)" where
  "read_exact n io = (if length io < n then Inl UnexpectedEof else Inr (take n io, drop n io))"

definition frame_too_large :: "nat \<Rightarrow> string" where
  "frame_too_large n = ''frame '' @ show_nat n @ '' bytes exceeds max '' @ show_nat MAX_FRAME_BYTES"

definition read_frame :: "bytes \<Rightarrow> io_error + (bytes \<times> bytes)" where
  "read_frame io =
     res_bind (read_exact 4 io) (\<lambda>(len_buf, io).
       let len = unat (from_be_bytes len_buf :: u32)
       in if len > MAX_FRAME_BYTES then Inl (InvalidData (frame_too_large len)) else read_exact len io)"

definition write_frame :: "bytes \<Rightarrow> io_error + bytes" where
  "write_frame bytes =
     (if length bytes > MAX_FRAME_BYTES then Inl (InvalidData (frame_too_large (length bytes)))
      else res_bind (ok_or (try_u32 (length bytes)) (InvalidData ''frame > u32::MAX'')) (\<lambda>len.
           Inr (to_be_bytes len @ bytes)))"

section \<open>The envelope\<close>

datatype network_error =
  NetCodec string
| Oversize nat nat
| OutboundClosed
| OutboundFull
| ReplyDropped
| Timeout
| WrongResponse string string

fun network_error_display :: "network_error \<Rightarrow> string" where
  "network_error_display (NetCodec e) = ''cbor codec error: '' @ e"
| "network_error_display (Oversize actual m) = ''cbor payload too large: '' @ show_nat actual @ '' > '' @ show_nat m"
| "network_error_display OutboundClosed = ''request-response actor is closed''"
| "network_error_display OutboundFull = ''request-response actor outbound queue full''"
| "network_error_display ReplyDropped = ''request-response actor dropped the reply channel''"
| "network_error_display Timeout = ''request-response round-trip timed out''"
| "network_error_display (WrongResponse expected actual) =
     ''wrong raft response variant: expected '' @ expected @ '', got '' @ actual"

text \<open>The three call pairs of raft; their contents are types of \<open>openraft\<close>.\<close>

datatype ('a, 'v, 's) raft_rpc = AppendEntries 'a | VoteRpc 'v | InstallSnapshotRpc 's

fun variant_name :: "('a, 'v, 's) raft_rpc \<Rightarrow> string" where
  "variant_name (AppendEntries a) = ''append_entries''"
| "variant_name (VoteRpc v) = ''vote''"
| "variant_name (InstallSnapshotRpc s) = ''install_snapshot''"

record ('q, 'r) rpc_codec =
  cbor_enc_request :: "'q \<Rightarrow> string + bytes"
  cbor_dec_request :: "bytes \<Rightarrow> string + 'q"
  cbor_enc_response :: "'r \<Rightarrow> string + bytes"
  cbor_dec_response :: "bytes \<Rightarrow> string + 'r"

definition encode_cbor :: "('t \<Rightarrow> string + bytes) \<Rightarrow> 't \<Rightarrow> network_error + bytes" where
  "encode_cbor enc v = map_err NetCodec (enc v)"

definition decode_cbor :: "(bytes \<Rightarrow> string + 't) \<Rightarrow> bytes \<Rightarrow> network_error + 't" where
  "decode_cbor dec bytes =
     (if length bytes > MAX_RAFT_RPC_BYTES then Inl (Oversize (length bytes) MAX_RAFT_RPC_BYTES)
      else map_err NetCodec (dec bytes))"

definition into_io :: "network_error \<Rightarrow> io_error" where
  "into_io e = InvalidData (network_error_display e)"

text \<open>\<open>RaftCodec\<close>: a value to bytes on the stream, and back.\<close>

definition write_message :: "('t \<Rightarrow> string + bytes) \<Rightarrow> 't \<Rightarrow> io_error + bytes" where
  "write_message enc v = res_bind (map_err into_io (encode_cbor enc v)) write_frame"

definition read_message :: "(bytes \<Rightarrow> string + 't) \<Rightarrow> bytes \<Rightarrow> io_error + ('t \<times> bytes)" where
  "read_message dec io =
     res_bind (read_frame io) (\<lambda>(bytes, rest). res_bind (map_err into_io (decode_cbor dec bytes)) (\<lambda>v. Inr (v, rest)))"

section \<open>The client side of a call\<close>

datatype try_send = SendOk | SendClosed | SendFull

datatype awaited = Replied "network_error + bytes" | ReplyChannelDropped | Elapsed

definition round_trip_deadline :: "nat \<Rightarrow> nat" where
  "round_trip_deadline hard_ttl_ms = (if hard_ttl_ms < 50 then 5000 else hard_ttl_ms)"

text \<open>
  \<open>round_trip\<close>: \<open>send\<close> is the answer of the bounded queue to the payload, \<open>await\<close> what the reply
  channel yields within the deadline.
\<close>

definition round_trip ::
  "('q, 'r) rpc_codec \<Rightarrow> (bytes \<Rightarrow> try_send) \<Rightarrow> (nat \<Rightarrow> bytes \<Rightarrow> awaited) \<Rightarrow> nat \<Rightarrow> 'q \<Rightarrow> network_error + 'r" where
  "round_trip C send await hard_ttl_ms request =
     res_bind (encode_cbor (cbor_enc_request C) request) (\<lambda>payload.
       if length payload > MAX_RAFT_RPC_BYTES then Inl (Oversize (length payload) MAX_RAFT_RPC_BYTES)
       else case send payload of
         SendClosed \<Rightarrow> Inl OutboundClosed
       | SendFull \<Rightarrow> Inl OutboundFull
       | SendOk \<Rightarrow> (case await (round_trip_deadline hard_ttl_ms) payload of
           Replied r \<Rightarrow> res_bind r (decode_cbor (cbor_dec_response C))
         | ReplyChannelDropped \<Rightarrow> Inl ReplyDropped
         | Elapsed \<Rightarrow> Inl Timeout))"

definition expect_append_entries :: "network_error + ('a, 'v, 's) raft_rpc \<Rightarrow> network_error + 'a" where
  "expect_append_entries r = res_bind r (\<lambda>response. case response of
     AppendEntries a \<Rightarrow> Inr a | _ \<Rightarrow> Inl (WrongResponse ''append_entries'' (variant_name response)))"

definition expect_install_snapshot :: "network_error + ('a, 'v, 's) raft_rpc \<Rightarrow> network_error + 's" where
  "expect_install_snapshot r = res_bind r (\<lambda>response. case response of
     InstallSnapshotRpc a \<Rightarrow> Inr a | _ \<Rightarrow> Inl (WrongResponse ''install_snapshot'' (variant_name response)))"

definition expect_vote :: "network_error + ('a, 'v, 's) raft_rpc \<Rightarrow> network_error + 'v" where
  "expect_vote r = res_bind r (\<lambda>response. case response of
     VoteRpc a \<Rightarrow> Inr a | _ \<Rightarrow> Inl (WrongResponse ''vote'' (variant_name response)))"

text \<open>
  The three calls of \<open>RaftNetwork\<close>. \<open>fp\<close> is the fail point of the call: compiled in by the feature
  \<open>failpoints\<close> and set to return; without the feature it is \<open>False\<close>. \<open>stale\<close> builds the negative
  vote of term 0 that the fail point of \<open>vote\<close> answers with.
\<close>

definition net_append_entries ::
  "bool \<Rightarrow> (('qa, 'qv, 'qs) raft_rpc, ('a, 'v, 's) raft_rpc) rpc_codec \<Rightarrow> (bytes \<Rightarrow> try_send) \<Rightarrow> (nat \<Rightarrow> bytes \<Rightarrow> awaited)
     \<Rightarrow> nat \<Rightarrow> 'qa \<Rightarrow> network_error + 'a" where
  "net_append_entries fp C send await hard_ttl_ms rpc =
     (if fp then Inl OutboundClosed else expect_append_entries (round_trip C send await hard_ttl_ms (AppendEntries rpc)))"

definition net_install_snapshot ::
  "(('qa, 'qv, 'qs) raft_rpc, ('a, 'v, 's) raft_rpc) rpc_codec \<Rightarrow> (bytes \<Rightarrow> try_send) \<Rightarrow> (nat \<Rightarrow> bytes \<Rightarrow> awaited)
     \<Rightarrow> nat \<Rightarrow> 'qs \<Rightarrow> network_error + 's" where
  "net_install_snapshot C send await hard_ttl_ms rpc =
     expect_install_snapshot (round_trip C send await hard_ttl_ms (InstallSnapshotRpc rpc))"

definition net_vote ::
  "bool \<Rightarrow> (u64 \<Rightarrow> 'v) \<Rightarrow> u64 \<Rightarrow> (('qa, 'qv, 'qs) raft_rpc, ('a, 'v, 's) raft_rpc) rpc_codec \<Rightarrow> (bytes \<Rightarrow> try_send)
     \<Rightarrow> (nat \<Rightarrow> bytes \<Rightarrow> awaited) \<Rightarrow> nat \<Rightarrow> 'qv \<Rightarrow> network_error + 'v" where
  "net_vote fp stale target C send await hard_ttl_ms rpc =
     (if fp then Inr (stale target) else expect_vote (round_trip C send await hard_ttl_ms (VoteRpc rpc)))"

section \<open>The swarm loop\<close>

datatype outbound_failure = FailTimeout | FailConnectionClosed | FailDial | FailUnsupportedProtocols | FailIo string

fun map_outbound_failure :: "outbound_failure \<Rightarrow> network_error" where
  "map_outbound_failure FailTimeout = Timeout"
| "map_outbound_failure FailConnectionClosed = OutboundClosed"
| "map_outbound_failure FailDial = OutboundClosed"
| "map_outbound_failure FailUnsupportedProtocols = NetCodec ''remote peer does not advertise the omega raft protocol''"
| "map_outbound_failure (FailIo e) = NetCodec e"

text \<open>
  Reply channels are numbered; \<open>sw_replies\<close> lists what was sent on them, \<open>sw_sent\<close> and
  \<open>sw_answered\<close> what was handed to libp2p. An outbound event carries the request id that
  libp2p assigns if the request is sent.
\<close>

record ('q, 'r) swarm =
  sw_peers :: "u64 \<rightharpoonup> nat"
  sw_pending :: "nat \<rightharpoonup> nat"
  sw_sent :: "(nat \<times> nat \<times> 'q) list"
  sw_replies :: "(nat \<times> (network_error + bytes)) list"
  sw_answered :: "(nat \<times> 'r) list"

datatype ('q, 'r) swarm_event =
  EvOutbound u64 bytes nat nat
| EvRequest nat 'q nat
| EvResponse nat 'r
| EvOutboundFailure nat outbound_failure
| EvOther

definition on_outbound ::
  "('q, 'r) rpc_codec \<Rightarrow> u64 \<Rightarrow> bytes \<Rightarrow> nat \<Rightarrow> nat \<Rightarrow> ('q, 'r) swarm \<Rightarrow> network_error + ('q, 'r) swarm" where
  "on_outbound C target payload chan request_id sw = (case sw_peers sw target of
     None \<Rightarrow> Inr (sw\<lparr>sw_replies := sw_replies sw @ [(chan, Inl OutboundClosed)]\<rparr>)
   | Some peer \<Rightarrow>
       res_bind (decode_cbor (cbor_dec_request C) payload) (\<lambda>request.
       Inr (sw\<lparr>sw_sent := sw_sent sw @ [(peer, request_id, request)], sw_pending := (sw_pending sw)(request_id \<mapsto> chan)\<rparr>)))"

text \<open>\<open>handle\<close> is the application's handler; on its error the response channel is dropped.\<close>

definition on_inbound_request ::
  "('q \<Rightarrow> network_error + 'r) \<Rightarrow> 'q \<Rightarrow> nat \<Rightarrow> ('q, 'r) swarm \<Rightarrow> network_error + ('q, 'r) swarm" where
  "on_inbound_request handle request channel sw = (case handle request of
     Inr response \<Rightarrow> Inr (sw\<lparr>sw_answered := sw_answered sw @ [(channel, response)]\<rparr>)
   | Inl e \<Rightarrow> Inr sw)"

definition take_pending :: "nat \<Rightarrow> (network_error + bytes) \<Rightarrow> ('q, 'r) swarm \<Rightarrow> ('q, 'r) swarm" where
  "take_pending request_id r sw = (case sw_pending sw request_id of
     None \<Rightarrow> sw
   | Some chan \<Rightarrow> sw\<lparr>sw_pending := (sw_pending sw)(request_id := None), sw_replies := sw_replies sw @ [(chan, r)]\<rparr>)"

fun on_event ::
  "('q, 'r) rpc_codec \<Rightarrow> ('q \<Rightarrow> network_error + 'r) \<Rightarrow> ('q, 'r) swarm_event \<Rightarrow> ('q, 'r) swarm \<Rightarrow> network_error + ('q, 'r) swarm" where
  "on_event C handle (EvOutbound target payload chan request_id) sw = on_outbound C target payload chan request_id sw"
| "on_event C handle (EvRequest peer request channel) sw = on_inbound_request handle request channel sw"
| "on_event C handle (EvResponse request_id response) sw = (case sw_pending sw request_id of
     None \<Rightarrow> Inr sw
   | Some chan \<Rightarrow> res_bind (encode_cbor (cbor_enc_response C) response) (\<lambda>bytes. Inr (take_pending request_id (Inr bytes) sw)))"
| "on_event C handle (EvOutboundFailure request_id e) sw = Inr (take_pending request_id (Inl (map_outbound_failure e)) sw)"
| "on_event C handle EvOther sw = Inr sw"

text \<open>\<open>run\<close>: the first error ends the loop.\<close>

fun swarm_run ::
  "('q, 'r) rpc_codec \<Rightarrow> ('q \<Rightarrow> network_error + 'r) \<Rightarrow> ('q, 'r) swarm_event list \<Rightarrow> ('q, 'r) swarm \<Rightarrow> network_error + ('q, 'r) swarm" where
  "swarm_run C handle [] sw = Inr sw"
| "swarm_run C handle (e # es) sw = res_bind (on_event C handle e sw) (swarm_run C handle es)"

section \<open>Discovery\<close>

datatype discovery_error =
  MissingSeparator
| InvalidNodeId string
| EmptyMultiaddr
| InvalidMultiaddr string string

fun split_once :: "char \<Rightarrow> string \<Rightarrow> (string \<times> string) option" where
  "split_once c [] = None"
| "split_once c (x # xs) = (if x = c then Some ([], xs) else map_option (map_prod (Cons x) id) (split_once c xs))"

text \<open>\<open>str::parse::<u64>\<close>: an optional plus sign, at least one digit, and no overflow.\<close>

definition parse_u64 :: "string \<Rightarrow> u64 option" where
  "parse_u64 s =
     (let digits = (case s of [] \<Rightarrow> [] | c # cs \<Rightarrow> if c = CHR ''+'' then cs else s)
      in if digits \<noteq> [] \<and> list_all (\<lambda>c. of_char c \<in> {48..<58::nat}) digits \<and> read_nat digits < 2 ^ 64
         then Some (of_nat (read_nat digits)) else None)"

record 'a peer_address =
  pa_node_id :: u64
  pa_multiaddr :: 'a

definition peer_address_from_str :: "(string \<Rightarrow> string + 'a) \<Rightarrow> string \<Rightarrow> discovery_error + 'a peer_address" where
  "peer_address_from_str parse_multiaddr v =
     res_bind (ok_or (split_once (CHR ''='') v) MissingSeparator) (\<lambda>(node_id, multiaddr).
     res_bind (ok_or (parse_u64 node_id) (InvalidNodeId node_id)) (\<lambda>node_id.
     if multiaddr = [] then Inl EmptyMultiaddr
     else res_bind (map_err (InvalidMultiaddr multiaddr) (parse_multiaddr multiaddr)) (\<lambda>a.
          Inr \<lparr>pa_node_id = node_id, pa_multiaddr = a\<rparr>)))"

datatype mdns_mode = MdnsDisabled | MdnsEnabled string

definition mdns_preimage :: "bytes \<Rightarrow> bytes \<Rightarrow> bytes" where
  "mdns_preimage genesis installation_salt =
     ascii ''omega-network:mdns-service:v1'' @ to_be_bytes (as_u64 (length genesis)) @ genesis
       @ to_be_bytes (as_u64 (length installation_salt)) @ installation_salt"

definition mdns_service_name :: "digest \<Rightarrow> (bytes \<Rightarrow> string) \<Rightarrow> bytes \<Rightarrow> bytes \<Rightarrow> string" where
  "mdns_service_name S hex genesis installation_salt =
     ''_omega-experiment-'' @ hex (take 8 (S (mdns_preimage genesis installation_salt))) @ ''._udp.local''"

record 'a discovery_config =
  dc_mdns :: mdns_mode
  dc_static_peers :: "'a peer_address list"

definition discovery_config_new ::
  "digest \<Rightarrow> (bytes \<Rightarrow> string) \<Rightarrow> bytes \<Rightarrow> bytes \<Rightarrow> bool \<Rightarrow> 'a peer_address list \<Rightarrow> 'a discovery_config" where
  "discovery_config_new S hex genesis installation_salt mdns_disabled static_peers =
     \<lparr>dc_mdns = (if mdns_disabled then MdnsDisabled else MdnsEnabled (mdns_service_name S hex genesis installation_salt)),
      dc_static_peers = static_peers\<rparr>"

section \<open>Messages on the wire\<close>

lemma write_frame_Inr:
  "write_frame b = Inr w \<longleftrightarrow> length b \<le> MAX_FRAME_BYTES \<and> w = to_be_bytes (of_nat (length b) :: u32) @ b"
proof -
  have "try_u32 (length b) = Some (of_nat (length b))" if "length b \<le> MAX_FRAME_BYTES"
    using that by (simp add: try_u32_def MAX_FRAME_BYTES_def MAX_RAFT_RPC_BYTES_def)
  then show ?thesis by (auto simp: write_frame_def guard_eq_Inr)
qed

lemma read_written_frame: "write_frame b = Inr w \<Longrightarrow> read_frame (w @ rest) = Inr (b, rest)"
proof -
  assume "write_frame b = Inr w"
  then have b: "length b \<le> MAX_FRAME_BYTES" "w = to_be_bytes (of_nat (length b) :: u32) @ b"
    by (simp_all add: write_frame_Inr)
  then have "unat (of_nat (length b) :: u32) = length b"
    by (simp only: unat_of_nat) (simp add: take_bit_eq_mod MAX_FRAME_BYTES_def MAX_RAFT_RPC_BYTES_def)
  with b show ?thesis by (simp add: read_frame_def read_exact_def Let_def)
qed

section \<open>Requests and replies of the swarm\<close>

text \<open>The reply channel and the request id of every outbound event.\<close>

fun outbound_ids :: "('q, 'r) swarm_event list \<Rightarrow> (nat \<times> nat) list" where
  "outbound_ids [] = []"
| "outbound_ids (EvOutbound t p chan i # es) = (chan, i) # outbound_ids es"
| "outbound_ids (e # es) = outbound_ids es"

lemma outbound_ids_append [simp]: "outbound_ids (es @ es') = outbound_ids es @ outbound_ids es'"
  by (induction es rule: outbound_ids.induct) auto

definition fresh_event :: "('q, 'r) swarm_event list \<Rightarrow> ('q, 'r) swarm_event \<Rightarrow> bool" where
  "fresh_event es e \<longleftrightarrow> (case e of EvOutbound t p chan i \<Rightarrow>
     chan \<notin> fst ` set (outbound_ids es) \<and> i \<notin> snd ` set (outbound_ids es) | _ \<Rightarrow> True)"

inductive swarm_reach ::
  "('q, 'r) rpc_codec \<Rightarrow> ('q \<Rightarrow> network_error + 'r) \<Rightarrow> ('q, 'r) swarm \<Rightarrow> ('q, 'r) swarm_event list \<Rightarrow> ('q, 'r) swarm \<Rightarrow> bool"
  for C handle sw0 where
  start: "swarm_reach C handle sw0 [] sw0"
| step: "swarm_reach C handle sw0 es sw \<Longrightarrow> fresh_event es e \<Longrightarrow> on_event C handle e sw = Inr sw'
    \<Longrightarrow> swarm_reach C handle sw0 (es @ [e]) sw'"

inductive_cases swarm_reach_NilE: "swarm_reach C handle sw0 [] sw"

definition swarm_new :: "(u64 \<rightharpoonup> nat) \<Rightarrow> ('q, 'r) swarm" where
  "swarm_new peers = \<lparr>sw_peers = peers, sw_pending = Map.empty, sw_sent = [], sw_replies = [], sw_answered = []\<rparr>"

text \<open>
  Every channel is waiting or has been answered, never both and never twice, and a positive
  answer is the encoding of a response to the channel's own request.
\<close>

definition swarm_inv :: "('q, 'r) rpc_codec \<Rightarrow> ('q, 'r) swarm_event list \<Rightarrow> ('q, 'r) swarm \<Rightarrow> bool" where
  "swarm_inv C es sw \<longleftrightarrow>
     (\<forall>i chan. sw_pending sw i = Some chan \<longrightarrow> (chan, i) \<in> set (outbound_ids es))
     \<and> distinct (map fst (sw_replies sw)) \<and> set (map fst (sw_replies sw)) \<inter> ran (sw_pending sw) = {}
     \<and> set (map fst (sw_replies sw)) \<union> ran (sw_pending sw) = fst ` set (outbound_ids es)
     \<and> inj_on (sw_pending sw) (dom (sw_pending sw))
     \<and> (\<forall>chan b. (chan, Inr b) \<in> set (sw_replies sw) \<longrightarrow> (\<exists>i r. (chan, i) \<in> set (outbound_ids es)
          \<and> EvResponse i r \<in> set es \<and> cbor_enc_response C r = Inr b))"

lemma swarm_inv_mono:
  "swarm_inv C es sw \<Longrightarrow> outbound_ids [e] = [] \<Longrightarrow> swarm_inv C (es @ [e]) sw"
  unfolding swarm_inv_def outbound_ids_append by (simp, blast)

lemma swarm_inv_take_pending:
  assumes "swarm_inv C es sw"
    and "\<And>b chan. r = Inr b \<Longrightarrow> sw_pending sw i = Some chan \<Longrightarrow> \<exists>x. EvResponse i x \<in> set es \<and> cbor_enc_response C x = Inr b"
  shows "swarm_inv C es (take_pending i r sw)"
proof (cases "sw_pending sw i")
  case None
  with assms(1) show ?thesis by (simp add: take_pending_def)
next
  case (Some chan)
  note inv = assms(1) [unfolded swarm_inv_def]
  have c: "(chan, i) \<in> set (outbound_ids es)" using inv Some by blast
  have only: "j = i" if "sw_pending sw j = Some chan" for j
    using inv Some that by (metis domI inj_onD)
  have ran: "ran ((sw_pending sw)(i := None)) = ran (sw_pending sw) - {chan}"
    using Some by (simp add: ran_def set_eq_iff) (metis only option.inject)
  have cr: "chan \<in> ran (sw_pending sw)" using Some by (auto simp: ran_def)
  have new: "chan \<notin> set (map fst (sw_replies sw))" using cr inv by blast
  have tp: "take_pending i r sw = sw\<lparr>sw_pending := (sw_pending sw)(i := None), sw_replies := sw_replies sw @ [(chan, r)]\<rparr>"
    using Some by (simp add: take_pending_def)
  let ?pend = "(sw_pending sw)(i := None)" and ?reps = "sw_replies sw @ [(chan, r)]"
  have f1: "(chan', j) \<in> set (outbound_ids es)" if "?pend j = Some chan'" for j chan'
    using inv that by (auto split: if_splits)
  have f2: "distinct (map fst ?reps)" "set (map fst ?reps) \<inter> ran ?pend = {}"
    using inv new ran by auto
  have f3: "set (map fst ?reps) \<union> ran ?pend = fst ` set (outbound_ids es)"
    using inv cr by (simp only: ran map_append set_append) auto
  have f4: "inj_on ?pend (dom ?pend)" using inv by (auto simp: inj_on_def)
  have f5: "\<exists>i r. (chan', i) \<in> set (outbound_ids es) \<and> EvResponse i r \<in> set es \<and> cbor_enc_response C r = Inr b"
    if "(chan', Inr b) \<in> set ?reps" for chan' b
  proof (cases "(chan', Inr b) \<in> set (sw_replies sw)")
    case True
    with inv show ?thesis by blast
  next
    case False
    with that have "chan' = chan" "r = Inr b" by auto
    with assms(2) [OF _ Some] c show ?thesis by blast
  qed
  have "sw_pending (take_pending i r sw) = ?pend" "sw_replies (take_pending i r sw) = ?reps" by (simp_all add: tp)
  then show ?thesis unfolding swarm_inv_def by (simp only:) (intro conjI allI impI f1 f2 f3 f4 f5; assumption)
qed

lemma swarm_inv_outbound:
  assumes "swarm_inv C es sw" "fresh_event es (EvOutbound t p chan i)" "on_outbound C t p chan i sw = Inr sw'"
  shows "swarm_inv C (es @ [EvOutbound t p chan i]) sw'"
proof -
  note inv = assms(1) [unfolded swarm_inv_def]
  have new: "chan \<notin> fst ` set (outbound_ids es)" "i \<notin> snd ` set (outbound_ids es)"
    using assms(2) by (simp_all add: fresh_event_def)
  have fresh: "chan \<notin> set (map fst (sw_replies sw))" "chan \<notin> ran (sw_pending sw)" using inv new(1) by blast+
  have none: "sw_pending sw i = None"
  proof (rule ccontr)
    assume "sw_pending sw i \<noteq> None"
    then obtain c where "sw_pending sw i = Some c" by blast
    with inv have "(c, i) \<in> set (outbound_ids es)" by blast
    with new(2) show False by force
  qed
  let ?es = "es @ [EvOutbound t p chan i]"
  have out: "outbound_ids ?es = outbound_ids es @ [(chan, i)]" by simp
  have resp: "\<exists>i r. (chan', i) \<in> set (outbound_ids ?es) \<and> EvResponse i r \<in> set ?es \<and> cbor_enc_response C r = Inr b"
    if "(chan', Inr b) \<in> set (sw_replies sw)" for chan' b
  proof -
    from inv that obtain j r where "(chan', j) \<in> set (outbound_ids es)" "EvResponse j r \<in> set es" "cbor_enc_response C r = Inr b"
      by blast
    then show ?thesis by (intro exI [of _ j] exI [of _ r]) simp
  qed
  have inj: "inj_on (sw_pending sw) (dom (sw_pending sw))" "distinct (map fst (sw_replies sw))" using inv by blast+
  show ?thesis
  proof (cases "sw_peers sw t")
    case None
    then have sw': "sw_pending sw' = sw_pending sw" "sw_replies sw' = sw_replies sw @ [(chan, Inl OutboundClosed)]"
      using assms(3) by (auto simp: on_outbound_def)
    have "(chan', j) \<in> set (outbound_ids ?es)" if "sw_pending sw j = Some chan'" for j chan'
      using inv that by auto
    moreover have "distinct (map fst (sw_replies sw'))" "set (map fst (sw_replies sw')) \<inter> ran (sw_pending sw) = {}"
      "set (map fst (sw_replies sw')) \<union> ran (sw_pending sw) = fst ` set (outbound_ids ?es)"
      using inv fresh unfolding sw' out by (simp_all add: Un_assoc)
    moreover have "\<exists>i r. (chan', i) \<in> set (outbound_ids ?es) \<and> EvResponse i r \<in> set ?es \<and> cbor_enc_response C r = Inr b"
      if "(chan', Inr b) \<in> set (sw_replies sw')" for chan' b
      using resp that unfolding sw' by auto
    ultimately show ?thesis unfolding swarm_inv_def sw'(1) using inj by (intro conjI allI impI)
  next
    case (Some peer)
    then obtain q where sw': "sw_pending sw' = (sw_pending sw)(i \<mapsto> chan)" "sw_replies sw' = sw_replies sw"
      using assms(3) by (auto simp: on_outbound_def)
    have ran: "ran (sw_pending sw') = insert chan (ran (sw_pending sw))" unfolding sw' using none by (rule ran_map_upd)
    have "(chan', j) \<in> set (outbound_ids ?es)" if "sw_pending sw' j = Some chan'" for j chan'
      using inv that unfolding sw' by (auto split: if_splits)
    moreover have "set (map fst (sw_replies sw)) \<inter> ran (sw_pending sw') = {}"
      "set (map fst (sw_replies sw)) \<union> ran (sw_pending sw') = fst ` set (outbound_ids ?es)"
      using inv fresh unfolding ran out by simp_all
    moreover have "inj_on (sw_pending sw') (dom (sw_pending sw'))"
      using inv fresh(2) none unfolding sw' by (auto simp: inj_on_def ran_def)
    ultimately show ?thesis unfolding swarm_inv_def sw'(2) using inj resp by (intro conjI allI impI)
  qed
qed

lemma swarm_reach_inv: "swarm_reach C handle (swarm_new peers) es sw \<Longrightarrow> swarm_inv C es sw"
proof (induction rule: swarm_reach.induct)
  case start
  show ?case by (simp add: swarm_inv_def swarm_new_def)
next
  case (step es sw e sw')
  show ?case
  proof (cases e)
    case (EvOutbound t p chan i)
    with step swarm_inv_outbound show ?thesis by auto
  next
    case (EvRequest peer q ch)
    then have "sw_pending sw' = sw_pending sw" "sw_replies sw' = sw_replies sw"
      using step.hyps(3) by (auto simp: on_inbound_request_def split: sum.splits)
    then have "swarm_inv C es sw'" using step.IH by (simp add: swarm_inv_def)
    with EvRequest show ?thesis by (auto intro: swarm_inv_mono)
  next
    case (EvResponse i r)
    have inv: "swarm_inv C (es @ [e]) sw" using step.IH EvResponse by (intro swarm_inv_mono) auto
    show ?thesis
    proof (cases "sw_pending sw i")
      case None
      with step.hyps(3) EvResponse inv show ?thesis by simp
    next
      case (Some chan)
      with step.hyps(3) EvResponse obtain b where b: "cbor_enc_response C r = Inr b" "sw' = take_pending i (Inr b) sw"
        by (auto simp: encode_cbor_def)
      have "swarm_inv C (es @ [e]) (take_pending i (Inr b) sw)"
        by (rule swarm_inv_take_pending [OF inv]) (use b(1) EvResponse in auto)
      with b(2) show ?thesis by simp
    qed
  next
    case (EvOutboundFailure i err)
    have inv: "swarm_inv C (es @ [e]) sw" using step.IH EvOutboundFailure by (intro swarm_inv_mono) auto
    from swarm_inv_take_pending [OF inv, of "Inl (map_outbound_failure err)" i] step.hyps(3) EvOutboundFailure
    show ?thesis by simp
  next
    case EvOther
    with step show ?thesis by (auto intro: swarm_inv_mono)
  qed
qed

text \<open>Runs of the loop with fresh channels and request ids are the reachable ones.\<close>

fun fresh_run :: "('q, 'r) swarm_event list \<Rightarrow> ('q, 'r) swarm_event list \<Rightarrow> bool" where
  "fresh_run done [] = True"
| "fresh_run done (e # es) = (fresh_event done e \<and> fresh_run (done @ [e]) es)"

lemma swarm_run_reach:
  "swarm_reach C handle sw0 done sw \<Longrightarrow> fresh_run done es \<Longrightarrow> swarm_run C handle es sw = Inr sw' \<Longrightarrow>
   swarm_reach C handle sw0 (done @ es) sw'"
proof (induction es arbitrary: \<open>done\<close> sw)
  case (Cons e es)
  from Cons.prems(3) obtain sw1 where e: "on_event C handle e sw = Inr sw1" "swarm_run C handle es sw1 = Inr sw'"
    by auto
  from Cons.prems(1,2) e(1) have "swarm_reach C handle sw0 (done @ [e]) sw1"
    by (intro swarm_reach.step [of C handle sw0 "done" sw]) auto
  from Cons.IH [OF this _ e(2)] Cons.prems(2) show ?case by simp
qed simp

section \<open>Properties\<close>

text \<open>
  C34. A raft message that was written is read back: for every value whose CBOR encoding decodes
  to it, the bytes on the stream read as that value, and the rest of the stream is untouched.
\<close>

theorem message_round_trip:
  assumes "write_message enc v = Inr w" "\<And>b. enc v = Inr b \<Longrightarrow> dec b = Inr v"
  shows "read_message dec (w @ rest) = Inr (v, rest)"
proof -
  from assms(1) obtain b where b: "enc v = Inr b" "write_frame b = Inr w"
    by (auto simp: write_message_def encode_cbor_def)
  have "length b \<le> MAX_RAFT_RPC_BYTES" using b(2) by (simp add: write_frame_Inr MAX_FRAME_BYTES_def)
  with assms(2) [OF b(1)] show ?thesis
    by (simp add: read_message_def read_written_frame [OF b(2)] decode_cbor_def)
qed

theorem message_round_trip_witness:
  "\<exists>w. write_message (\<lambda>n::nat. Inr [of_nat n]) 7 = Inr w \<and> read_message (\<lambda>b. Inr (unat (hd b))) (w @ [1, 2]) = Inr (7, [1, 2])"
proof -
  obtain w where w: "write_message (\<lambda>n::nat. Inr [of_nat n]) 7 = Inr w"
    by (simp add: write_message_def encode_cbor_def write_frame_def try_u32_def MAX_FRAME_BYTES_def MAX_RAFT_RPC_BYTES_def)
  from message_round_trip [OF w, of "\<lambda>b. Inr (unat (hd b))" "[1, 2]"] w show ?thesis by simp
qed

text \<open>
  C35. Replies reach the caller they belong to: over every run of the swarm in which libp2p hands
  out fresh request ids, each reply channel is waiting or was answered exactly once, and a
  channel that got bytes got the encoding of a response to its own request.
\<close>

theorem swarm_replies_correlate:
  assumes "swarm_run C handle es (swarm_new peers) = Inr sw" "fresh_run [] es"
  shows "distinct (map fst (sw_replies sw))
    \<and> set (map fst (sw_replies sw)) \<inter> ran (sw_pending sw) = {}
    \<and> set (map fst (sw_replies sw)) \<union> ran (sw_pending sw) = fst ` set (outbound_ids es)
    \<and> ((chan, Inr b) \<in> set (sw_replies sw) \<longrightarrow>
        (\<exists>i r. (chan, i) \<in> set (outbound_ids es) \<and> EvResponse i r \<in> set es \<and> cbor_enc_response C r = Inr b))"
proof -
  have "swarm_reach C handle (swarm_new peers) ([] @ es) sw"
    using swarm_reach.start assms(2,1) by (rule swarm_run_reach)
  from swarm_reach_inv [OF this] have inv: "swarm_inv C es sw" by simp
  then show ?thesis unfolding swarm_inv_def by (intro conjI) (elim conjE, assumption | blast)+
qed

definition example_rpc_codec :: "(nat, nat) rpc_codec" where
  "example_rpc_codec = \<lparr>cbor_enc_request = (\<lambda>n. Inr [of_nat n]), cbor_dec_request = (\<lambda>b. Inr (unat (hd b))),
     cbor_enc_response = (\<lambda>n. Inr [of_nat n]), cbor_dec_response = (\<lambda>b. Inr (unat (hd b)))\<rparr>"

definition example_events :: "(nat, nat) swarm_event list" where
  "example_events = [EvOutbound 1 [5] 10 100, EvOutbound 2 [6] 11 101, EvResponse 101 9, EvOutbound 3 [7] 12 102,
     EvOutboundFailure 100 FailTimeout]"

theorem swarm_replies_correlate_witness:
  "\<exists>sw. swarm_run example_rpc_codec (\<lambda>q. Inr q) example_events (swarm_new [1 \<mapsto> 0, 2 \<mapsto> 1]) = Inr sw
    \<and> sw_replies sw = [(11, Inr [9]), (12, Inl OutboundClosed), (10, Inl Timeout)] \<and> distinct (map fst (sw_replies sw))"
proof -
  obtain sw where run: "swarm_run example_rpc_codec (\<lambda>q. Inr q) example_events (swarm_new [1 \<mapsto> 0, 2 \<mapsto> 1]) = Inr sw"
    and r: "sw_replies sw = [(11, Inr [9]), (12, Inl OutboundClosed), (10, Inl Timeout)]"
    by (simp add: example_events_def example_rpc_codec_def swarm_new_def on_outbound_def decode_cbor_def encode_cbor_def
        take_pending_def MAX_RAFT_RPC_BYTES_def)
  have "fresh_run [] example_events" by (simp add: example_events_def fresh_event_def)
  from swarm_replies_correlate [OF run this] run r show ?thesis by blast
qed

end
