(* ===== verification/Commitment_Bundle.thy ===== *)
theory Commitment_Bundle
  imports Utxo_Leaf
begin

text \<open>
  The crate \<open>omega-commitment-bundle\<close>: the seven sub-trees in their canonical order
  (\<open>sub_tree_id.rs\<close>), the two roots of one sub-tree from its raw input (\<open>recompute.rs\<close>), and the
  bundle over all seven with its verification (\<open>bundle.rs\<close>). The JSON parser and the hex
  encoder are third-party crates and parameters; a directory is what \<open>fs::read_to_string\<close>
  returns for each file name in it.
\<close>

section \<open>Sub-trees\<close>

datatype sub_tree_id = IdUtxo | IdHeader | IdTxIndex | IdTokenPolicy | IdScript | IdStake | IdGovernance

definition ALL_SUB_TREES :: "sub_tree_id list" where
  "ALL_SUB_TREES = [IdUtxo, IdHeader, IdTxIndex, IdTokenPolicy, IdScript, IdStake, IdGovernance]"

fun filename :: "sub_tree_id \<Rightarrow> string" where
  "filename IdUtxo = ''utxo.json''"
| "filename IdHeader = ''header.json''"
| "filename IdTxIndex = ''tx_index.json''"
| "filename IdTokenPolicy = ''token_policy.json''"
| "filename IdScript = ''script.json''"
| "filename IdStake = ''stake.json''"
| "filename IdGovernance = ''governance.json''"

fun label :: "sub_tree_id \<Rightarrow> string" where
  "label IdUtxo = ''utxo''"
| "label IdHeader = ''header''"
| "label IdTxIndex = ''tx-index''"
| "label IdTokenPolicy = ''token-policy''"
| "label IdScript = ''script''"
| "label IdStake = ''stake''"
| "label IdGovernance = ''governance''"

fun numeric_id :: "sub_tree_id \<Rightarrow> u8" where
  "numeric_id IdUtxo = SUB_TREE_ID_UTXO"
| "numeric_id IdHeader = SUB_TREE_ID_HEADER"
| "numeric_id IdTxIndex = SUB_TREE_ID_TX_INDEX"
| "numeric_id IdTokenPolicy = SUB_TREE_ID_TOKEN_POLICY"
| "numeric_id IdScript = SUB_TREE_ID_SCRIPT"
| "numeric_id IdStake = SUB_TREE_ID_STAKE"
| "numeric_id IdGovernance = SUB_TREE_ID_GOVERNANCE"

section \<open>Inputs\<close>

text \<open>The input structs of the seven files, each with its only field.\<close>

datatype sub_tree_input =
    UtxoInput "utxo list"
  | HeaderInput "block_header list"
  | TxIndexInput "tx_index_entry list"
  | TokenPolicyInput "token_policy list"
  | ScriptInput "script_entry list"
  | StakeInput "stake_entry list"
  | GovernanceInput "governance_fact list"

text \<open>
  \<open>serde_json::from_str\<close> at the seven input types (an error as its text) and \<open>hex::encode\<close>.
\<close>

record json_lib =
  json_utxos :: "bytes \<Rightarrow> string + utxo list"
  json_headers :: "bytes \<Rightarrow> string + block_header list"
  json_entries :: "bytes \<Rightarrow> string + tx_index_entry list"
  json_policies :: "bytes \<Rightarrow> string + token_policy list"
  json_scripts :: "bytes \<Rightarrow> string + script_entry list"
  json_stake_entries :: "bytes \<Rightarrow> string + stake_entry list"
  json_facts :: "bytes \<Rightarrow> string + governance_fact list"
  hex_encode :: "bytes \<Rightarrow> string"

fun from_str :: "json_lib \<Rightarrow> sub_tree_id \<Rightarrow> bytes \<Rightarrow> string + sub_tree_input" where
  "from_str J IdUtxo raw = map_sum id UtxoInput (json_utxos J raw)"
| "from_str J IdHeader raw = map_sum id HeaderInput (json_headers J raw)"
| "from_str J IdTxIndex raw = map_sum id TxIndexInput (json_entries J raw)"
| "from_str J IdTokenPolicy raw = map_sum id TokenPolicyInput (json_policies J raw)"
| "from_str J IdScript raw = map_sum id ScriptInput (json_scripts J raw)"
| "from_str J IdStake raw = map_sum id StakeInput (json_stake_entries J raw)"
| "from_str J IdGovernance raw = map_sum id GovernanceInput (json_facts J raw)"

text \<open>The byte-array fields of a parsed record have their declared lengths.\<close>

fun input_wf :: "sub_tree_input \<Rightarrow> bool" where
  "input_wf (UtxoInput us) = list_all utxo_wf us"
| "input_wf (HeaderInput hs) = list_all block_header_wf hs"
| "input_wf (TxIndexInput es) = list_all tx_index_entry_wf es"
| "input_wf (TokenPolicyInput ps) = list_all token_policy_wf ps"
| "input_wf (ScriptInput ss) = list_all script_entry_wf ss"
| "input_wf (StakeInput ss) = list_all stake_entry_wf ss"
| "input_wf (GovernanceInput fs) = list_all governance_fact_wf fs"

definition json_laws :: "json_lib \<Rightarrow> bool" where
  "json_laws J \<longleftrightarrow> (\<forall>st raw i. from_str J st raw = Inr i \<longrightarrow> input_wf i)"

section \<open>Recomputing one sub-tree\<close>

text \<open>The errors that reach the \<open>anyhow::Error\<close> of \<open>recompute\<close>.\<close>

datatype recompute_error = JsonRejected string | LeafRejected leaf_error | BuildRejected build_error

record sub_tree_roots =
  r_blake3_root :: hash
  r_sha3_root :: hash
  r_input_digest :: hash
  r_leaf_count :: nat
  r_tree_depth :: nat
  r_item_count :: nat

fun input_payloads :: "sub_tree_input \<Rightarrow> leaf_error + bytes list" where
  "input_payloads (UtxoInput us) = collect_results utxo_commit_to_subtree us"
| "input_payloads (HeaderInput hs) = Inr (map block_header_commit_to_subtree hs)"
| "input_payloads (TxIndexInput es) = Inr (map tx_index_entry_commit_to_subtree es)"
| "input_payloads (TokenPolicyInput ps) = Inr (map token_policy_commit_to_subtree ps)"
| "input_payloads (ScriptInput ss) = Inr (map script_entry_commit_to_subtree ss)"
| "input_payloads (StakeInput ss) = Inr (map stake_entry_commit_to_subtree ss)"
| "input_payloads (GovernanceInput fs) = Inr (map governance_fact_commit_to_subtree fs)"

fun input_length :: "sub_tree_input \<Rightarrow> nat" where
  "input_length (UtxoInput us) = length us"
| "input_length (HeaderInput hs) = length hs"
| "input_length (TxIndexInput es) = length es"
| "input_length (TokenPolicyInput ps) = length ps"
| "input_length (ScriptInput ss) = length ss"
| "input_length (StakeInput ss) = length ss"
| "input_length (GovernanceInput fs) = length fs"

definition build_payloads :: "json_lib \<Rightarrow> sub_tree_id \<Rightarrow> bytes \<Rightarrow> recompute_error + (u8 \<times> bytes list \<times> nat)" where
  "build_payloads J sub_tree raw =
     res_bind (map_err JsonRejected (from_str J sub_tree raw)) (\<lambda>parsed.
     res_bind (map_err LeafRejected (input_payloads parsed)) (\<lambda>payloads.
     Inr (numeric_id sub_tree, payloads, input_length parsed)))"

text \<open>
  The SHA3 loop: each round replaces the layer by the hashes of its pairs; \<open>chunk[1]\<close> of an
  odd layer and \<open>current[0]\<close> of an empty one are panics, \<open>None\<close>.
\<close>

definition sha3_pair :: "digest \<Rightarrow> hash \<Rightarrow> hash \<Rightarrow> hash" where
  "sha3_pair S l r = sha3_256 S (l @ r)"

function sha3_reduce :: "digest \<Rightarrow> hash list \<Rightarrow> hash option" where
  "sha3_reduce S current =
     (if 1 < length current
      then (case hash_pairs (sha3_pair S) current of None \<Rightarrow> None | Some next \<Rightarrow> sha3_reduce S next)
      else get_at current 0)"
  by pat_completeness auto
termination
  by (relation "measure (\<lambda>(S, current). length current)") (auto dest: hash_pairs_shorter)

declare sha3_reduce.simps [simp del]

definition sha3_root_of_v1 :: "digest \<Rightarrow> digest \<Rightarrow> u8 \<Rightarrow> bytes list \<Rightarrow> hash option" where
  "sha3_root_of_v1 H S sub_tree_id payloads =
     sha3_reduce S (pad_leaves (leaf_hash_v2 H sub_tree_id EMPTY_INDEX_SENTINEL [])
       (v1_leaves H sub_tree_id (sort payloads)))"

definition recompute :: "digest \<Rightarrow> digest \<Rightarrow> json_lib \<Rightarrow> sub_tree_id \<Rightarrow> bytes \<Rightarrow> (recompute_error + sub_tree_roots) option" where
  "recompute H S J sub_tree raw =
     (case build_payloads J sub_tree raw of
        Inl e \<Rightarrow> Some (Inl e)
      | Inr (sub_tree_id, payloads, item_count) \<Rightarrow>
          (case build_v1 H sub_tree_id payloads of
             None \<Rightarrow> None
           | Some (Inl e) \<Rightarrow> Some (Inl (BuildRejected e))
           | Some (Inr tree) \<Rightarrow>
               Option.bind (root tree) (\<lambda>blake3_root.
               Option.bind (sha3_root_of_v1 H S sub_tree_id payloads) (\<lambda>sha3_root.
               Some (Inr \<lparr>r_blake3_root = blake3_root, r_sha3_root = sha3_root, r_input_digest = blake3_256 H raw,
                 r_leaf_count = leaf_count tree, r_tree_depth = depth tree, r_item_count = item_count\<rparr>)))))"

section \<open>The bundle\<close>

definition BUNDLE_SCHEMA_VERSION :: u32 where
  "BUNDLE_SCHEMA_VERSION = 1"

record sub_tree_record =
  sub_tree :: string
  blake3_root :: hash
  sha3_root :: hash
  input_digest :: hash
  st_leaf_count :: nat
  tree_depth :: nat
  item_count :: nat

record bundle_record =
  schema_version :: u32
  blake3_bundle_root :: hash
  sha3_bundle_root :: hash
  sub_trees :: "sub_tree_record list"

datatype bundle_error =
    BundleIo string string
  | BundleJson string string
  | BundleRecompute string recompute_error
  | BundleMismatch string string string
  | DuplicateSemanticKey u8 u64
  | SchemaVersionMismatch u32 u32
  | BundleOther string

type_synonym directory = "string \<Rightarrow> string + bytes"

definition aggregate_preimage :: "(sub_tree_record \<Rightarrow> hash) \<Rightarrow> sub_tree_record list \<Rightarrow> bytes" where
  "aggregate_preimage f rs = concat (map f rs)"

definition aggregate_blake3 :: "digest \<Rightarrow> sub_tree_record list \<Rightarrow> hash" where
  "aggregate_blake3 H rs = blake3_256 H (aggregate_preimage blake3_root rs)"

definition aggregate_sha3 :: "digest \<Rightarrow> sub_tree_record list \<Rightarrow> hash" where
  "aggregate_sha3 S rs = sha3_256 S (aggregate_preimage sha3_root rs)"

definition record_of :: "sub_tree_id \<Rightarrow> sub_tree_roots \<Rightarrow> sub_tree_record" where
  "record_of st roots =
     \<lparr>sub_tree = label st, blake3_root = r_blake3_root roots, sha3_root = r_sha3_root roots,
      input_digest = r_input_digest roots, st_leaf_count = r_leaf_count roots,
      tree_depth = r_tree_depth roots, item_count = r_item_count roots\<rparr>"

text \<open>One round of the loop of \<open>assemble\<close>, and the loop, which stops at the first error.\<close>

definition assemble_one :: "digest \<Rightarrow> digest \<Rightarrow> json_lib \<Rightarrow> directory \<Rightarrow> sub_tree_id \<Rightarrow> (bundle_error + sub_tree_record) option" where
  "assemble_one H S J input_dir st =
     (case input_dir (filename st) of
        Inl e \<Rightarrow> Some (Inl (BundleIo (filename st) e))
      | Inr raw \<Rightarrow> map_option (map_sum (BundleRecompute (label st)) (record_of st)) (recompute H S J st raw))"

fun assemble_from :: "digest \<Rightarrow> digest \<Rightarrow> json_lib \<Rightarrow> directory \<Rightarrow> sub_tree_id list \<Rightarrow> (bundle_error + sub_tree_record list) option" where
  "assemble_from H S J input_dir [] = Some (Inr [])"
| "assemble_from H S J input_dir (st # sts) =
     (case assemble_one H S J input_dir st of
        None \<Rightarrow> None
      | Some (Inl e) \<Rightarrow> Some (Inl e)
      | Some (Inr r) \<Rightarrow> map_option (map_sum id (\<lambda>rs. r # rs)) (assemble_from H S J input_dir sts))"

definition assemble :: "digest \<Rightarrow> digest \<Rightarrow> json_lib \<Rightarrow> directory \<Rightarrow> (bundle_error + bundle_record) option" where
  "assemble H S J input_dir =
     map_option (map_sum id (\<lambda>rs.
       \<lparr>schema_version = BUNDLE_SCHEMA_VERSION, blake3_bundle_root = aggregate_blake3 H rs,
        sha3_bundle_root = aggregate_sha3 S rs, sub_trees = rs\<rparr>))
     (assemble_from H S J input_dir ALL_SUB_TREES)"

text \<open>The loop over the published and the recomputed item counts.\<close>

fun check_item_counts :: "sub_tree_record list \<Rightarrow> sub_tree_record list \<Rightarrow> bundle_error + unit" where
  "check_item_counts (published # ps) (recomputed # rs) =
     (if item_count published \<noteq> item_count recomputed
      then Inl (BundleMismatch (''item_count['' @ sub_tree published @ '']'')
             (show_nat (item_count published)) (show_nat (item_count recomputed)))
      else check_item_counts ps rs)"
| "check_item_counts _ _ = Inr ()"

definition compare_bundles :: "json_lib \<Rightarrow> bundle_record \<Rightarrow> bundle_record \<Rightarrow> bundle_error + unit" where
  "compare_bundles J bundle fresh =
     (if blake3_bundle_root fresh \<noteq> blake3_bundle_root bundle
      then Inl (BundleMismatch ''blake3_bundle_root'' (hex_encode J (blake3_bundle_root bundle))
             (hex_encode J (blake3_bundle_root fresh)))
      else if sha3_bundle_root fresh \<noteq> sha3_bundle_root bundle
      then Inl (BundleMismatch ''sha3_bundle_root'' (hex_encode J (sha3_bundle_root bundle))
             (hex_encode J (sha3_bundle_root fresh)))
      else if length (sub_trees fresh) \<noteq> length (sub_trees bundle)
      then Inl (BundleMismatch ''sub_trees.len'' (show_nat (length (sub_trees bundle)))
             (show_nat (length (sub_trees fresh))))
      else res_bind (check_item_counts (sub_trees bundle) (sub_trees fresh)) (\<lambda>_.
           if sub_trees fresh \<noteq> sub_trees bundle
           then Inl (BundleMismatch ''sub_trees'' ''<per-sub-tree records>'' ''<per-sub-tree records differ>'')
           else if schema_version fresh \<noteq> schema_version bundle
           then Inl (SchemaVersionMismatch (schema_version bundle) (schema_version fresh))
           else Inr ()))"

definition bundle_verify :: "digest \<Rightarrow> digest \<Rightarrow> json_lib \<Rightarrow> bundle_record \<Rightarrow> directory \<Rightarrow> (bundle_error + unit) option" where
  "bundle_verify H S J bundle input_dir =
     map_option (\<lambda>m. res_bind m (compare_bundles J bundle)) (assemble H S J input_dir)"

section \<open>What is recomputed\<close>

lemma sha3_reduce_perfect: "length xs = 2 ^ d \<Longrightarrow> sha3_reduce S xs = Some (mroot (sha3_pair S) d xs)"
proof (induction d arbitrary: xs)
  case 0
  then obtain x where "xs = [x]" by (auto simp: length_Suc_conv)
  then show ?case by (simp add: sha3_reduce.simps get_at_def)
next
  case (Suc d)
  have "hash_pairs (sha3_pair S) xs = Some (parents (sha3_pair S) (2 ^ d) xs)"
    using Suc.prems by (intro hash_pairs_parents) simp
  with Suc.IH [of "parents (sha3_pair S) (2 ^ d) xs"] show ?case
    using Suc.prems one_less_power [of "2::nat" "Suc d"] by (subst sha3_reduce.simps) (simp add: mroot_parents)
qed

lemma sha3_root_of_v1_spec:
  "sha3_root_of_v1 H S s ps = Some (mroot (sha3_pair S) (v1_depth ps) (v1_all_leaves H s ps))"
  by (simp add: sha3_root_of_v1_def pad_v1_leaves sha3_reduce_perfect)

text \<open>The roots of a sub-tree by the recursive specification.\<close>

definition roots_spec :: "digest \<Rightarrow> digest \<Rightarrow> bytes \<Rightarrow> u8 \<Rightarrow> bytes list \<Rightarrow> sub_tree_roots" where
  "roots_spec H S raw s ps =
     \<lparr>r_blake3_root = v1_root H s ps, r_sha3_root = mroot (sha3_pair S) (v1_depth ps) (v1_all_leaves H s ps),
      r_input_digest = H raw, r_leaf_count = 2 ^ v1_depth ps, r_tree_depth = v1_depth ps, r_item_count = length ps\<rparr>"

lemma input_payloads_length: "input_payloads i = Inr ps \<Longrightarrow> length ps = input_length i"
  by (cases i) (auto simp: collect_results_length)

lemma build_payloads_Inr:
  "build_payloads J st raw = Inr (s, ps, n) \<longleftrightarrow>
     (\<exists>i. from_str J st raw = Inr i \<and> input_payloads i = Inr ps \<and> s = numeric_id st \<and> n = length ps)"
  by (auto simp: build_payloads_def input_payloads_length)

lemma recompute_distinct:
  assumes "build_payloads J st raw = Inr (s, ps, n)" "distinct ps"
  shows "recompute H S J st raw = Some (Inr (roots_spec H S raw s ps))"
proof -
  have "n = length ps" using assms(1) by (auto simp: build_payloads_Inr)
  with assms show ?thesis
    by (simp add: recompute_def build_v1_distinct v1_tree_simps sha3_root_of_v1_spec roots_spec_def blake3_256_def)
qed

lemma recompute_Inr:
  "recompute H S J st raw = Some (Inr r) \<longleftrightarrow>
     (\<exists>i ps. from_str J st raw = Inr i \<and> input_payloads i = Inr ps \<and> distinct ps
        \<and> r = roots_spec H S raw (numeric_id st) ps)"
proof
  assume r: "recompute H S J st raw = Some (Inr r)"
  then obtain s ps n where b: "build_payloads J st raw = Inr (s, ps, n)"
    by (auto simp: recompute_def split: sum.splits prod.splits)
  moreover have "distinct ps"
    using r b by (auto simp: recompute_def build_v1_Inr split: option.splits sum.splits)
  ultimately show "\<exists>i ps. from_str J st raw = Inr i \<and> input_payloads i = Inr ps \<and> distinct ps
        \<and> r = roots_spec H S raw (numeric_id st) ps"
    using recompute_distinct [OF b, of H S] r by (auto simp: build_payloads_Inr)
next
  assume "\<exists>i ps. from_str J st raw = Inr i \<and> input_payloads i = Inr ps \<and> distinct ps
        \<and> r = roots_spec H S raw (numeric_id st) ps"
  then show "recompute H S J st raw = Some (Inr r)"
    by (auto simp: build_payloads_Inr intro!: recompute_distinct)
qed

lemma recompute_no_panic: "recompute H S J st raw \<noteq> None"
proof (cases "build_payloads J st raw")
  case (Inr b)
  obtain s ps n where b: "b = (s, ps, n)" by (metis prod_cases3)
  obtain m where "build_v1 H s ps = Some m" using build_v1_no_panic [of H s ps] by blast
  then show ?thesis
    by (cases m) (auto simp: recompute_def Inr b build_v1_Inr build_v1_distinct v1_tree_simps sha3_root_of_v1_spec)
qed (simp add: recompute_def)

section \<open>What is assembled\<close>

lemma map_sum_eq_Inr: "map_sum f g m = Inr y \<longleftrightarrow> (\<exists>x. m = Inr x \<and> y = g x)"
  by (cases m) auto

lemma assemble_from_Inr:
  "assemble_from H S J dir sts = Some (Inr rs) \<longleftrightarrow>
     list_all2 (\<lambda>st r. assemble_one H S J dir st = Some (Inr r)) sts rs"
proof (induction sts arbitrary: rs)
  case Nil
  then show ?case by auto
next
  case (Cons st sts)
  then show ?case
    by (cases rs) (auto simp: map_sum_eq_Inr split: option.splits sum.splits)
qed

lemma assemble_one_Inr:
  "assemble_one H S J dir st = Some (Inr r) \<longleftrightarrow>
     (\<exists>raw i ps. dir (filename st) = Inr raw \<and> from_str J st raw = Inr i \<and> input_payloads i = Inr ps
        \<and> distinct ps \<and> r = record_of st (roots_spec H S raw (numeric_id st) ps))"
proof (cases "dir (filename st)")
  case (Inr raw)
  have "assemble_one H S J dir st = Some (Inr r) \<longleftrightarrow> (\<exists>q. recompute H S J st raw = Some (Inr q) \<and> r = record_of st q)"
    by (auto simp: assemble_one_def Inr map_sum_eq_Inr)
  then show ?thesis by (auto simp: Inr recompute_Inr)
qed (simp add: assemble_one_def)

lemma assemble_Inr:
  "assemble H S J dir = Some (Inr b) \<longleftrightarrow>
     (\<exists>rs. list_all2 (\<lambda>st r. assemble_one H S J dir st = Some (Inr r)) ALL_SUB_TREES rs
        \<and> b = \<lparr>schema_version = BUNDLE_SCHEMA_VERSION, blake3_bundle_root = aggregate_blake3 H rs,
             sha3_bundle_root = aggregate_sha3 S rs, sub_trees = rs\<rparr>)"
  by (auto simp: assemble_def map_sum_eq_Inr assemble_from_Inr)

lemma sub_tree_id_in_ALL [simp]: "st \<in> set ALL_SUB_TREES"
  by (cases st) (simp_all add: ALL_SUB_TREES_def)

lemma numeric_id_inject: "numeric_id st = numeric_id st' \<longleftrightarrow> st = st'"
  by (cases st; cases st') (simp_all add: SUB_TREE_ID_UTXO_def SUB_TREE_ID_HEADER_def SUB_TREE_ID_TX_INDEX_def
      SUB_TREE_ID_TOKEN_POLICY_def SUB_TREE_ID_SCRIPT_def SUB_TREE_ID_STAKE_def SUB_TREE_ID_GOVERNANCE_def)

text \<open>The strings that are hashed into one sub-tree of a directory.\<close>

definition sub_tree_payloads :: "json_lib \<Rightarrow> directory \<Rightarrow> sub_tree_id \<Rightarrow> bytes list" where
  "sub_tree_payloads J dir st =
     (case res_bind (dir (filename st)) (from_str J st) of
        Inl _ \<Rightarrow> []
      | Inr i \<Rightarrow> (case input_payloads i of Inl _ \<Rightarrow> [] | Inr ps \<Rightarrow> ps))"

definition sub_tree_records :: "json_lib \<Rightarrow> directory \<Rightarrow> sub_tree_id \<Rightarrow> sub_tree_input option" where
  "sub_tree_records J dir st =
     (case res_bind (dir (filename st)) (from_str J st) of Inl _ \<Rightarrow> None | Inr i \<Rightarrow> Some i)"

definition bundle_preimages :: "digest \<Rightarrow> json_lib \<Rightarrow> directory \<Rightarrow> bytes set" where
  "bundle_preimages H J dir =
     insert (concat (map (\<lambda>st. v1_root H (numeric_id st) (sub_tree_payloads J dir st)) ALL_SUB_TREES))
       (\<Union>st \<in> set ALL_SUB_TREES. v1_preimages H (numeric_id st) (sub_tree_payloads J dir st))"

text \<open>The same records up to their order and, for UTXOs, up to the order of the assets.\<close>

fun same_records :: "sub_tree_input \<Rightarrow> sub_tree_input \<Rightarrow> bool" where
  "same_records (UtxoInput us) (UtxoInput vs) = (image_mset utxo_canon (mset us) = image_mset utxo_canon (mset vs))"
| "same_records (HeaderInput hs) (HeaderInput ks) = (mset hs = mset ks)"
| "same_records (TxIndexInput es) (TxIndexInput fs) = (mset es = mset fs)"
| "same_records (TokenPolicyInput ps) (TokenPolicyInput qs) = (mset ps = mset qs)"
| "same_records (ScriptInput ss) (ScriptInput ts) = (mset ss = mset ts)"
| "same_records (StakeInput ss) (StakeInput ts) = (mset ss = mset ts)"
| "same_records (GovernanceInput fs) (GovernanceInput gs) = (mset fs = mset gs)"
| "same_records _ _ = False"

context leaf_commitment
begin

lemma total_commits_determine:
  assumes "commit = (\<lambda>x. Inr (f x))" "list_all wf xs" "list_all wf ys" "mset (map f xs) = mset (map f ys)"
  shows "image_mset canon (mset xs) = image_mset canon (mset ys)"
  using assms(2,3) by (intro commits_determine [OF _ _ _ assms(4)]) (auto simp: assms(1) list_all_iff)

end

lemmas records_determine =
  header_leaf.total_commits_determine [OF refl, simplified] tx_index_leaf.total_commits_determine [OF refl, simplified]
  token_policy_leaf.total_commits_determine [OF refl, simplified] script_leaf.total_commits_determine [OF refl, simplified]
  stake_leaf.total_commits_determine [OF refl, simplified] governance_leaf.total_commits_determine [OF refl, simplified]

lemma payloads_determine:
  assumes "from_str J st raw = Inr i" "from_str J st raw' = Inr j" "json_laws J"
    and "input_payloads i = Inr ps" "input_payloads j = Inr qs" "mset ps = mset qs"
  shows "same_records i j"
proof -
  have wf: "input_wf i" "input_wf j" using assms(1-3) by (auto simp: json_laws_def)
  show ?thesis
  proof (cases st)
    case IdUtxo
    then obtain us vs where "i = UtxoInput us" "j = UtxoInput vs"
      using assms(1,2) by (auto simp: map_sum_eq_Inr)
    with wf assms(4-6) utxo_leaf.commits_determine [of us vs ps qs] show ?thesis by (auto simp: list_all_iff)
  qed (use assms wf in \<open>auto simp: map_sum_eq_Inr intro!: records_determine\<close>)
qed

lemma check_item_counts_refl [simp]: "check_item_counts rs rs = Inr ()"
  by (induction rs) auto

lemma compare_bundles_Inr: "compare_bundles J b fresh = Inr () \<longleftrightarrow> fresh = b"
  by (cases b; cases fresh) (auto simp: compare_bundles_def)

text \<open>The parts of an assembled bundle, one sub-tree at a time.\<close>

definition assembled_from :: "digest \<Rightarrow> digest \<Rightarrow> json_lib \<Rightarrow> directory \<Rightarrow> sub_tree_id \<Rightarrow> sub_tree_input \<Rightarrow> bool" where
  "assembled_from H S J dir st i \<longleftrightarrow>
     sub_tree_records J dir st = Some i \<and> (\<exists>raw. from_str J st raw = Inr i)
     \<and> input_payloads i = Inr (sub_tree_payloads J dir st) \<and> distinct (sub_tree_payloads J dir st)"

lemma assemble_one_parts:
  assumes "assemble_one H S J dir st = Some (Inr r)"
  obtains i where "assembled_from H S J dir st i" "sub_tree r = label st"
    "blake3_root r = v1_root H (numeric_id st) (sub_tree_payloads J dir st)"
    "st_leaf_count r = 2 ^ tree_depth r" "item_count r = length (sub_tree_payloads J dir st)"
    "tree_depth r = v1_depth (sub_tree_payloads J dir st)"
proof -
  from assms obtain raw i ps where *: "dir (filename st) = Inr raw" "from_str J st raw = Inr i"
    "input_payloads i = Inr ps" "distinct ps" "r = record_of st (roots_spec H S raw (numeric_id st) ps)"
    by (auto simp: assemble_one_Inr)
  show thesis
    by (rule that [of i])
      (use * in \<open>auto simp: assembled_from_def sub_tree_records_def sub_tree_payloads_def record_of_def roots_spec_def\<close>)
qed

lemma assembled_records:
  assumes "assemble H S J dir = Some (Inr b)"
  shows "map blake3_root (sub_trees b) = map (\<lambda>st. v1_root H (numeric_id st) (sub_tree_payloads J dir st)) ALL_SUB_TREES"
    and "map item_count (sub_trees b) = map (\<lambda>st. length (sub_tree_payloads J dir st)) ALL_SUB_TREES"
    and "\<exists>i. assembled_from H S J dir st i"
    and "blake3_bundle_root b = H (concat (map blake3_root (sub_trees b)))"
proof -
  let ?one = "\<lambda>st r. assemble_one H S J dir st = Some (Inr r)"
  have l: "list_all2 ?one ALL_SUB_TREES (sub_trees b)" using assms by (auto simp: assemble_Inr)
  have "list_all2 (\<lambda>st r. v1_root H (numeric_id st) (sub_tree_payloads J dir st) = blake3_root r
      \<and> length (sub_tree_payloads J dir st) = item_count r \<and> (\<exists>i. assembled_from H S J dir st i)) ALL_SUB_TREES (sub_trees b)"
    by (rule list.rel_mono_strong [OF l]) (metis assemble_one_parts)
  then have *: "list_all2 (\<lambda>st r. v1_root H (numeric_id st) (sub_tree_payloads J dir st) = blake3_root r) ALL_SUB_TREES (sub_trees b)"
    "list_all2 (\<lambda>st r. length (sub_tree_payloads J dir st) = item_count r) ALL_SUB_TREES (sub_trees b)"
    "list_all2 (\<lambda>st r. \<exists>i. assembled_from H S J dir st i) ALL_SUB_TREES (sub_trees b)"
    by (auto elim: list_all2_mono)
  show "map blake3_root (sub_trees b) = map (\<lambda>st. v1_root H (numeric_id st) (sub_tree_payloads J dir st)) ALL_SUB_TREES"
    "map item_count (sub_trees b) = map (\<lambda>st. length (sub_tree_payloads J dir st)) ALL_SUB_TREES"
    using *(1,2) by (auto simp: list_all2_conv_all_nth intro!: nth_equalityI)
  show "\<exists>i. assembled_from H S J dir st i"
    using *(3) sub_tree_id_in_ALL [of st] by (fastforce simp: list_all2_conv_all_nth in_set_conv_nth)
  show "blake3_bundle_root b = H (concat (map blake3_root (sub_trees b)))"
    using assms by (auto simp: assemble_Inr aggregate_blake3_def aggregate_preimage_def blake3_256_def)
qed

lemma assembled_counts:
  assumes "assemble H S J dir = Some (Inr b)" "\<forall>r \<in> set (sub_trees b). item_count r < 2 ^ 64"
  shows "length (sub_tree_payloads J dir st) < 2 ^ 64"
proof -
  have "length (sub_tree_payloads J dir st) \<in> set (map item_count (sub_trees b))"
    unfolding assembled_records(2) [OF assms(1)] by simp
  with assms(2) show ?thesis by auto
qed

lemma assembled_same_records:
  assumes "assembled_from H S J dir st i" "assembled_from H S J dir' st j" "json_laws J"
    and "mset (sub_tree_payloads J dir st) = mset (sub_tree_payloads J dir' st)"
  shows "same_records i j"
  using assms payloads_determine [of J st _ i _ j] by (auto simp: assembled_from_def)

lemma assemble_no_panic: "assemble H S J dir \<noteq> None"
proof -
  have "assemble_from H S J dir sts \<noteq> None" for sts
    using recompute_no_panic [of H S J]
    by (induction sts) (auto simp: assemble_one_def split: option.splits sum.splits)
  then show ?thesis by (simp add: assemble_def)
qed

section \<open>Properties\<close>

text \<open>
  C36. Verification of a bundle decides the question it is asked: it never panics, and it accepts a
  published bundle exactly when assembling the directory succeeds and returns that bundle, in
  every field of every sub-tree record; every other outcome is an error value.
\<close>

theorem bundle_verify_iff:
  "bundle_verify H S J b dir \<noteq> None
    \<and> (bundle_verify H S J b dir = Some (Inr ()) \<longleftrightarrow> assemble H S J dir = Some (Inr b))"
  using assemble_no_panic [of H S J dir]
  by (auto simp: bundle_verify_def res_bind_eq_Inr compare_bundles_Inr)

text \<open>
  C6. The bundle root binds all seven sub-trees: if two directories assemble to the same Blake3
  bundle root and the digest has no collision among the strings that the two assemblies hash,
  then every input file of the one parses to the same records as that file of the other, up to
  the order of the records (and of the assets inside a UTXO).
\<close>

theorem bundle_root_binds:
  assumes "digest32 H" "json_laws J" "inj_on H (bundle_preimages H J dir \<union> bundle_preimages H J dir')"
    and "assemble H S J dir = Some (Inr b)" "assemble H S J dir' = Some (Inr b')"
    and "\<forall>r \<in> set (sub_trees b) \<union> set (sub_trees b'). item_count r < 2 ^ 64"
    and "blake3_bundle_root b = blake3_bundle_root b'"
  shows "\<exists>i j. sub_tree_records J dir st = Some i \<and> sub_tree_records J dir' st = Some j \<and> same_records i j"
proof -
  let ?root = "\<lambda>d st. v1_root H (numeric_id st) (sub_tree_payloads J d st)"
  note a = assembled_records [OF assms(4)] and a' = assembled_records [OF assms(5)]
  let ?roots = "\<lambda>d. map (?root d) ALL_SUB_TREES"
  have "H (concat (?roots dir)) = H (concat (?roots dir'))"
    using assms(7) unfolding a(4) a'(4) a(1) a'(1) .
  then have "concat (?roots dir) = concat (?roots dir')"
    by (rule inj_onD [OF assms(3)]) (simp_all add: bundle_preimages_def)
  then have "concat (?roots dir) @ [] = concat (?roots dir') @ []" by simp
  moreover have "\<forall>x \<in> set (?roots dir) \<union> set (?roots dir'). length x = 32"
    by (auto simp: v1_root_length [OF assms(1)])
  ultimately have "?roots dir = ?roots dir'"
    using concat_fixed_inject [of "?roots dir" "?roots dir'" 32 "[]" "[]"] by (simp only: length_map)
  then have "?root dir st = ?root dir' st" using sub_tree_id_in_ALL [of st] by (auto simp: map_eq_conv)
  moreover have "inj_on H (v1_preimages H (numeric_id st) (sub_tree_payloads J dir st)
      \<union> v1_preimages H (numeric_id st) (sub_tree_payloads J dir' st))"
    by (rule inj_on_subset [OF assms(3)]) (use sub_tree_id_in_ALL [of st] in \<open>auto simp: bundle_preimages_def\<close>)
  moreover have "length (sub_tree_payloads J dir st) < 2 ^ 64" "length (sub_tree_payloads J dir' st) < 2 ^ 64"
    using assms(6) assembled_counts [OF assms(4), of st] assembled_counts [OF assms(5), of st] by blast+
  ultimately have "mset (sub_tree_payloads J dir st) = mset (sub_tree_payloads J dir' st)"
    using v1_root_inject [OF assms(1)] by blast
  moreover obtain i j where ij: "assembled_from H S J dir st i" "assembled_from H S J dir' st j"
    using a(3) a'(3) by blast
  ultimately show ?thesis
    using assembled_same_records [OF ij assms(2)] ij by (auto simp: assembled_from_def)
qed

text \<open>Two directories that list the same two transactions in opposite order.\<close>

definition example_entry :: "u64 \<Rightarrow> tx_index_entry" where
  "example_entry n = \<lparr>ti_tx_id = replicate 32 1, ti_slot = n, ti_block_hash = replicate 32 0, ti_tx_position = 0\<rparr>"

definition example_json :: json_lib where
  "example_json = \<lparr>json_utxos = \<lambda>_. Inr [], json_headers = \<lambda>_. Inr [],
     json_entries = \<lambda>raw. Inr (if raw = [] then [example_entry 1, example_entry 2] else [example_entry 2, example_entry 1]),
     json_policies = \<lambda>_. Inr [], json_scripts = \<lambda>_. Inr [], json_stake_entries = \<lambda>_. Inr [],
     json_facts = \<lambda>_. Inr [], hex_encode = \<lambda>_. []\<rparr>"

definition example_dir :: "bytes \<Rightarrow> directory" where
  "example_dir raw = (\<lambda>_. Inr raw)"

lemma json_laws_example: "json_laws example_json"
  unfolding json_laws_def
proof (intro allI impI)
  fix st raw i assume "from_str example_json st raw = Inr i"
  then show "input_wf i"
    by (cases st) (auto simp: example_json_def example_entry_def tx_index_entry_wf_def)
qed

definition entry_payload :: "u64 \<Rightarrow> bytes" where
  "entry_payload n = tx_index_entry_commit_to_subtree (example_entry n)"

lemma example_sub_tree_payloads:
  "sub_tree_payloads example_json (example_dir raw) st =
     (if st = IdTxIndex then (if raw = [] then [entry_payload 1, entry_payload 2] else [entry_payload 2, entry_payload 1]) else [])"
  by (cases st) (simp_all add: sub_tree_payloads_def example_json_def example_dir_def entry_payload_def)

lemma append_le_cancel: "xs @ as \<le> xs @ bs \<longleftrightarrow> as \<le> (bs :: bytes)"
  by (induction xs) auto

lemma entry_payload_sorted: "sort [entry_payload 1, entry_payload 2] = [entry_payload 1, entry_payload 2]"
    "sort [entry_payload 2, entry_payload 1] = [entry_payload 1, entry_payload 2]"
  by (simp_all add: entry_payload_def tx_index_entry_commit_to_subtree_def tx_index_entry_encode_def
      example_entry_def to_be_bytes_def append_le_cancel)

lemma example_roots:
  "v1_root H s [entry_payload 2, entry_payload 1] = v1_root H s [entry_payload 1, entry_payload 2]"
  "v1_preimages H s [entry_payload 2, entry_payload 1] = v1_preimages H s [entry_payload 1, entry_payload 2]"
  by (simp_all add: v1_root_def v1_preimages_def leaf_preimages_def v1_all_leaves_def v1_depth_def
      entry_payload_sorted del: sort_key_simps)

lemma example_preimages:
  "bundle_preimages sum_digest example_json (example_dir raw) = bundle_preimages sum_digest example_json (example_dir [])"
  by (simp add: bundle_preimages_def ALL_SUB_TREES_def example_sub_tree_payloads example_roots)

text \<open>The byte sums of the hashed strings, which decide whether the example digest collides.\<close>

lemma preimage_sums:
  "sum_list (sum_digest x) = sum_list x"
  "sum_list (leaf_preimage s i p) = sum_list DOMAIN_LEAF + (s + (sum_list (to_be_bytes i) + (sum_list (to_be_bytes (as_u64 (length p))) + sum_list p)))"
  "sum_list (node_preimage l r) = sum_list DOMAIN_NODE + (sum_list l + sum_list r)"
  by (simp_all add: sum_digest_def sum_list_replicate leaf_preimage_def node_preimage_def)

lemma inj_on_sum_digest: "distinct (map sum_list xs) \<Longrightarrow> inj_on sum_digest (set xs)"
  by (auto simp: inj_on_def sum_digest_def distinct_map)

definition example_strings :: "bytes list" where
  "example_strings =
     (let pads = map (\<lambda>st. leaf_preimage (numeric_id st) EMPTY_INDEX_SENTINEL []) ALL_SUB_TREES;
          l = leaf_preimage 3 0 (entry_payload 1); r = leaf_preimage 3 1 (entry_payload 2);
          n = node_preimage (sum_digest l) (sum_digest r)
      in concat (map sum_digest (pads[2 := n])) # pads @ [l, r, n])"

lemmas sub_tree_ids = SUB_TREE_ID_UTXO_def SUB_TREE_ID_HEADER_def SUB_TREE_ID_TX_INDEX_def
  SUB_TREE_ID_TOKEN_POLICY_def SUB_TREE_ID_SCRIPT_def SUB_TREE_ID_STAKE_def SUB_TREE_ID_GOVERNANCE_def

lemma example_strings_distinct: "distinct (map sum_list example_strings)"
  by (simp add: example_strings_def ALL_SUB_TREES_def Let_def preimage_sums sub_tree_ids)
    (simp add: DOMAIN_LEAF_def DOMAIN_NODE_def ascii_def EMPTY_INDEX_SENTINEL_def to_be_bytes_def as_u64_def
      entry_payload_def tx_index_entry_commit_to_subtree_def tx_index_entry_encode_def example_entry_def
      sum_list_replicate unsigned_minus_1_eq_mask mask_eq_exp_minus_1)

lemma empty_tree_strings:
  "v1_root H s [] = H (leaf_preimage s EMPTY_INDEX_SENTINEL [])"
  "v1_preimages H s [] = {leaf_preimage s EMPTY_INDEX_SENTINEL []}"
  by (simp_all add: v1_root_def v1_preimages_def leaf_preimages_def v1_all_leaves_def v1_depth_def clog2_eval
      v1_leaves_def padding_leaf_def leaf_hash_v2_def blake3_256_def)

lemma pair_tree_strings:
  assumes "sort [a, b] = [a, b]" "l = leaf_preimage s 0 a" "r = leaf_preimage s 1 b"
  shows "v1_root H s [a, b] = H (node_preimage (H l) (H r))"
    "v1_preimages H s [a, b] = {leaf_preimage s EMPTY_INDEX_SENTINEL [], l, r, node_preimage (H l) (H r)}"
  using assms
  by (auto simp: v1_root_def v1_preimages_def leaf_preimages_def v1_all_leaves_def v1_depth_def clog2_eval
      v1_leaves_def leaf_hash_v2_def node_hash_v2_def blake3_256_def as_u64_def simp del: sort_key_simps)

lemmas example_pair = pair_tree_strings [OF entry_payload_sorted(1) refl refl]

lemma example_bundle_strings: "bundle_preimages sum_digest example_json (example_dir []) \<subseteq> set example_strings"
  by (simp add: bundle_preimages_def ALL_SUB_TREES_def example_sub_tree_payloads empty_tree_strings example_pair
      example_strings_def Let_def sub_tree_ids)

lemma example_bundle_inj:
  "inj_on sum_digest (bundle_preimages sum_digest example_json (example_dir raw) \<union> bundle_preimages sum_digest example_json (example_dir raw'))"
  using inj_on_subset [OF inj_on_sum_digest [OF example_strings_distinct] example_bundle_strings]
  by (simp add: example_preimages [of raw] example_preimages [of raw'])

lemma entry_payload_neq: "entry_payload 1 \<noteq> entry_payload 2" "entry_payload 2 \<noteq> entry_payload 1"
  by (simp_all add: entry_payload_def tx_index_entry_commit_to_subtree_def tx_index_entry_encode_def
      example_entry_def to_be_bytes_def)

lemma example_assembles: "\<exists>b. assemble H S example_json (example_dir raw) = Some (Inr b)"
proof -
  have "\<exists>r. assemble_one H S example_json (example_dir raw) st = Some (Inr r)" for st
    by (cases st) (simp_all add: assemble_one_Inr example_dir_def example_json_def entry_payload_neq
        flip: entry_payload_def)
  then obtain r where "\<And>st. assemble_one H S example_json (example_dir raw) st = Some (Inr (r st))" by metis
  then have "assemble_from H S example_json (example_dir raw) sts = Some (Inr (map r sts))" for sts
    by (induction sts) auto
  then show ?thesis by (simp add: assemble_def)
qed

lemma example_counts:
  assumes "assemble H S example_json (example_dir raw) = Some (Inr b)"
  shows "\<forall>r \<in> set (sub_trees b). item_count r < 2 ^ 64"
proof
  fix r assume "r \<in> set (sub_trees b)"
  then have "item_count r \<in> set (map item_count (sub_trees b))" by simp
  then show "item_count r < 2 ^ 64"
    unfolding assembled_records(2) [OF assms] by (auto simp: example_sub_tree_payloads split: if_splits)
qed

theorem bundle_root_binds_witness:
  "\<exists>b b'. assemble sum_digest sum_digest example_json (example_dir []) = Some (Inr b)
     \<and> assemble sum_digest sum_digest example_json (example_dir [0]) = Some (Inr b')
     \<and> (\<exists>i j. sub_tree_records example_json (example_dir []) IdTxIndex = Some i
        \<and> sub_tree_records example_json (example_dir [0]) IdTxIndex = Some j \<and> i \<noteq> j \<and> same_records i j)"
proof -
  obtain b b' where b: "assemble sum_digest sum_digest example_json (example_dir []) = Some (Inr b)"
    "assemble sum_digest sum_digest example_json (example_dir [0]) = Some (Inr b')"
    using example_assembles by blast
  have c: "\<forall>r \<in> set (sub_trees b) \<union> set (sub_trees b'). item_count r < 2 ^ 64"
    using example_counts [OF b(1)] example_counts [OF b(2)] by blast
  have "map blake3_root (sub_trees b) = map blake3_root (sub_trees b')"
    unfolding assembled_records(1) [OF b(1)] assembled_records(1) [OF b(2)]
    by (simp add: example_sub_tree_payloads example_roots)
  then have r: "blake3_bundle_root b = blake3_bundle_root b'"
    by (simp add: assembled_records(4) [OF b(1)] assembled_records(4) [OF b(2)])
  have "sub_tree_records example_json (example_dir []) IdTxIndex \<noteq> sub_tree_records example_json (example_dir [0]) IdTxIndex"
    by (simp add: sub_tree_records_def example_dir_def example_json_def example_entry_def)
  with bundle_root_binds [OF digest32_sum_digest json_laws_example example_bundle_inj b c r, of IdTxIndex] b
  show ?thesis by fastforce
qed

text \<open>
  The bundle does not enforce semantic keys: whether the transaction index of a bundle is
  accepted depends only on the records being pairwise different. Two entries for the same
  transaction id, which \<open>validate_tx_uniqueness\<close> reports, are committed all the same.
\<close>

theorem repeated_tx_id_is_committed:
  assumes "json_entries J raw = Inr es" "list_all tx_index_entry_wf es"
  shows "(\<exists>r. recompute H S J IdTxIndex raw = Some (Inr r)) \<longleftrightarrow> distinct es"
  using tx_index_leaf.duplicate_iff [of es "map tx_index_entry_commit_to_subtree es"] assms
  by (auto simp: recompute_Inr list_all_iff)

theorem repeated_tx_id_is_committed_witness:
  "(\<exists>r. recompute sum_digest sum_digest example_json IdTxIndex [] = Some (Inr r))
     \<and> json_entries example_json [] = Inr [example_entry 1, example_entry 2]
     \<and> validate_tx_uniqueness [example_entry 1, example_entry 2] = Some 1"
proof -
  have e: "json_entries example_json [] = Inr [example_entry 1, example_entry 2]"
    "list_all tx_index_entry_wf [example_entry 1, example_entry 2]" "distinct [example_entry 1, example_entry 2]"
    by (simp_all add: example_json_def example_entry_def tx_index_entry_wf_def)
  have "validate_tx_uniqueness [example_entry 1, example_entry 2] = Some 1"
    by (simp add: validate_tx_uniqueness_def example_entry_def)
  with repeated_tx_id_is_committed [OF e(1,2)] e show ?thesis by simp
qed

end
