(* ===== verification/Commit_Cli.thy ===== *)
theory Commit_Cli
  imports Commitment_Bundle Inclusion_Witness
begin

text \<open>
  The \<open>commit\<close> command of \<open>omega-commitment-cli\<close>: it reads one input file, builds the legacy
  tree over the leaf hashes of its records, and writes a commitment record and one inclusion
  witness per record. Paths are lists of components. The file system is a parameter: what each
  call on a path returns; the files written are returned in the order they are written, as the
  values that are serialised into them.
\<close>

type_synonym path = "string list"

record os =
  os_canonicalize :: "path \<Rightarrow> string + path"
  os_metadata_len :: "path \<Rightarrow> string + nat"
  os_read_to_string :: "path \<Rightarrow> string + bytes"
  os_create_dir_all :: "path \<Rightarrow> string + unit"
  os_write :: "path \<Rightarrow> string + unit"

datatype commit_error =
    CannotReadInput path string
  | CannotStatInput path string
  | InputTooLarge path nat nat
  | CannotCreateOutput path string
  | CannotResolveOutput path string
  | IoFailed string
  | InputRejected recompute_error
  | NoParent path
  | CannotResolveParent path string
  | NoFilename path
  | EscapesOutput path path
  | LeafVanished
  | IndexOutOfRange

record commitment_record =
  cr_sub_tree :: sub_tree_id
  cr_input_digest :: hash
  cr_root :: hash
  cr_leaf_count :: nat
  cr_tree_depth :: nat
  cr_item_count :: nat

datatype cli_file = CommitmentFile commitment_record | WitnessFile inclusion_witness

definition safe_child :: "os \<Rightarrow> path \<Rightarrow> path \<Rightarrow> commit_error + path" where
  "safe_child fs base_dir child =
     (if child = [] then Inl (NoParent child)
      else res_bind (map_err (CannotResolveParent (butlast child)) (os_canonicalize fs (butlast child))) (\<lambda>parent.
        if last child = ''..'' then Inl (NoFilename child)
        else let resolved = parent @ [last child]
             in if take (length base_dir) resolved \<noteq> base_dir then Inl (EscapesOutput resolved base_dir)
                else Inr resolved))"

text \<open>The seven \<open>build_*_leaves\<close> functions, after parsing.\<close>

fun input_leaves :: "digest \<Rightarrow> sub_tree_input \<Rightarrow> leaf_error + hash list" where
  "input_leaves H (UtxoInput us) = collect_results (utxo_leaf_hash H) us"
| "input_leaves H (HeaderInput hs) = Inr (map (block_header_leaf_hash H) hs)"
| "input_leaves H (TxIndexInput es) = Inr (map (tx_index_entry_leaf_hash H) es)"
| "input_leaves H (TokenPolicyInput ps) = Inr (map (token_policy_leaf_hash H) ps)"
| "input_leaves H (ScriptInput ss) = Inr (map (script_entry_leaf_hash H) ss)"
| "input_leaves H (StakeInput ss) = Inr (map (stake_entry_leaf_hash H) ss)"
| "input_leaves H (GovernanceInput fs) = Inr (map (governance_fact_leaf_hash H) fs)"

definition build_leaves :: "digest \<Rightarrow> json_lib \<Rightarrow> sub_tree_id \<Rightarrow> bytes \<Rightarrow> recompute_error + hash list \<times> nat" where
  "build_leaves H J st raw =
     res_bind (map_err JsonRejected (from_str J st raw)) (\<lambda>parsed.
     res_bind (map_err LeafRejected (input_leaves H parsed)) (\<lambda>ls. Inr (ls, input_length parsed)))"

text \<open>Everything before the tree is built: the checked paths, the raw input and the leaves.\<close>

definition commit_inputs :: "digest \<Rightarrow> json_lib \<Rightarrow> os \<Rightarrow> path \<Rightarrow> path \<Rightarrow> sub_tree_id \<Rightarrow> nat \<Rightarrow> commit_error + path \<times> bytes \<times> hash list \<times> nat" where
  "commit_inputs H J fs input0 output0 st max_input_bytes =
     res_bind (map_err (CannotReadInput input0) (os_canonicalize fs input0)) (\<lambda>input.
     res_bind (map_err (CannotStatInput input) (os_metadata_len fs input)) (\<lambda>len.
     if len > max_input_bytes then Inl (InputTooLarge input len max_input_bytes)
     else
       res_bind (map_err (CannotCreateOutput output0) (os_create_dir_all fs output0)) (\<lambda>_.
       res_bind (map_err (CannotResolveOutput output0) (os_canonicalize fs output0)) (\<lambda>output.
       res_bind (map_err IoFailed (os_read_to_string fs input)) (\<lambda>raw.
       res_bind (map_err InputRejected (build_leaves H J st raw)) (\<lambda>(ls, n).
       Inr (output, raw, ls, n)))))))"

text \<open>\<open>leaf_idx\<close>: the first index of every leaf hash, narrowed to \<open>u32\<close>.\<close>

definition leaf_indices :: "hash list \<Rightarrow> hash \<rightharpoonup> u32" where
  "leaf_indices ls = foldl (\<lambda>m (i, h). if m h = None then m(h \<mapsto> of_nat i) else m) (\<lambda>_. None) (enumerate 0 ls)"

text \<open>
  The witness loop. The outer option is a panic of \<open>build_at_index\<close>; the files written before an
  error stay written.
\<close>

fun write_witnesses :: "json_lib \<Rightarrow> os \<Rightarrow> path \<Rightarrow> path \<Rightarrow> merkle_tree \<Rightarrow> (hash \<rightharpoonup> u32) \<Rightarrow> hash list \<Rightarrow>
    ((path \<times> cli_file) list \<times> (commit_error + unit)) option" where
  "write_witnesses J fs output witness_dir tree leaf_idx [] = Some ([], Inr ())"
| "write_witnesses J fs output witness_dir tree leaf_idx (leaf # ls) =
     (case leaf_idx leaf of
        None \<Rightarrow> Some ([], Inl LeafVanished)
      | Some idx \<Rightarrow>
          (case build_at_index tree idx of
             None \<Rightarrow> None
           | Some None \<Rightarrow> Some ([], Inl IndexOutOfRange)
           | Some (Some w) \<Rightarrow>
               (case safe_child fs output (witness_dir @ [hex_encode J leaf @ ''.json'']) of
                  Inl e \<Rightarrow> Some ([], Inl e)
                | Inr target \<Rightarrow>
                    (case os_write fs target of
                       Inl e \<Rightarrow> Some ([], Inl (IoFailed e))
                     | Inr _ \<Rightarrow> map_option (\<lambda>(ws, r). ((target, WitnessFile w) # ws, r))
                         (write_witnesses J fs output witness_dir tree leaf_idx ls)))))"

definition commit_record :: "digest \<Rightarrow> sub_tree_id \<Rightarrow> bytes \<Rightarrow> merkle_tree \<Rightarrow> hash \<Rightarrow> nat \<Rightarrow> commitment_record" where
  "commit_record H st raw tree rt n =
     \<lparr>cr_sub_tree = st, cr_input_digest = blake3_256 H raw, cr_root = rt,
      cr_leaf_count = leaf_count tree, cr_tree_depth = depth tree, cr_item_count = n\<rparr>"

definition commit :: "digest \<Rightarrow> json_lib \<Rightarrow> os \<Rightarrow> path \<Rightarrow> path \<Rightarrow> sub_tree_id \<Rightarrow> nat \<Rightarrow>
    ((path \<times> cli_file) list \<times> (commit_error + unit)) option" where
  "commit H J fs input output0 st max_input_bytes =
     (case commit_inputs H J fs input output0 st max_input_bytes of
        Inl e \<Rightarrow> Some ([], Inl e)
      | Inr (output, raw, ls, n) \<Rightarrow>
          Option.bind (build H ls) (\<lambda>tree.
          (case os_create_dir_all fs (output @ [''witnesses'']) of
             Inl e \<Rightarrow> Some ([], Inl (IoFailed e))
           | Inr _ \<Rightarrow>
               Option.bind (root tree) (\<lambda>rt.
               (case os_write fs (output @ [''commitment.json'']) of
                  Inl e \<Rightarrow> Some ([], Inl (IoFailed e))
                | Inr _ \<Rightarrow>
                    map_option (\<lambda>(ws, r).
                        ((output @ [''commitment.json''], CommitmentFile (commit_record H st raw tree rt n)) # ws, r))
                      (write_witnesses J fs output (output @ [''witnesses'']) tree (leaf_indices (leaves tree)) ls))))))"

section \<open>The index map and the witness loop\<close>

lemma leaf_indices_fold:
  "foldl (\<lambda>m (i, h). if m h = None then m(h \<mapsto> of_nat i) else m) m (enumerate k ls) h =
     (if m h = None then map_option (\<lambda>i. of_nat (k + i)) (position (\<lambda>x. x = h) ls) else m h)"
proof (induction ls arbitrary: m k)
  case (Cons l ls)
  then show ?case by (auto simp: option.map_comp comp_def ac_simps)
qed simp

lemma leaf_indices_position: "leaf_indices ls h = map_option of_nat (position (\<lambda>x. x = h) ls)"
  by (simp add: leaf_indices_def leaf_indices_fold)

lemma safe_child_inside: "safe_child fs base child = Inr p \<Longrightarrow> take (length base) p = base"
  by (auto simp: safe_child_def res_bind_eq_Inr Let_def split: if_splits)

lemma build_total: "\<exists>t rt. build H ls = Some t \<and> root t = Some rt"
proof -
  obtain t where "build H ls = Some t" using legacy_tree by blast
  then show ?thesis using build_legacy_shape [of H ls t] by metis
qed

text \<open>Every leaf of the input is found in the tree and has a verifying witness.\<close>

lemma leaf_has_witness:
  assumes "build H ls = Some t" "root t = Some rt" "depth t < 32" "h \<in> set ls"
  shows "\<exists>i w. leaf_indices (leaves t) h = Some i \<and> build_at_index t i = Some (Some w) \<and> iw_leaf w = h \<and> verify_witness H w rt"
proof -
  have "h \<in> set (leaves t)"
  proof -
    obtain d where "leaves t = pad_leaves ZERO_HASH (sort ls)" by (rule build_legacy_shape [OF assms(1)])
    with assms(4) show ?thesis by (simp add: pad_leaves_def Let_def)
  qed
  then have "position (\<lambda>x. x = h) (leaves t) \<noteq> None" by (simp add: position_None)
  then obtain i where i: "position (\<lambda>x. x = h) (leaves t) = Some i" by blast
  then have "i < leaf_count t" "leaves t ! i = h" by (simp_all add: position_Some leaf_count_def)
  with witness_verifies [OF assms(1,3,2), of i] i show ?thesis by (auto simp: leaf_indices_position)
qed

definition witness_ok :: "digest \<Rightarrow> path \<Rightarrow> hash \<Rightarrow> hash \<Rightarrow> path \<times> cli_file \<Rightarrow> bool" where
  "witness_ok H output rt leaf f \<longleftrightarrow>
     take (length output) (fst f) = output \<and> (\<exists>w. snd f = WitnessFile w \<and> iw_leaf w = leaf \<and> verify_witness H w rt)"

lemma write_witnesses_ok:
  assumes "build H ls0 = Some t" "root t = Some rt" "depth t < 32" "set ls \<subseteq> set ls0"
  shows "\<exists>ws r. write_witnesses J fs output dir t (leaf_indices (leaves t)) ls = Some (ws, r)
    \<and> r \<noteq> Inl LeafVanished \<and> r \<noteq> Inl IndexOutOfRange
    \<and> list_all2 (witness_ok H output rt) (take (length ws) ls) ws \<and> (r = Inr () \<longrightarrow> length ws = length ls)"
  using assms(4)
proof (induction ls)
  case (Cons h ls)
  then obtain ws r where IH: "write_witnesses J fs output dir t (leaf_indices (leaves t)) ls = Some (ws, r)"
    "r \<noteq> Inl LeafVanished" "r \<noteq> Inl IndexOutOfRange"
    "list_all2 (witness_ok H output rt) (take (length ws) ls) ws" "r = Inr () \<longrightarrow> length ws = length ls" by auto
  obtain i w where w: "leaf_indices (leaves t) h = Some i" "build_at_index t i = Some (Some w)" "iw_leaf w = h" "verify_witness H w rt"
    using leaf_has_witness [OF assms(1-3), of h] Cons.prems by auto
  show ?case
  proof (cases "safe_child fs output (dir @ [hex_encode J h @ ''.json''])")
    case (Inl e)
    then have "e \<noteq> LeafVanished \<and> e \<noteq> IndexOutOfRange"
      by (auto simp: safe_child_def res_bind_eq_Inl map_err_def Let_def split: if_splits sum.splits)
    with Inl w show ?thesis by simp
  next
    case (Inr p)
    show ?thesis
    proof (cases "os_write fs p")
      case (Inr u)
      have "witness_ok H output rt h (p, WitnessFile w)"
        using safe_child_inside [OF \<open>safe_child _ _ _ = Inr p\<close>] w by (simp add: witness_ok_def)
      with \<open>safe_child _ _ _ = Inr p\<close> Inr w IH show ?thesis by simp
    qed (use Inr w in simp)
  qed
qed simp

section \<open>Properties\<close>

text \<open>
  C37. The commit command writes usable witnesses: it never panics, its internal lookups never
  fail, and when it succeeds on an input whose tree is shallower than 32 levels it has written
  the commitment record first and then, for each record of the input in order, a witness that
  verifies for its leaf hash against the root in that record, every file below the resolved
  output directory.
\<close>

theorem commit_writes_witnesses:
  assumes "commit_inputs H J fs input output0 st limit = Inr (output, raw, ls, n)"
    and "build H ls = Some t" "depth t < 32"
  shows "\<exists>ws r. commit H J fs input output0 st limit = Some (ws, r) \<and> r \<noteq> Inl LeafVanished \<and> r \<noteq> Inl IndexOutOfRange
    \<and> (r = Inr () \<longrightarrow> (\<exists>rt rest. root t = Some rt
        \<and> ws = (output @ [''commitment.json''], CommitmentFile (commit_record H st raw t rt n)) # rest
        \<and> list_all2 (witness_ok H output rt) ls rest))"
proof -
  obtain rt where rt: "root t = Some rt" using build_total [of H ls] assms(2) by auto
  obtain ws r where w: "write_witnesses J fs output (output @ [''witnesses'']) t (leaf_indices (leaves t)) ls = Some (ws, r)"
    "r \<noteq> Inl LeafVanished" "r \<noteq> Inl IndexOutOfRange" "list_all2 (witness_ok H output rt) (take (length ws) ls) ws"
    "r = Inr () \<longrightarrow> length ws = length ls"
    using write_witnesses_ok [OF assms(2) rt assms(3) subset_refl] by blast
  then show ?thesis
    using assms(1,2) rt by (auto simp: commit_def split: sum.splits)
qed

definition example_os :: os where
  "example_os = \<lparr>os_canonicalize = Inr, os_metadata_len = \<lambda>_. Inr 0, os_read_to_string = \<lambda>_. Inr [],
     os_create_dir_all = \<lambda>_. Inr (), os_write = \<lambda>_. Inr ()\<rparr>"

theorem commit_writes_witnesses_witness:
  "\<exists>ws w. commit sum_digest example_json example_os [''in''] [''out''] IdTxIndex 10 = Some (ws, Inr ())
     \<and> length ws = 3 \<and> snd (ws ! 1) = WitnessFile w \<and> iw_leaf w = tx_index_entry_leaf_hash sum_digest (example_entry 1)"
proof -
  let ?ls = "[tx_index_entry_leaf_hash sum_digest (example_entry 1), tx_index_entry_leaf_hash sum_digest (example_entry 2)]"
  have c: "commit_inputs sum_digest example_json example_os [''in''] [''out''] IdTxIndex 10 = Inr ([''out''], [], ?ls, 2)"
    by (simp add: commit_inputs_def build_leaves_def example_os_def example_json_def)
  obtain t rt where t: "build sum_digest ?ls = Some t" "root t = Some rt" using build_total by blast
  obtain d where d: "depth t = d" "length (leaves t) = 2 ^ d" "leaves t = pad_leaves ZERO_HASH (sort ?ls)"
    by (rule build_legacy_shape [OF t(1)])
  have "length (leaves t) = 2" unfolding d(3) by (simp add: pad_leaves_def next_power_of_two_clog2 clog2_eval)
  with d(2) have "(2::nat) ^ d = 2 ^ 1" by simp
  then have "depth t < 32" unfolding d(1) by (simp only: power_inject_exp)
  from commit_writes_witnesses [OF c t(1) this] obtain ws r where w:
    "commit sum_digest example_json example_os [''in''] [''out''] IdTxIndex 10 = Some (ws, r)"
    "r = Inr () \<longrightarrow> (\<exists>rt rest. root t = Some rt
        \<and> ws = ([''out'', ''commitment.json''], CommitmentFile (commit_record sum_digest IdTxIndex [] t rt 2)) # rest
        \<and> list_all2 (witness_ok sum_digest [''out''] rt) ?ls rest)" "r \<noteq> Inl LeafVanished" "r \<noteq> Inl IndexOutOfRange"
    by auto
  have "r = Inr ()"
    using w(1,3,4) c t
    by (auto simp: commit_def example_os_def safe_child_def split: option.splits sum.splits)
  with w(2) show ?thesis using w(1) by (auto simp: list_all2_Cons1 witness_ok_def)
qed

end
