(* ===== verification/Ledger_Ingest.thy ===== *)
theory Ledger_Ingest
  imports Utxo_Leaf Claim_Wire
begin

text \<open>
  The crate \<open>omega-commitment-ingest\<close>: the five readers that turn a CBOR snapshot into leaf
  records (\<open>utxo.rs\<close>, \<open>script.rs\<close>, \<open>token_policy.rs\<close>, \<open>stake.rs\<close>, \<open>governance.rs\<close>) over the shared
  item readers of \<open>cbor.rs\<close>. The decoder of \<open>minicbor\<close> is a parameter, as in the claim wire
  format, with the items that only the snapshots use; the sizes of the element types, which
  decide when \<open>Vec::with_capacity\<close> panics, are parameters too. Helpers that return
  \<open>anyhow::Error\<close> have their message as the error.
\<close>

section \<open>Item readers\<close>

record ingest_cbor = cbor_lib +
  enc_map :: "u64 \<Rightarrow> bytes"
  enc_null :: bytes
  dec_map :: "bytes \<Rightarrow> string + u64 option \<times> bytes"
  dec_datatype_null :: "bytes \<Rightarrow> string + bool"
  dec_null :: "bytes \<Rightarrow> string + unit \<times> bytes"
  size_of_utxo :: nat
  size_of_stake_entry :: nat
  size_of_governance_fact :: nat
  ingest_hex :: "bytes \<Rightarrow> string"

type_synonym 'a item_reader = "(string, 'a) parser"

definition bail :: "string \<Rightarrow> 'a item_reader" where
  "bail msg = (\<lambda>bs. Inl msg)"

text \<open>\<open>map_err(|e| anyhow!("cbor: what ({e})"))\<close>.\<close>

definition cbor_context :: "string \<Rightarrow> (bytes \<Rightarrow> string + 'a \<times> bytes) \<Rightarrow> 'a item_reader" where
  "cbor_context what f = (\<lambda>bs. map_err (\<lambda>e. ''cbor: '' @ what @ '' ('' @ e @ '')'') (f bs))"

definition read_var_bytes :: "ingest_cbor \<Rightarrow> bytes item_reader" where
  "read_var_bytes M = cbor_context ''expected bytes'' (dec_bytes M)"

definition read_32_bytes :: "ingest_cbor \<Rightarrow> bytes item_reader" where
  "read_32_bytes M =
     dbind (cbor_context ''expected bytes'' (dec_bytes M)) (\<lambda>b.
       if length b \<noteq> 32 then bail (''cbor: expected 32-byte string, got '' @ show_nat (length b)) else dreturn b)"

definition read_28_bytes :: "ingest_cbor \<Rightarrow> bytes item_reader" where
  "read_28_bytes M =
     dbind (cbor_context ''expected bytes'' (dec_bytes M)) (\<lambda>b.
       if length b \<noteq> 28 then bail (''cbor: expected 28-byte string, got '' @ show_nat (length b)) else dreturn b)"

definition read_u128_bytes :: "ingest_cbor \<Rightarrow> u128 item_reader" where
  "read_u128_bytes M =
     dbind (cbor_context ''expected bytes'' (dec_bytes M)) (\<lambda>b.
       if length b \<noteq> 16 then bail (''cbor: expected 16-byte u128 string, got '' @ show_nat (length b))
       else dreturn (from_be_bytes b))"

definition read_u64 :: "ingest_cbor \<Rightarrow> u64 item_reader" where
  "read_u64 M = cbor_context ''expected u64'' (dec_u64 M)"

definition read_u8 :: "ingest_cbor \<Rightarrow> u8 item_reader" where
  "read_u8 M = cbor_context ''expected u8'' (dec_u8 M)"

definition read_u32 :: "ingest_cbor \<Rightarrow> u32 item_reader" where
  "read_u32 M =
     dbind (read_u64 M) (\<lambda>v. case try_u32 (unat v) of
         None \<Rightarrow> bail (''cbor: u64 value '' @ show_nat (unat v) @ '' too large for u32'')
       | Some w \<Rightarrow> dreturn w)"

definition read_array_len :: "ingest_cbor \<Rightarrow> nat item_reader" where
  "read_array_len M =
     dbind (cbor_context ''expected array'' (dec_array M)) (\<lambda>n. case n of
         None \<Rightarrow> bail ''cbor: expected definite-length array''
       | Some len \<Rightarrow> dreturn (unat len))"

definition ingest_expect_array :: "ingest_cbor \<Rightarrow> nat \<Rightarrow> unit item_reader" where
  "ingest_expect_array M expected =
     dbind (cbor_context ''expected array'' (dec_array M)) (\<lambda>n. case n of
         None \<Rightarrow> bail ''cbor: expected definite-length array''
       | Some actual \<Rightarrow>
           if unat actual \<noteq> expected
           then bail (''cbor: expected array of '' @ show_nat expected @ '', got '' @ show_nat (unat actual))
           else dreturn ())"

definition read_map_len :: "ingest_cbor \<Rightarrow> nat item_reader" where
  "read_map_len M =
     dbind (cbor_context ''expected map'' (dec_map M)) (\<lambda>n. case n of
         None \<Rightarrow> bail ''cbor: expected definite-length map''
       | Some len \<Rightarrow> dreturn (unat len))"

definition read_null_marker :: "ingest_cbor \<Rightarrow> bool item_reader" where
  "read_null_marker M =
     dbind (cbor_context ''peek failed'' (\<lambda>bs. map_sum id (\<lambda>b. (b, bs)) (dec_datatype_null M bs))) (\<lambda>is_null.
       if is_null then dbind (cbor_context ''consume null'' (dec_null M)) (\<lambda>_. dreturn True)
       else dreturn False)"

definition ingest_expect_end :: "nat \<Rightarrow> unit item_reader" where
  "ingest_expect_end total_len = (\<lambda>rest.
     let pos = total_len - length rest
     in if pos \<noteq> total_len
        then Inl (''cbor: trailing bytes after parse: position '' @ show_nat pos @ '' of '' @ show_nat total_len
          @ '' (extra '' @ show_nat (total_len - pos) @ '' bytes)'')
        else Inr ((), rest))"

section \<open>Errors\<close>

datatype ingest_error =
    IngestCbor string string
  | IngestJson string string
  | IngestSchema string string
  | IngestTruncated string
  | IngestTrailing string nat
  | IngestNonCanonical string string
  | IngestOther string

text \<open>An error value, or the capacity-overflow panic of \<open>Vec::with_capacity\<close>.\<close>

datatype ingest_fail = IngestErr ingest_error | IngestPanic

type_synonym 'a reader = "(ingest_fail, 'a) parser"

text \<open>\<open>?\<close> on an \<open>anyhow::Result\<close>, and an early return of a schema violation.\<close>

definition other :: "'a item_reader \<Rightarrow> 'a reader" where
  "other p = (\<lambda>bs. map_err (\<lambda>s. IngestErr (IngestOther s)) (p bs))"

definition schema :: "string \<Rightarrow> string \<Rightarrow> 'a reader" where
  "schema ctxt msg = (\<lambda>bs. Inl (IngestErr (IngestSchema ctxt msg)))"

definition reserve :: "nat \<Rightarrow> nat \<Rightarrow> unit reader" where
  "reserve elem n = (\<lambda>bs. if n * elem \<ge> 2 ^ 63 then Inl IngestPanic else Inr ((), bs))"

definition run_reader :: "'a reader \<Rightarrow> bytes \<Rightarrow> ingest_fail + 'a" where
  "run_reader p cbor =
     res_bind (dbind p (\<lambda>x. dbind (other (ingest_expect_end (length cbor))) (\<lambda>_. dreturn x)) cbor) (\<lambda>(x, _). Inr x)"

section \<open>UTXOs\<close>

fun assets_loop :: "ingest_cbor \<Rightarrow> bytes \<Rightarrow> bytes option \<Rightarrow> nat \<Rightarrow> asset list item_reader" where
  "assets_loop M policy last_name 0 = dreturn []"
| "assets_loop M policy last_name (Suc n) =
     dbind (read_var_bytes M) (\<lambda>name.
       if (case last_name of None \<Rightarrow> False | Some prev \<Rightarrow> name \<le> prev)
       then bail (''non-canonical asset map: asset_name '' @ ingest_hex M name @ '' not strictly greater than previous ''
         @ ingest_hex M (case last_name of None \<Rightarrow> [] | Some prev \<Rightarrow> prev) @ '' under policy '' @ ingest_hex M policy)
       else dbind (read_u64 M) (\<lambda>qty. dbind (assets_loop M policy (Some name) n) (\<lambda>rest.
         dreturn (\<lparr>asset_id = policy @ name, quantity = qty\<rparr> # rest))))"

fun policies_loop :: "ingest_cbor \<Rightarrow> bytes option \<Rightarrow> nat \<Rightarrow> asset list item_reader" where
  "policies_loop M last_policy 0 = dreturn []"
| "policies_loop M last_policy (Suc n) =
     dbind (read_28_bytes M) (\<lambda>policy.
       if (case last_policy of None \<Rightarrow> False | Some prev \<Rightarrow> policy \<le> prev)
       then bail (''non-canonical asset map: policy_id '' @ ingest_hex M policy @ '' not strictly greater than previous ''
         @ ingest_hex M (case last_policy of None \<Rightarrow> [] | Some prev \<Rightarrow> prev))
       else dbind (read_map_len M) (\<lambda>n_assets. dbind (assets_loop M policy None n_assets) (\<lambda>as.
         dbind (policies_loop M (Some policy) n) (\<lambda>rest. dreturn (as @ rest)))))"

definition parse_multi_assets :: "ingest_cbor \<Rightarrow> asset list item_reader" where
  "parse_multi_assets M = dbind (read_map_len M) (policies_loop M None)"

definition read_credential :: "ingest_cbor \<Rightarrow> (bytes \<times> u8 \<times> u32) item_reader" where
  "read_credential M =
     dbind (read_28_bytes M) (\<lambda>hash. dbind (read_u8 M) (\<lambda>language. dbind (read_u32 M) (\<lambda>size.
       dreturn (hash, language, size))))"

definition skip_script_credential :: "ingest_cbor \<Rightarrow> unit item_reader" where
  "skip_script_credential M =
     dbind (read_null_marker M) (\<lambda>is_null.
       if is_null then dreturn ()
       else dbind (read_array_len M) (\<lambda>arity.
         if arity \<noteq> 3 then bail (''script_credential array must be 3-elem, got '' @ show_nat arity)
         else dbind (read_credential M) (\<lambda>_. dreturn ())))"

definition utxo_step :: "ingest_cbor \<Rightarrow> utxo reader" where
  "utxo_step M =
     dbind (other (read_array_len M)) (\<lambda>arity.
       if arity \<noteq> 4 \<and> arity \<noteq> 6
       then schema ''utxo.entry'' (''utxo entry must be 4-elem (v0.8 minimal) or 6-elem (v0.9 extended), got '' @ show_nat arity)
       else
         dbind (other (read_32_bytes M)) (\<lambda>tx_id.
         dbind (other (read_u64 M)) (\<lambda>index.
         case try_u32 (unat index) of
           None \<Rightarrow> schema ''utxo.output_index'' ''output_index too large for u32''
         | Some output_index \<Rightarrow>
             dbind (other (read_var_bytes M)) (\<lambda>address.
             dbind (other (read_u64 M)) (\<lambda>value_lovelace.
             dbind (if arity = 6
                    then dbind (other (parse_multi_assets M)) (\<lambda>assets.
                         dbind (other (skip_script_credential M)) (\<lambda>_. dreturn assets))
                    else dreturn []) (\<lambda>assets.
             dreturn \<lparr>utxo_tx_id = tx_id, utxo_output_index = output_index, utxo_address = address,
               utxo_value_lovelace = value_lovelace, utxo_assets = assets, utxo_datum_option = DatumNone,
               utxo_script_ref = None\<rparr>))))))"

definition ingest_utxos :: "ingest_cbor \<Rightarrow> bytes \<Rightarrow> ingest_fail + utxo list" where
  "ingest_utxos M =
     run_reader (dbind (other (read_array_len M)) (\<lambda>n.
       dbind (reserve (size_of_utxo M) n) (\<lambda>_. decode_many n (utxo_step M))))"

section \<open>Ordered maps\<close>

text \<open>A \<open>BTreeMap\<close> as the list of its bindings in key order; \<open>bt_upd\<close> is an update through \<open>entry\<close>.\<close>

fun bt_upd :: "'k::linorder \<Rightarrow> ('v option \<Rightarrow> 'v) \<Rightarrow> ('k \<times> 'v) list \<Rightarrow> ('k \<times> 'v) list" where
  "bt_upd k f [] = [(k, f None)]"
| "bt_upd k f ((j, v) # m) =
     (if k < j then (k, f None) # (j, v) # m
      else if k = j then (j, f (Some v)) # m
      else (j, v) # bt_upd k f m)"

abbreviation bt_wf :: "('k::linorder \<times> 'v) list \<Rightarrow> bool" where
  "bt_wf m \<equiv> sorted_wrt (<) (map fst m)"

section \<open>Scripts\<close>

text \<open>The prefix that the readers of scripts and policies skip: a 32-byte address is expected here.\<close>

definition skip_prefix :: "ingest_cbor \<Rightarrow> unit reader" where
  "skip_prefix M =
     dbind (other (read_32_bytes M)) (\<lambda>_. dbind (other (read_u64 M)) (\<lambda>_.
     dbind (other (read_32_bytes M)) (\<lambda>_. dbind (other (read_u64 M)) (\<lambda>_. dreturn ()))))"

definition skip_assets :: "ingest_cbor \<Rightarrow> unit item_reader" where
  "skip_assets M =
     dbind (read_map_len M) (\<lambda>n_policies.
     dbind (decode_many n_policies (dbind (read_28_bytes M) (\<lambda>_. dbind (read_map_len M) (\<lambda>n_assets.
       decode_many n_assets (dbind (read_var_bytes M) (\<lambda>_. read_u64 M)))))) (\<lambda>_. dreturn ()))"

definition script_step :: "ingest_cbor \<Rightarrow> script_entry option reader" where
  "script_step M =
     dbind (other (read_array_len M)) (\<lambda>arity.
       if arity \<noteq> 4 \<and> arity \<noteq> 6
       then schema ''script.utxo_entry'' (''utxo entry must be 4-elem or 6-elem, got '' @ show_nat arity)
       else dbind (skip_prefix M) (\<lambda>_.
         if arity = 4 then dreturn None
         else dbind (other (skip_assets M)) (\<lambda>_. dbind (other (read_null_marker M)) (\<lambda>is_null.
           if is_null then dreturn None
           else dbind (other (read_array_len M)) (\<lambda>arity.
             if arity \<noteq> 3 then schema ''script.credential'' (''script_credential arity '' @ show_nat arity @ '' != 3'')
             else dbind (other (read_credential M)) (\<lambda>(script_hash, language, size).
               dreturn (Some \<lparr>se_script_hash = script_hash, se_deployment_slot = 0, se_script_size_bytes = size,
                 se_language = language\<rparr>)))))))"

fun script_loop :: "ingest_cbor \<Rightarrow> nat \<Rightarrow> (bytes \<times> script_entry) list \<Rightarrow> (bytes \<times> script_entry) list reader" where
  "script_loop M 0 seen = dreturn seen"
| "script_loop M (Suc n) seen =
     dbind (script_step M) (\<lambda>x. script_loop M n (case x of
         None \<Rightarrow> seen
       | Some e \<Rightarrow> bt_upd (se_script_hash e) (case_option e (\<lambda>old. old)) seen))"

definition ingest_scripts :: "ingest_cbor \<Rightarrow> bytes \<Rightarrow> ingest_fail + script_entry list" where
  "ingest_scripts M cbor =
     map_sum id (map snd) (run_reader (dbind (other (read_array_len M)) (\<lambda>n. script_loop M n [])) cbor)"

section \<open>Token policies\<close>

definition checked_add_u128 :: "u128 \<Rightarrow> u128 \<Rightarrow> u128 option" where
  "checked_add_u128 a b = (if unat a + unat b < 2 ^ 128 then Some (a + b) else None)"

definition supply_add :: "u128 \<Rightarrow> u128 \<Rightarrow> u128 item_reader" where
  "supply_add a b = (case checked_add_u128 a b of
     None \<Rightarrow> bail ''token-policy total_supply overflow u128'' | Some c \<Rightarrow> dreturn c)"

fun supply_loop :: "ingest_cbor \<Rightarrow> nat \<Rightarrow> u128 \<Rightarrow> u128 item_reader" where
  "supply_loop M 0 policy_total = dreturn policy_total"
| "supply_loop M (Suc n) policy_total =
     dbind (read_var_bytes M) (\<lambda>_. dbind (read_u64 M) (\<lambda>qty.
       dbind (supply_add policy_total (ucast qty)) (supply_loop M n)))"

fun totals_loop :: "ingest_cbor \<Rightarrow> nat \<Rightarrow> (bytes \<times> u128) list \<Rightarrow> (bytes \<times> u128) list item_reader" where
  "totals_loop M 0 totals = dreturn totals"
| "totals_loop M (Suc n) totals =
     dbind (read_28_bytes M) (\<lambda>policy. dbind (read_map_len M) (\<lambda>n_assets.
     dbind (supply_loop M n_assets 0) (\<lambda>policy_total.
     dbind (supply_add (case map_of totals policy of None \<Rightarrow> 0 | Some t \<Rightarrow> t) policy_total) (\<lambda>entry.
     totals_loop M n (bt_upd policy (\<lambda>_. entry) totals)))))"

definition policy_step :: "ingest_cbor \<Rightarrow> (bytes \<times> u128) list \<Rightarrow> (bytes \<times> u128) list reader" where
  "policy_step M totals =
     dbind (other (read_array_len M)) (\<lambda>arity.
       if arity \<noteq> 4 \<and> arity \<noteq> 6
       then schema ''token_policy.utxo_entry'' (''utxo entry must be 4-elem or 6-elem, got '' @ show_nat arity)
       else dbind (skip_prefix M) (\<lambda>_.
         if arity = 4 then dreturn totals
         else dbind (other (read_map_len M)) (\<lambda>n_policies. dbind (other (totals_loop M n_policies totals)) (\<lambda>totals'.
           dbind (other (read_null_marker M)) (\<lambda>is_null.
             if is_null then dreturn totals'
             else dbind (other (read_array_len M)) (\<lambda>arity.
               if arity \<noteq> 3
               then schema ''token_policy.script_credential'' (''script_credential arity '' @ show_nat arity @ '' != 3'')
               else dbind (other (read_credential M)) (\<lambda>_. dreturn totals')))))))"

fun policy_loop :: "ingest_cbor \<Rightarrow> nat \<Rightarrow> (bytes \<times> u128) list \<Rightarrow> (bytes \<times> u128) list reader" where
  "policy_loop M 0 totals = dreturn totals"
| "policy_loop M (Suc n) totals = dbind (policy_step M totals) (policy_loop M n)"

definition policy_of_total :: "bytes \<times> u128 \<Rightarrow> token_policy" where
  "policy_of_total b = \<lparr>tp_policy_id = fst b, tp_first_issuance_slot = 0, tp_total_supply_at_h = snd b\<rparr>"

definition ingest_token_policies :: "ingest_cbor \<Rightarrow> bytes \<Rightarrow> ingest_fail + token_policy list" where
  "ingest_token_policies M cbor =
     map_sum id (map policy_of_total) (run_reader (dbind (other (read_array_len M)) (\<lambda>n. policy_loop M n [])) cbor)"

section \<open>Stake entries\<close>

text \<open>\<open>{:02x}\<close> of a byte.\<close>

definition hex_digit :: "nat \<Rightarrow> char" where
  "hex_digit d = (if d < 10 then digit_char d else char_of (87 + d))"

definition hex_byte :: "u8 \<Rightarrow> string" where
  "hex_byte b = [hex_digit (unat b div 16), hex_digit (unat b mod 16)]"

definition drep_arity :: "string \<Rightarrow> nat \<Rightarrow> nat \<Rightarrow> 'a item_reader \<Rightarrow> 'a item_reader" where
  "drep_arity what expected arity p =
     (if arity \<noteq> expected
      then bail (''drep tag '' @ what
        @ (if expected = 1 then '' must carry no payload, got arity '' else '' requires 28-byte payload, got arity '')
        @ show_nat arity)
      else p)"

definition read_drep :: "ingest_cbor \<Rightarrow> drep_delegation item_reader" where
  "read_drep M =
     dbind (read_array_len M) (\<lambda>arity.
       if arity = 0 \<or> arity > 2 then bail (''drep array must be 1- or 2-elem, got '' @ show_nat arity)
       else dbind (read_u8 M) (\<lambda>tag.
         if tag = 0x00 then drep_arity ''0x00 (None)'' 1 arity (dreturn DrepNone)
         else if tag = 0x01 then
           drep_arity ''0x01 (KeyHash)'' 2 arity (dbind (read_28_bytes M) (\<lambda>h. dreturn (DrepKeyHash h)))
         else if tag = 0x02 then
           drep_arity ''0x02 (ScriptHash)'' 2 arity (dbind (read_28_bytes M) (\<lambda>h. dreturn (DrepScriptHash h)))
         else if tag = 0x03 then drep_arity ''0x03 (AlwaysAbstain)'' 1 arity (dreturn DrepAlwaysAbstain)
         else if tag = 0x04 then drep_arity ''0x04 (AlwaysNoConfidence)'' 1 arity (dreturn DrepAlwaysNoConfidence)
         else bail (''unknown drep tag byte 0x'' @ hex_byte tag)))"

definition stake_step :: "ingest_cbor \<Rightarrow> stake_entry reader" where
  "stake_step M =
     dbind (other (read_array_len M)) (\<lambda>arity.
       if arity \<noteq> 5 then schema ''stake.entry'' (''stake entry must be 5-elem, got '' @ show_nat arity)
       else
         dbind (other (read_28_bytes M)) (\<lambda>stake_credential_hash.
         dbind (other (read_28_bytes M)) (\<lambda>delegated_pool.
         dbind (other (read_drep M)) (\<lambda>delegated_drep.
         dbind (other (read_u64 M)) (\<lambda>rewards_lovelace.
         dbind (other (read_u8 M)) (\<lambda>is_pool_operator.
         dreturn \<lparr>st_stake_credential_hash = stake_credential_hash, st_delegated_pool = delegated_pool,
           st_delegated_drep = delegated_drep, st_rewards_lovelace = rewards_lovelace,
           st_is_pool_operator = is_pool_operator\<rparr>))))))"

definition ingest_stake :: "ingest_cbor \<Rightarrow> bytes \<Rightarrow> ingest_fail + stake_entry list" where
  "ingest_stake M =
     run_reader (dbind (other (read_array_len M)) (\<lambda>n.
       dbind (reserve (size_of_stake_entry M) n) (\<lambda>_. decode_many n (stake_step M))))"

section \<open>Governance facts\<close>

definition read_account_pot :: "ingest_cbor \<Rightarrow> string \<Rightarrow> u64 item_reader" where
  "read_account_pot M name =
     (\<lambda>bs. map_err (\<lambda>e. ''AccountState missing pot '' @ [char_of (39::nat)] @ name @ [char_of (39::nat)] @ '': '' @ e) (read_u64 M bs))"

definition keyed_fact :: "u8 \<Rightarrow> bytes \<Rightarrow> u128 \<Rightarrow> u64 \<Rightarrow> governance_fact" where
  "keyed_fact k key v slot =
     (if k = kind_TREASURY then Treasury key v slot
      else if k = kind_CC_SEAT then CcSeat key v slot
      else if k = kind_RATIFIED_ACTION then RatifiedAction key v slot
      else InFlightAction key v slot)"

definition keyed_step :: "ingest_cbor \<Rightarrow> nat \<Rightarrow> u8 \<Rightarrow> governance_fact reader" where
  "keyed_step M arity k =
     (if arity \<noteq> 4 then schema ''governance.fact'' (''kind='' @ show_nat (unat k) @ '' must be 4-elem, got '' @ show_nat arity)
      else dbind (other (read_32_bytes M)) (\<lambda>key. dbind (other (read_u128_bytes M)) (\<lambda>v.
        dbind (other (read_u64 M)) (\<lambda>slot. dreturn (keyed_fact k key v slot)))))"

definition account_step :: "ingest_cbor \<Rightarrow> nat \<Rightarrow> bool \<Rightarrow> governance_fact reader" where
  "account_step M arity saw_account_state =
     (if arity \<noteq> 5
      then schema ''governance.account_state''
        (''kind=4 must be 5-elem [kind, reserves, treasury, deposits, fee_pot], got '' @ show_nat arity)
      else
        dbind (other (read_account_pot M ''reserves'')) (\<lambda>reserves.
        dbind (other (read_account_pot M ''treasury'')) (\<lambda>treasury.
        dbind (other (read_account_pot M ''deposits'')) (\<lambda>deposits.
        dbind (other (read_account_pot M ''fee_pot'')) (\<lambda>fee_pot.
        if saw_account_state
        then schema ''governance.account_state'' ''duplicate AccountState entry: snapshot must carry exactly one''
        else dreturn (AccountState reserves treasury deposits fee_pot))))))"

definition governance_step :: "ingest_cbor \<Rightarrow> bool \<Rightarrow> governance_fact reader" where
  "governance_step M saw_account_state =
     dbind (other (read_array_len M)) (\<lambda>arity. dbind (other (read_u8 M)) (\<lambda>k.
       if k \<in> {kind_TREASURY, kind_CC_SEAT, kind_RATIFIED_ACTION, kind_IN_FLIGHT_ACTION} then keyed_step M arity k
       else if k = kind_ACCOUNT_STATE then account_step M arity saw_account_state
       else schema ''governance.fact'' (''unknown governance fact kind byte 0x'' @ hex_byte k)))"

fun is_account_state :: "governance_fact \<Rightarrow> bool" where
  "is_account_state (AccountState _ _ _ _) = True"
| "is_account_state _ = False"

fun governance_loop :: "ingest_cbor \<Rightarrow> nat \<Rightarrow> bool \<Rightarrow> governance_fact list reader" where
  "governance_loop M 0 saw_account_state = dreturn []"
| "governance_loop M (Suc n) saw_account_state =
     dbind (governance_step M saw_account_state) (\<lambda>f.
     dbind (governance_loop M n (saw_account_state \<or> is_account_state f)) (\<lambda>facts. dreturn (f # facts)))"

definition ingest_governance :: "ingest_cbor \<Rightarrow> bytes \<Rightarrow> ingest_fail + governance_fact list" where
  "ingest_governance M =
     run_reader (dbind (other (read_array_len M)) (\<lambda>n.
       dbind (reserve (size_of_governance_fact M) n) (\<lambda>_. governance_loop M n False)))"

end
