(* ===== verification/Ingest_Safety.thy ===== *)
theory Ingest_Safety
  imports Ledger_Ingest
begin

text \<open>
  What the snapshot readers guarantee. The three readers of UTXO snapshots are compared with one
  reader of the abstract snapshot (\<open>read_entry\<close>): whatever bytes they accept, they saw the same
  entries. From this follow the canonical form of the ingested UTXOs and the agreement of the
  token supplies with them. The stake and governance readers are inverse to the documented wire
  format.
\<close>

section \<open>Successful reads\<close>

lemma reader_Inr [simp]:
  "other p bs = Inr y \<longleftrightarrow> p bs = Inr y"
  "dreturn x bs = Inr (z, r) \<longleftrightarrow> z = x \<and> r = bs"
  "bail msg bs \<noteq> Inr y"
  "schema c msg bs \<noteq> Inr y"
  by (auto simp: other_def dreturn_def bail_def schema_def)

lemmas readers = dbind_Inr

lemma reserve_Inr [simp]: "reserve sz n bs = Inr (u, r) \<longleftrightarrow> n * sz < 2 ^ 63 \<and> r = bs"
  by (auto simp: reserve_def)

lemma read_28_bytes_length: "read_28_bytes M bs = Inr (b, r) \<Longrightarrow> length b = 28"
  by (auto simp: read_28_bytes_def readers split: if_splits)

lemma read_32_bytes_length: "read_32_bytes M bs = Inr (b, r) \<Longrightarrow> length b = 32"
  by (auto simp: read_32_bytes_def readers split: if_splits)

lemma read_32_var_bytes: "read_32_bytes M bs = Inr (b, r) \<Longrightarrow> read_var_bytes M bs = Inr (b, r)"
  by (auto simp: read_32_bytes_def read_var_bytes_def readers split: if_splits)

lemma run_reader_Inr: "run_reader p cbor = Inr x \<Longrightarrow> \<exists>r. p cbor = Inr (x, r)"
  by (auto simp: run_reader_def readers res_bind_eq_Inr)

section \<open>The abstract snapshot\<close>

type_synonym bundle_items = "(bytes \<times> (bytes \<times> u64) list) list"

record snapshot_entry =
  sn_tx_id :: bytes
  sn_index :: u64
  sn_address :: bytes
  sn_value :: u64
  sn_bundle :: bundle_items
  sn_script :: "(bytes \<times> u8 \<times> u32) option"

definition read_named :: "ingest_cbor \<Rightarrow> (bytes \<times> u64) item_reader" where
  "read_named M = dbind (read_var_bytes M) (\<lambda>a. dbind (read_u64 M) (\<lambda>q. dreturn (a, q)))"

definition read_policy :: "ingest_cbor \<Rightarrow> (bytes \<times> (bytes \<times> u64) list) item_reader" where
  "read_policy M = dbind (read_28_bytes M) (\<lambda>p. dbind (read_map_len M) (\<lambda>k.
     dbind (decode_many k (read_named M)) (\<lambda>as. dreturn (p, as))))"

definition read_bundle :: "ingest_cbor \<Rightarrow> bundle_items item_reader" where
  "read_bundle M = dbind (read_map_len M) (\<lambda>n. decode_many n (read_policy M))"

definition read_script :: "ingest_cbor \<Rightarrow> (bytes \<times> u8 \<times> u32) option item_reader" where
  "read_script M = dbind (read_null_marker M) (\<lambda>is_null.
     if is_null then dreturn None
     else dbind (read_array_len M) (\<lambda>k.
       if k \<noteq> 3 then bail [] else dbind (read_credential M) (\<lambda>c. dreturn (Some c))))"

definition read_entry :: "ingest_cbor \<Rightarrow> snapshot_entry item_reader" where
  "read_entry M = dbind (read_array_len M) (\<lambda>k.
     if k \<noteq> 4 \<and> k \<noteq> 6 then bail []
     else dbind (read_32_bytes M) (\<lambda>t. dbind (read_u64 M) (\<lambda>i. dbind (read_var_bytes M) (\<lambda>a. dbind (read_u64 M) (\<lambda>v.
       dbind (if k = 4 then dreturn [] else read_bundle M) (\<lambda>b. dbind (if k = 4 then dreturn None else read_script M) (\<lambda>s.
       dreturn \<lparr>sn_tx_id = t, sn_index = i, sn_address = a, sn_value = v, sn_bundle = b, sn_script = s\<rparr>)))))))"

definition read_snapshot :: "ingest_cbor \<Rightarrow> snapshot_entry list item_reader" where
  "read_snapshot M = dbind (read_array_len M) (\<lambda>n. decode_many n (read_entry M))"

definition bundle_assets :: "bundle_items \<Rightarrow> asset list" where
  "bundle_assets b = concat (map (\<lambda>(p, as). map (\<lambda>(a, q). \<lparr>asset_id = p @ a, quantity = q\<rparr>) as) b)"

definition entry_utxo :: "snapshot_entry \<Rightarrow> utxo" where
  "entry_utxo e = \<lparr>utxo_tx_id = sn_tx_id e, utxo_output_index = ucast (sn_index e), utxo_address = sn_address e,
     utxo_value_lovelace = sn_value e, utxo_assets = bundle_assets (sn_bundle e), utxo_datum_option = DatumNone,
     utxo_script_ref = None\<rparr>"

text \<open>Ascending keys at both levels of a bundle.\<close>

definition bundle_canonical :: "bundle_items \<Rightarrow> bool" where
  "bundle_canonical b \<longleftrightarrow> sorted_wrt (<) (map fst b)
     \<and> (\<forall>(p, as) \<in> set b. length p = 28 \<and> sorted_wrt (<) (map fst as))"

lemma assets_loop_Inr:
  "assets_loop M p l n bs = Inr (as, r) \<Longrightarrow>
     \<exists>kvs. decode_many n (read_named M) bs = Inr (kvs, r) \<and> as = map (\<lambda>(a, q). \<lparr>asset_id = p @ a, quantity = q\<rparr>) kvs
       \<and> sorted_wrt (<) (map fst kvs) \<and> (\<forall>prev. l = Some prev \<longrightarrow> (\<forall>a \<in> fst ` set kvs. prev < a))"
proof (induction n arbitrary: l bs as)
  case (Suc n)
  then obtain name r1 q r2 as' where *: "read_var_bytes M bs = Inr (name, r1)" "read_u64 M r1 = Inr (q, r2)"
    "assets_loop M p (Some name) n r2 = Inr (as', r)" "as = \<lparr>asset_id = p @ name, quantity = q\<rparr> # as'"
    "\<forall>prev. l = Some prev \<longrightarrow> prev < name"
    by (auto simp: readers split: if_splits option.splits)
  from Suc.IH [OF *(3)] obtain kvs where k: "decode_many n (read_named M) r2 = Inr (kvs, r)"
    "as' = map (\<lambda>(a, q). \<lparr>asset_id = p @ a, quantity = q\<rparr>) kvs" "sorted_wrt (<) (map fst kvs)"
    "\<forall>a \<in> fst ` set kvs. name < a" by auto
  with * show ?case
    by (intro exI [of _ "(name, q) # kvs"]) (auto simp: read_named_def readers)
qed simp

lemma policies_loop_Inr:
  "policies_loop M l n bs = Inr (as, r) \<Longrightarrow>
     \<exists>b. decode_many n (read_policy M) bs = Inr (b, r) \<and> as = bundle_assets b \<and> bundle_canonical b
       \<and> (\<forall>prev. l = Some prev \<longrightarrow> (\<forall>p \<in> fst ` set b. prev < p))"
proof (induction n arbitrary: l bs as)
  case 0
  then show ?case by (simp add: bundle_assets_def bundle_canonical_def)
next
  case (Suc n)
  then obtain p r1 k r2 as1 r3 as2 where *: "read_28_bytes M bs = Inr (p, r1)" "read_map_len M r1 = Inr (k, r2)"
    "assets_loop M p None k r2 = Inr (as1, r3)" "policies_loop M (Some p) n r3 = Inr (as2, r)" "as = as1 @ as2"
    "\<forall>prev. l = Some prev \<longrightarrow> prev < p"
    by (auto simp: readers split: if_splits option.splits)
  from assets_loop_Inr [OF *(3)] obtain kvs where k: "decode_many k (read_named M) r2 = Inr (kvs, r3)"
    "as1 = map (\<lambda>(a, q). \<lparr>asset_id = p @ a, quantity = q\<rparr>) kvs" "sorted_wrt (<) (map fst kvs)" by auto
  from Suc.IH [OF *(4)] obtain b where b: "decode_many n (read_policy M) r3 = Inr (b, r)" "as2 = bundle_assets b"
    "bundle_canonical b" "\<forall>q \<in> fst ` set b. p < q" by auto
  have "length p = 28" using *(1) by (rule read_28_bytes_length)
  with * k b show ?case
    by (intro exI [of _ "(p, kvs) # b"]) (auto simp: read_policy_def readers bundle_assets_def bundle_canonical_def)
qed

lemma parse_multi_assets_Inr:
  "parse_multi_assets M bs = Inr (as, r) \<Longrightarrow> \<exists>b. read_bundle M bs = Inr (b, r) \<and> as = bundle_assets b \<and> bundle_canonical b"
  by (auto simp: parse_multi_assets_def read_bundle_def readers dest!: policies_loop_Inr)

lemma skip_script_credential_Inr: "skip_script_credential M bs = Inr (u, r) \<Longrightarrow> \<exists>s. read_script M bs = Inr (s, r)"
  by (fastforce simp: skip_script_credential_def read_script_def readers split: if_splits)

lemma ucast_try_u32: "try_u32 (unat (i :: u64)) = Some w \<Longrightarrow> w = ucast i"
  by (auto simp: try_u32_def unat_of_nat split: if_splits)

lemma utxo_step_Inr:
  assumes "utxo_step M bs = Inr (u, r)"
  shows "\<exists>e. read_entry M bs = Inr (e, r) \<and> u = entry_utxo e \<and> bundle_canonical (sn_bundle e) \<and> length (sn_tx_id e) = 32"
proof -
  from assms obtain k r1 t r2 i r3 w a r4 v r5 as where *: "read_array_len M bs = Inr (k, r1)" "k = 4 \<or> k = 6"
    "read_32_bytes M r1 = Inr (t, r2)" "read_u64 M r2 = Inr (i, r3)" "try_u32 (unat i) = Some w"
    "read_var_bytes M r3 = Inr (a, r4)" "read_u64 M r4 = Inr (v, r5)"
    "(if k = 6 then dbind (other (parse_multi_assets M)) (\<lambda>as. dbind (other (skip_script_credential M)) (\<lambda>_. dreturn as))
      else dreturn []) r5 = Inr (as, r)"
    "u = \<lparr>utxo_tx_id = t, utxo_output_index = w, utxo_address = a, utxo_value_lovelace = v, utxo_assets = as,
      utxo_datum_option = DatumNone, utxo_script_ref = None\<rparr>"
    by (auto simp: utxo_step_def readers split: if_splits option.splits)
  obtain b s r6 where b: "(if k = 4 then dreturn [] else read_bundle M) r5 = Inr (b, r6)" "as = bundle_assets b"
    "bundle_canonical b" "(if k = 4 then dreturn None else read_script M) r6 = Inr (s, r)"
  proof (cases "k = 4")
    case True
    then show thesis using *(8) by (intro that [of "[]" r5 None]) (auto simp: bundle_assets_def bundle_canonical_def)
  next
    case False
    with *(2,8) obtain r6 where "parse_multi_assets M r5 = Inr (as, r6)" "skip_script_credential M r6 = Inr ((), r)"
      by (auto simp: readers)
    with that False show thesis by (auto dest!: parse_multi_assets_Inr skip_script_credential_Inr)
  qed
  have "w = ucast i" using *(5) by (rule ucast_try_u32)
  with * b read_32_bytes_length [OF *(3)] show ?thesis
    by (intro exI [of _ "\<lparr>sn_tx_id = t, sn_index = i, sn_address = a, sn_value = v, sn_bundle = b, sn_script = s\<rparr>"])
      (auto simp: read_entry_def readers entry_utxo_def)
qed

text \<open>A pointwise refinement of one element reader by another carries over to the loop.\<close>

lemma decode_many_refine:
  assumes "\<And>bs x r. p bs = Inr (x, r) \<Longrightarrow> \<exists>y. q bs = Inr (y, r) \<and> R x y"
  shows "decode_many n p bs = Inr (xs, r) \<Longrightarrow> \<exists>ys. decode_many n q bs = Inr (ys, r) \<and> list_all2 R xs ys"
proof (induction n arbitrary: bs xs)
  case (Suc n)
  then obtain x r1 xs' where "p bs = Inr (x, r1)" "decode_many n p r1 = Inr (xs', r)" "xs = x # xs'"
    by (auto simp: readers)
  with assms [of bs x r1] Suc.IH [of r1 xs'] show ?case by (fastforce simp: readers)
qed simp

lemma ingest_utxos_Inr:
  assumes "ingest_utxos M cbor = Inr us"
  shows "\<exists>es r. read_snapshot M cbor = Inr (es, r) \<and> us = map entry_utxo es
    \<and> (\<forall>e \<in> set es. bundle_canonical (sn_bundle e) \<and> length (sn_tx_id e) = 32)"
proof -
  from assms obtain n r1 r where n: "read_array_len M cbor = Inr (n, r1)" "decode_many n (utxo_step M) r1 = Inr (us, r)"
    by (auto simp: ingest_utxos_def readers dest!: run_reader_Inr)
  let ?R = "\<lambda>u e. u = entry_utxo e \<and> bundle_canonical (sn_bundle e) \<and> length (sn_tx_id e) = 32"
  obtain es where "decode_many n (read_entry M) r1 = Inr (es, r)" "list_all2 ?R us es"
    using decode_many_refine [where q = "read_entry M" and R = ?R, OF utxo_step_Inr n(2)] by blast
  moreover from this(2) have "us = map entry_utxo es"
    "\<forall>e \<in> set es. bundle_canonical (sn_bundle e) \<and> length (sn_tx_id e) = 32"
    by (induction rule: list_all2_induct) auto
  ultimately show ?thesis using n(1) by (auto simp: read_snapshot_def readers)
qed

section \<open>Token supplies\<close>

lemma bt_upd_map_of: "bt_wf m \<Longrightarrow> map_of (bt_upd k f m) = (map_of m)(k \<mapsto> f (map_of m k))"
proof (induction m)
  case (Cons b m)
  obtain j v where b: "b = (j, v)" by force
  have "k < j \<Longrightarrow> map_of m k = None" using Cons.prems b by (force simp: map_of_eq_None_iff)
  moreover have "k = j \<Longrightarrow> map_of m k = None" using Cons.prems b by (force simp: map_of_eq_None_iff)
  ultimately show ?case using Cons b by (auto simp: fun_eq_iff)
qed auto

lemma bt_upd_keys: "fst ` set (bt_upd k f m) = insert k (fst ` set m)"
  by (induction k f m rule: bt_upd.induct) auto

lemma bt_upd_wf: "bt_wf m \<Longrightarrow> bt_wf (bt_upd k f m)"
proof (induction m)
  case (Cons b m)
  then show ?case using bt_upd_keys [of k f m] by (cases b) (auto dest: order.strict_trans)
qed simp

definition supply_of :: "(bytes \<times> u128) list \<Rightarrow> bytes \<Rightarrow> nat" where
  "supply_of ts p = (case map_of ts p of None \<Rightarrow> 0 | Some t \<Rightarrow> unat t)"

definition bundle_supply :: "bundle_items \<Rightarrow> bytes \<Rightarrow> nat" where
  "bundle_supply b p = (\<Sum>(q, as) \<leftarrow> b. if q = p then (\<Sum>(_, v) \<leftarrow> as. unat v) else 0)"

lemma supply_add_Inr: "supply_add a b bs = Inr (c, r) \<longleftrightarrow> r = bs \<and> c = a + b \<and> unat a + unat b < 2 ^ 128"
  by (auto simp: supply_add_def checked_add_u128_def split: if_splits)

lemma unat_add_u128: "unat a + unat b < 2 ^ 128 \<Longrightarrow> unat (a + b :: u128) = unat a + unat b"
  by (simp add: unat_word_ariths)

lemma unat_ucast_u128 [simp]: "unat (ucast (x :: u64) :: u128) = unat x"
proof -
  have "unat x < 2 ^ 64" using unsigned_less [of x, where ?'a = nat] by simp
  then show ?thesis by (simp add: unsigned_ucast_eq take_bit_eq_mod)
qed

lemma supply_loop_Inr:
  "supply_loop M n t bs = Inr (t', r) \<Longrightarrow>
     \<exists>kvs. decode_many n (read_named M) bs = Inr (kvs, r) \<and> unat t' = unat t + (\<Sum>(_, v) \<leftarrow> kvs. unat v)"
proof (induction n arbitrary: t bs)
  case (Suc n)
  then obtain a r1 q r2 where *: "read_var_bytes M bs = Inr (a, r1)" "read_u64 M r1 = Inr (q, r2)"
    "supply_loop M n (t + ucast q) r2 = Inr (t', r)" "unat t + unat q < 2 ^ 128"
    by (auto simp: readers supply_add_Inr)
  from Suc.IH [OF *(3)] obtain kvs where "decode_many n (read_named M) r2 = Inr (kvs, r)"
    "unat t' = unat (t + ucast q) + (\<Sum>(_, v) \<leftarrow> kvs. unat v)" by blast
  with * unat_add_u128 [of t "ucast q"] show ?case
    by (intro exI [of _ "(a, q) # kvs"]) (auto simp: read_named_def readers)
qed simp

lemma totals_loop_Inr:
  "totals_loop M n ts bs = Inr (ts', r) \<Longrightarrow> bt_wf ts \<Longrightarrow>
     \<exists>b. decode_many n (read_policy M) bs = Inr (b, r) \<and> bt_wf ts' \<and> (\<forall>p. supply_of ts' p = supply_of ts p + bundle_supply b p)"
proof (induction n arbitrary: ts bs)
  case 0
  then show ?case by (simp add: bundle_supply_def)
next
  case (Suc n)
  let ?old = "\<lambda>p. case map_of ts p of None \<Rightarrow> 0 | Some t \<Rightarrow> t"
  from Suc.prems(1) obtain p r1 k r2 t r3 where *: "read_28_bytes M bs = Inr (p, r1)" "read_map_len M r1 = Inr (k, r2)"
    "supply_loop M k 0 r2 = Inr (t, r3)" "unat (?old p) + unat t < 2 ^ 128"
    "totals_loop M n (bt_upd p (\<lambda>_. ?old p + t) ts) r3 = Inr (ts', r)"
    by (auto simp: readers supply_add_Inr)
  let ?ts = "bt_upd p (\<lambda>_. ?old p + t) ts"
  from supply_loop_Inr [OF *(3)] obtain kvs where k: "decode_many k (read_named M) r2 = Inr (kvs, r3)"
    "unat t = (\<Sum>(_, v) \<leftarrow> kvs. unat v)" by auto
  from Suc.IH [OF *(5) bt_upd_wf [OF Suc.prems(2)]] obtain b where b: "decode_many n (read_policy M) r3 = Inr (b, r)"
    "bt_wf ts'" "\<forall>q. supply_of ts' q = supply_of ?ts q + bundle_supply b q" by blast
  have "supply_of ?ts q = supply_of ts q + (if p = q then unat t else 0)" for q
    using *(4) unat_add_u128 [of "?old p" t]
    by (auto simp: supply_of_def bt_upd_map_of [OF Suc.prems(2)] split: option.splits)
  then have "supply_of ts' q = supply_of ts q + bundle_supply ((p, kvs) # b) q" for q
    using b(3) k(2) by (simp add: bundle_supply_def)
  with * k b show ?case
    by (intro exI [of _ "(p, kvs) # b"]) (simp add: read_policy_def readers)
qed

lemma read_script_intros:
  "read_null_marker M bs = Inr (True, r) \<Longrightarrow> read_script M bs = Inr (None, r)"
  "read_null_marker M bs = Inr (False, r1) \<Longrightarrow> read_array_len M r1 = Inr (3, r2) \<Longrightarrow> read_credential M r2 = Inr (c, r) \<Longrightarrow>
     read_script M bs = Inr (Some c, r)"
  by (simp_all add: read_script_def dbind_apply dreturn_def)

lemma policy_step_Inr:
  assumes "policy_step M ts bs = Inr (ts', r)" "bt_wf ts"
  shows "\<exists>e. read_entry M bs = Inr (e, r) \<and> length (sn_address e) = 32 \<and> bt_wf ts'
    \<and> (\<forall>p. supply_of ts' p = supply_of ts p + bundle_supply (sn_bundle e) p)"
proof -
  from assms(1) obtain k r1 t r2 i r3 a r4 v r5 where *: "read_array_len M bs = Inr (k, r1)" "k = 4 \<or> k = 6"
    "read_32_bytes M r1 = Inr (t, r2)" "read_u64 M r2 = Inr (i, r3)" "read_32_bytes M r3 = Inr (a, r4)" "read_u64 M r4 = Inr (v, r5)"
    "k = 4 \<and> ts' = ts \<and> r = r5 \<or> k = 6 \<and> (\<exists>n r6 r7 s. read_map_len M r5 = Inr (n, r6) \<and> totals_loop M n ts r6 = Inr (ts', r7)
      \<and> read_script M r7 = Inr (s, r))"
    by (fastforce simp: policy_step_def skip_prefix_def readers split: if_splits intro: read_script_intros)
  have "\<exists>b s r6. (if k = 4 then dreturn [] else read_bundle M) r5 = Inr (b, r6) \<and> bt_wf ts'
    \<and> (\<forall>p. supply_of ts' p = supply_of ts p + bundle_supply b p) \<and> (if k = 4 then dreturn None else read_script M) r6 = Inr (s, r)"
  proof (cases "k = 4")
    case True
    then show ?thesis using *(7) assms(2) by (auto simp: bundle_supply_def)
  next
    case False
    with *(7) obtain n r6 r7 s where n: "read_map_len M r5 = Inr (n, r6)" "totals_loop M n ts r6 = Inr (ts', r7)"
      "read_script M r7 = Inr (s, r)" by blast
    from totals_loop_Inr [OF n(2) assms(2)] n(1,3) False show ?thesis
      by (fastforce simp: read_bundle_def readers)
  qed
  then obtain b s r6 where b: "(if k = 4 then dreturn [] else read_bundle M) r5 = Inr (b, r6)" "bt_wf ts'"
    "\<forall>p. supply_of ts' p = supply_of ts p + bundle_supply b p" "(if k = 4 then dreturn None else read_script M) r6 = Inr (s, r)"
    by blast
  with * read_32_bytes_length [OF *(5)] read_32_var_bytes [OF *(5)] show ?thesis
    by (intro exI [of _ "\<lparr>sn_tx_id = t, sn_index = i, sn_address = a, sn_value = v, sn_bundle = b, sn_script = s\<rparr>"])
      (auto simp: read_entry_def readers)
qed

lemma policy_loop_Inr:
  "policy_loop M n ts bs = Inr (ts', r) \<Longrightarrow> bt_wf ts \<Longrightarrow>
     \<exists>es. decode_many n (read_entry M) bs = Inr (es, r) \<and> bt_wf ts' \<and> (\<forall>e \<in> set es. length (sn_address e) = 32)
       \<and> (\<forall>p. supply_of ts' p = supply_of ts p + (\<Sum>e \<leftarrow> es. bundle_supply (sn_bundle e) p))"
proof (induction n arbitrary: ts bs)
  case (Suc n)
  then obtain ts1 r1 where *: "policy_step M ts bs = Inr (ts1, r1)" "policy_loop M n ts1 r1 = Inr (ts', r)"
    by (auto simp: readers)
  from policy_step_Inr [OF *(1) Suc.prems(2)] obtain e where e: "read_entry M bs = Inr (e, r1)" "length (sn_address e) = 32"
    "bt_wf ts1" "\<forall>p. supply_of ts1 p = supply_of ts p + bundle_supply (sn_bundle e) p" by blast
  from Suc.IH [OF *(2) e(3)] obtain es where "decode_many n (read_entry M) r1 = Inr (es, r)" "bt_wf ts'"
    "\<forall>e \<in> set es. length (sn_address e) = 32"
    "\<forall>p. supply_of ts' p = supply_of ts1 p + (\<Sum>e \<leftarrow> es. bundle_supply (sn_bundle e) p)" by blast
  with e show ?case by (intro exI [of _ "e # es"]) (auto simp: readers)
qed simp

lemma ingest_token_policies_Inr:
  assumes "ingest_token_policies M cbor = Inr ps"
  shows "\<exists>es r ts. read_snapshot M cbor = Inr (es, r) \<and> ps = map policy_of_total ts \<and> bt_wf ts
    \<and> (\<forall>e \<in> set es. length (sn_address e) = 32) \<and> (\<forall>p. supply_of ts p = (\<Sum>e \<leftarrow> es. bundle_supply (sn_bundle e) p))"
proof -
  from assms obtain ts where ts: "run_reader (dbind (other (read_array_len M)) (\<lambda>n. policy_loop M n [])) cbor = Inr ts"
    "ps = map policy_of_total ts"
    by (cases "run_reader (dbind (other (read_array_len M)) (\<lambda>n. policy_loop M n [])) cbor")
      (auto simp: ingest_token_policies_def)
  then obtain n r1 r where n: "read_array_len M cbor = Inr (n, r1)" "policy_loop M n [] r1 = Inr (ts, r)"
    by (auto simp: readers dest!: run_reader_Inr)
  from policy_loop_Inr [OF n(2)] obtain es where "decode_many n (read_entry M) r1 = Inr (es, r)" "bt_wf ts"
    "\<forall>e \<in> set es. length (sn_address e) = 32" "\<forall>p. supply_of ts p = (\<Sum>e \<leftarrow> es. bundle_supply (sn_bundle e) p)"
    by (auto simp: supply_of_def)
  with n(1) ts(2) show ?thesis by (auto simp: read_snapshot_def readers)
qed

text \<open>The order of the concatenated asset ids.\<close>

lemma append_less_append: "length p = length q \<Longrightarrow> p < q \<Longrightarrow> p @ a < q @ (b :: bytes)"
  by (induction p q rule: list_induct2) auto

lemma append_less_cancel: "a < b \<Longrightarrow> p @ a < p @ (b :: bytes)"
  by (induction p) auto

lemma bundle_canonical_Cons:
  "bundle_canonical ((p, as) # b) \<longleftrightarrow> length p = 28 \<and> sorted_wrt (<) (map fst as) \<and> bundle_canonical b
     \<and> (\<forall>q \<in> fst ` set b. p < q)"
  by (auto simp: bundle_canonical_def)

lemma bundle_assets_Cons:
  "bundle_assets ((p, as) # b) = map (\<lambda>(a, q). \<lparr>asset_id = p @ a, quantity = q\<rparr>) as @ bundle_assets b"
  by (simp add: bundle_assets_def)

lemma bundle_assets_above:
  assumes "bundle_canonical b" "length p = 28" "\<forall>q \<in> fst ` set b. p < q" "i \<in> asset_id ` set (bundle_assets b)"
  shows "p @ a < i"
proof -
  from assms(4) obtain q as n where q: "(q, as) \<in> set b" "i = q @ n" by (auto simp: bundle_assets_def)
  with assms(1-3) have "length p = length q" "p < q" by (auto simp: bundle_canonical_def)
  then show ?thesis unfolding q(2) by (rule append_less_append)
qed

lemma bundle_assets_ids: "bundle_canonical b \<Longrightarrow> sorted_wrt (<) (map asset_id (bundle_assets b))"
proof (induction b)
  case (Cons x b)
  obtain p as where x: "x = (p, as)" by (cases x)
  with Cons.prems have c: "length p = 28" "sorted_wrt (<) (map fst as)" "bundle_canonical b" "\<forall>q \<in> fst ` set b. p < q"
    by (simp_all add: bundle_canonical_Cons)
  have "sorted_wrt (\<lambda>y z. p @ fst y < p @ fst z) as"
    using c(2) unfolding sorted_wrt_map by (rule sorted_wrt_mono_rel [rotated]) (rule append_less_cancel)
  moreover have "\<forall>y \<in> set as. \<forall>z \<in> set (bundle_assets b). p @ fst y < asset_id z"
    using bundle_assets_above [OF c(3,1,4)] by blast
  ultimately show ?case
    using Cons.IH [OF c(3)] by (simp add: x bundle_assets_Cons sorted_wrt_append sorted_wrt_map case_prod_beta)
qed (simp add: bundle_assets_def)

lemma named_supply:
  "length q = 28 \<Longrightarrow> (\<Sum>a \<leftarrow> map (\<lambda>(a, v). \<lparr>asset_id = q @ a, quantity = v\<rparr>) as. if take 28 (asset_id a) = p then unat (quantity a) else 0)
    = (if q = p then (\<Sum>(_, v) \<leftarrow> as. unat v) else 0)"
  by (induction as) auto

lemma bundle_assets_supply:
  "bundle_canonical b \<Longrightarrow> (\<Sum>a \<leftarrow> bundle_assets b. if take 28 (asset_id a) = p then unat (quantity a) else 0) = bundle_supply b p"
proof (induction b)
  case (Cons x b)
  obtain q as where x: "x = (q, as)" by (cases x)
  with Cons.prems have "length q = 28" "bundle_canonical b" by (simp_all add: bundle_canonical_Cons)
  with Cons.IH show ?case
    by (simp add: x bundle_assets_Cons bundle_supply_def named_supply del: map_map)
qed (simp add: bundle_assets_def bundle_supply_def)

section \<open>Properties of the UTXO snapshots\<close>

lemma sorted_ids_canon: "sorted_wrt (<) (map asset_id (utxo_assets u)) \<Longrightarrow> utxo_canon u = u"
  by (cases u) (simp add: utxo_canon_def sort_key_id_if_sorted strict_sorted_imp_sorted)

text \<open>
  C39. Every UTXO that the snapshot reader returns is well formed and already canonical: its
  asset ids ascend strictly, so no asset is listed twice and sorting changes nothing, it has a
  32-byte transaction id, and it carries neither a datum nor a script.
\<close>

theorem ingested_utxos_canonical:
  assumes "ingest_utxos M cbor = Inr us" "u \<in> set us"
  shows "utxo_wf u \<and> sorted_wrt (<) (map asset_id (utxo_assets u)) \<and> utxo_canon u = u
    \<and> utxo_datum_option u = DatumNone \<and> utxo_script_ref u = None"
proof -
  from ingest_utxos_Inr [OF assms(1)] assms(2) obtain e where e: "u = entry_utxo e" "bundle_canonical (sn_bundle e)"
    "length (sn_tx_id e) = 32" by auto
  have s: "sorted_wrt (<) (map asset_id (utxo_assets u))"
    using bundle_assets_ids [OF e(2)] by (simp add: e(1) entry_utxo_def)
  with e sorted_ids_canon [OF s] show ?thesis by (simp add: utxo_wf_def entry_utxo_def)
qed

definition policies_supply :: "token_policy list \<Rightarrow> bytes \<Rightarrow> nat" where
  "policies_supply ps p = (\<Sum>x \<leftarrow> ps. if tp_policy_id x = p then unat (tp_total_supply_at_h x) else 0)"

definition utxos_supply :: "utxo list \<Rightarrow> bytes \<Rightarrow> nat" where
  "utxos_supply us p = (\<Sum>u \<leftarrow> us. \<Sum>a \<leftarrow> utxo_assets u. if take 28 (asset_id a) = p then unat (quantity a) else 0)"

lemma policies_supply_totals: "bt_wf ts \<Longrightarrow> policies_supply (map policy_of_total ts) p = supply_of ts p"
proof (induction ts)
  case (Cons x ts)
  obtain q t where x: "x = (q, t)" by (cases x)
  have "q = p \<Longrightarrow> map_of ts p = None"
    using Cons.prems x by (force simp: map_of_eq_None_iff)
  with Cons x show ?case by (auto simp: policies_supply_def supply_of_def policy_of_total_def)
qed (simp add: policies_supply_def supply_of_def)

text \<open>
  C38. The token policies agree with the UTXOs: when both readers accept the same snapshot, the
  policies are listed in strictly ascending order, and the total supply of every policy is the
  sum, without wrap-around, of the quantities of the assets of that policy over all UTXOs. Both
  readers accept only snapshots in which every address has 32 bytes.
\<close>

theorem ingest_supply_conserved:
  assumes "ingest_utxos M cbor = Inr us" "ingest_token_policies M cbor = Inr ps"
  shows "sorted_wrt (<) (map tp_policy_id ps) \<and> policies_supply ps p = utxos_supply us p
    \<and> (\<forall>u \<in> set us. length (utxo_address u) = 32)"
proof -
  from ingest_utxos_Inr [OF assms(1)] obtain es r where es: "read_snapshot M cbor = Inr (es, r)" "us = map entry_utxo es"
    "\<forall>e \<in> set es. bundle_canonical (sn_bundle e)" by blast
  with ingest_token_policies_Inr [OF assms(2)] obtain ts where ts: "ps = map policy_of_total ts" "bt_wf ts"
    "\<forall>e \<in> set es. length (sn_address e) = 32" "supply_of ts p = (\<Sum>e \<leftarrow> es. bundle_supply (sn_bundle e) p)" by auto
  have "utxos_supply us p = (\<Sum>e \<leftarrow> es. bundle_supply (sn_bundle e) p)"
    unfolding utxos_supply_def es(2) map_map comp_def
    by (rule arg_cong [where f = sum_list], rule map_cong [OF refl])
      (use es(3) in \<open>simp add: entry_utxo_def bundle_assets_supply\<close>)
  moreover have "map tp_policy_id ps = map fst ts" by (simp add: ts(1) policy_of_total_def)
  then have "sorted_wrt (<) (map tp_policy_id ps)" using ts(2) by (simp only:)
  ultimately show ?thesis using ts es(2) policies_supply_totals [OF ts(2), of p] by (simp add: entry_utxo_def)
qed

section \<open>Reading what was encoded\<close>

definition ingest_laws :: "ingest_cbor \<Rightarrow> bool" where
  "ingest_laws M \<longleftrightarrow> cbor_laws (cbor_lib.truncate M)
     \<and> (\<forall>n r. dec_map M (enc_map M n @ r) = Inr (Some n, r))
     \<and> (\<forall>r. dec_datatype_null M (enc_null M @ r) = Inr True \<and> dec_null M (enc_null M @ r) = Inr ((), r))
     \<and> (\<forall>n r. dec_datatype_null M (enc_array M n @ r) = Inr False)"

lemma read_items [parse_rules]:
  assumes "ingest_laws M"
  shows "read_array_len M (enc_array M n @ r) = Inr (unat n, r)"
    and "read_map_len M (enc_map M n @ r) = Inr (unat n, r)"
    and "read_u64 M (enc_u64 M n @ r) = Inr (n, r)"
    and "read_u8 M (enc_u8 M k @ r) = Inr (k, r)"
    and "length b < 2 ^ 64 \<Longrightarrow> read_var_bytes M (enc_bytes M b @ r) = Inr (b, r)"
    and "length b = 28 \<Longrightarrow> read_28_bytes M (enc_bytes M b @ r) = Inr (b, r)"
    and "length b = 32 \<Longrightarrow> read_32_bytes M (enc_bytes M b @ r) = Inr (b, r)"
    and "read_u128_bytes M (enc_bytes M (to_be_bytes v) @ r) = Inr (v, r)"
    and "read_null_marker M (enc_null M @ r) = Inr (True, r)"
    and "read_null_marker M (enc_array M n @ r) = Inr (False, enc_array M n @ r)"
    and "read_account_pot M fld (enc_u64 M n @ r) = Inr (n, r)"
  using assms
  by (simp_all add: ingest_laws_def cbor_laws_def cbor_lib.truncate_def cbor_context_def dbind_apply dreturn_def
      read_array_len_def read_map_len_def read_u64_def read_u8_def read_var_bytes_def read_28_bytes_def read_32_bytes_def
      read_u128_bytes_def read_null_marker_def read_account_pot_def)

lemma other_apply [parse_rules]: "other p bs = map_err (\<lambda>s. IngestErr (IngestOther s)) (p bs)"
  by (simp add: other_def)

lemma reserve_apply [parse_rules]: "n * sz < 2 ^ 63 \<Longrightarrow> reserve sz n bs = Inr ((), bs)"
  by (simp add: reserve_def)

lemma run_reader_all: "p cbor = Inr (x, []) \<Longrightarrow> run_reader p cbor = Inr x"
  by (simp add: run_reader_def dbind_apply dreturn_def other_def ingest_expect_end_def)

text \<open>The CBOR library of the claims, with maps and null as RFC 8949 defines them.\<close>

definition ingest_rfc8949 :: ingest_cbor where
  "ingest_rfc8949 = cbor_lib.extend rfc8949
     \<lparr>enc_map = cbor_head 5, enc_null = [0xf6], dec_map = cbor_read_arg 5,
      dec_datatype_null = (\<lambda>bs. case bs of [] \<Rightarrow> Inl ''end of input'' | b # _ \<Rightarrow> Inr (b = 0xf6)),
      dec_null = (\<lambda>bs. case bs of [] \<Rightarrow> Inl ''end of input'' | b # r \<Rightarrow> if b = 0xf6 then Inr ((), r) else Inl ''unexpected type''),
      size_of_utxo = 184, size_of_stake_entry = 104, size_of_governance_fact = 80, ingest_hex = (\<lambda>_. [])\<rparr>"

lemma array_head_not_null: "\<exists>b t. cbor_head 4 v = b # t \<and> b \<noteq> 0xf6"
proof -
  have "(of_nat (32 * 4 + i) :: u8) \<noteq> 0xf6" if "i < 32" for i
  proof
    assume "(of_nat (32 * 4 + i) :: u8) = 0xf6"
    then have "unat (of_nat (32 * 4 + i) :: u8) = unat (0xf6 :: u8)" by (rule arg_cong)
    with unat_head_byte [of 4 i] that show False by simp
  qed
  from this [of "unat v"] this [of 24] this [of 25] this [of 26] this [of 27] show ?thesis
    unfolding cbor_head_def Let_def by (auto simp del: of_nat_add)
qed

lemma ingest_laws_rfc8949: "ingest_laws ingest_rfc8949"
proof -
  have "cbor_lib.truncate ingest_rfc8949 = rfc8949"
    by (simp add: ingest_rfc8949_def cbor_lib.defs)
  moreover have "dec_map ingest_rfc8949 (enc_map ingest_rfc8949 n @ r) = Inr (Some n, r)" for n r
    using cbor_read_cbor_head [of 5 n r] by (simp add: ingest_rfc8949_def cbor_lib.defs cbor_read_arg_def)
  moreover have "dec_datatype_null ingest_rfc8949 (enc_array ingest_rfc8949 n @ r) = Inr False" for n r
    using array_head_not_null [of n] by (auto simp: ingest_rfc8949_def cbor_lib.defs rfc8949_def)
  ultimately show ?thesis
    by (simp add: ingest_laws_def cbor_laws_rfc8949) (simp add: ingest_rfc8949_def cbor_lib.defs)
qed

section \<open>Stake and governance snapshots\<close>

text \<open>The wire formats that \<open>stake.rs\<close> and \<open>governance.rs\<close> document.\<close>

fun encode_drep :: "ingest_cbor \<Rightarrow> drep_delegation \<Rightarrow> bytes" where
  "encode_drep M (DrepKeyHash h) = enc_array M 2 @ enc_u8 M 0x01 @ enc_bytes M h"
| "encode_drep M (DrepScriptHash h) = enc_array M 2 @ enc_u8 M 0x02 @ enc_bytes M h"
| "encode_drep M d = enc_array M 1 @ enc_u8 M (drep_tag_byte d)"

definition encode_stake_item :: "ingest_cbor \<Rightarrow> stake_entry \<Rightarrow> bytes" where
  "encode_stake_item M e =
     enc_array M 5 @ enc_bytes M (st_stake_credential_hash e) @ enc_bytes M (st_delegated_pool e)
       @ encode_drep M (st_delegated_drep e) @ enc_u64 M (st_rewards_lovelace e) @ enc_u8 M (st_is_pool_operator e)"

fun encode_fact :: "ingest_cbor \<Rightarrow> governance_fact \<Rightarrow> bytes" where
  "encode_fact M (Treasury k v s) = enc_array M 4 @ enc_u8 M kind_TREASURY @ enc_bytes M k @ enc_bytes M (to_be_bytes v) @ enc_u64 M s"
| "encode_fact M (CcSeat k v s) = enc_array M 4 @ enc_u8 M kind_CC_SEAT @ enc_bytes M k @ enc_bytes M (to_be_bytes v) @ enc_u64 M s"
| "encode_fact M (RatifiedAction k v s) =
     enc_array M 4 @ enc_u8 M kind_RATIFIED_ACTION @ enc_bytes M k @ enc_bytes M (to_be_bytes v) @ enc_u64 M s"
| "encode_fact M (InFlightAction k v s) =
     enc_array M 4 @ enc_u8 M kind_IN_FLIGHT_ACTION @ enc_bytes M k @ enc_bytes M (to_be_bytes v) @ enc_u64 M s"
| "encode_fact M (AccountState a b c d) =
     enc_array M 5 @ enc_u8 M kind_ACCOUNT_STATE @ enc_u64 M a @ enc_u64 M b @ enc_u64 M c @ enc_u64 M d"

definition encode_items :: "ingest_cbor \<Rightarrow> (ingest_cbor \<Rightarrow> 'a \<Rightarrow> bytes) \<Rightarrow> 'a list \<Rightarrow> bytes" where
  "encode_items M enc xs = enc_array M (as_u64 (length xs)) @ concat (map (enc M) xs)"

lemma read_encoded_drep: "ingest_laws M \<Longrightarrow> drep_wf d \<Longrightarrow> read_drep M (encode_drep M d @ r) = Inr (d, r)"
  by (cases d) (simp_all add: read_drep_def drep_arity_def parse_rules)

lemma read_encoded_stake: "ingest_laws M \<Longrightarrow> stake_entry_wf e \<Longrightarrow> stake_step M (encode_stake_item M e @ r) = Inr (e, r)"
  by (simp add: stake_step_def encode_stake_item_def stake_entry_wf_def parse_rules read_encoded_drep)

definition duplicate_account :: "ingest_fail" where
  "duplicate_account = IngestErr (IngestSchema ''governance.account_state''
     ''duplicate AccountState entry: snapshot must carry exactly one'')"

lemma read_encoded_fact:
  assumes "ingest_laws M" "governance_fact_wf f"
  shows "governance_step M saw (encode_fact M f @ r) =
    (if saw \<and> is_account_state f then Inl duplicate_account else Inr (f, r))"
  using assms
  by (cases f) (simp_all add: governance_step_def keyed_step_def account_step_def keyed_fact_def kind_defs parse_rules
      schema_def duplicate_account_def)

lemma read_encoded_facts:
  assumes "ingest_laws M"
  shows "list_all governance_fact_wf fs \<Longrightarrow>
    governance_loop M (length fs) saw (concat (map (encode_fact M) fs) @ r) =
      (if length (filter is_account_state fs) + (if saw then 1 else 0) \<le> 1 then Inr (fs, r) else Inl duplicate_account)"
  using assms by (induction fs arbitrary: saw) (auto simp: dbind_apply dreturn_def read_encoded_fact)

text \<open>
  C40. The stake and governance readers invert the documented wire formats: a snapshot of well-formed
  stake entries reads back as those entries, and a governance snapshot reads back as its facts
  when it has at most one account state and is refused with the duplicate error otherwise. In
  particular a snapshot with no account state at all is accepted.
\<close>

theorem ingest_inverts_wire_format:
  assumes "ingest_laws M" "list_all stake_entry_wf es" "list_all governance_fact_wf fs"
    and "length es < 2 ^ 64" "length es * size_of_stake_entry M < 2 ^ 63"
    and "length fs < 2 ^ 64" "length fs * size_of_governance_fact M < 2 ^ 63"
  shows "ingest_stake M (encode_items M encode_stake_item es) = Inr es
    \<and> ingest_governance M (encode_items M encode_fact fs) =
        (if length (filter is_account_state fs) \<le> 1 then Inr fs else Inl duplicate_account)"
proof
  have "decode_many (length es) (stake_step M) (concat (map (encode_stake_item M) es) @ []) = Inr (es, [])"
    using assms(1,2) by (intro parse_many) (simp add: read_encoded_stake list_all_iff)
  then show "ingest_stake M (encode_items M encode_stake_item es) = Inr es"
    using assms(1,4,5) by (simp add: ingest_stake_def encode_items_def run_reader_all parse_rules unat_as_u64)
  have "governance_loop M (length fs) False (concat (map (encode_fact M) fs)) =
      (if length (filter is_account_state fs) \<le> 1 then Inr (fs, []) else Inl duplicate_account)"
    using read_encoded_facts [OF assms(1,3), of False "[]"] by simp
  then show "ingest_governance M (encode_items M encode_fact fs) =
        (if length (filter is_account_state fs) \<le> 1 then Inr fs else Inl duplicate_account)"
    using assms(1,6,7)
    by (simp add: ingest_governance_def encode_items_def parse_rules unat_as_u64 run_reader_def ingest_expect_end_def)
qed

theorem ingest_inverts_wire_format_witness:
  "ingest_stake ingest_rfc8949 (encode_items ingest_rfc8949 encode_stake_item
      [\<lparr>st_stake_credential_hash = replicate 28 1, st_delegated_pool = replicate 28 2, st_delegated_drep = DrepKeyHash (replicate 28 3),
        st_rewards_lovelace = 4, st_is_pool_operator = 1\<rparr>])
    = Inr [\<lparr>st_stake_credential_hash = replicate 28 1, st_delegated_pool = replicate 28 2, st_delegated_drep = DrepKeyHash (replicate 28 3),
        st_rewards_lovelace = 4, st_is_pool_operator = 1\<rparr>]
   \<and> ingest_governance ingest_rfc8949 (encode_items ingest_rfc8949 encode_fact [Treasury (replicate 32 0) 1 2])
      = Inr [Treasury (replicate 32 0) 1 2]"
  using ingest_inverts_wire_format [OF ingest_laws_rfc8949, of
      "[\<lparr>st_stake_credential_hash = replicate 28 1, st_delegated_pool = replicate 28 2, st_delegated_drep = DrepKeyHash (replicate 28 3),
        st_rewards_lovelace = 4, st_is_pool_operator = 1\<rparr>]" "[Treasury (replicate 32 0) 1 2]"]
  by (simp add: stake_entry_wf_def ingest_rfc8949_def cbor_lib.defs)

section \<open>An example snapshot\<close>

text \<open>One UTXO with two assets of one policy.\<close>

definition example_items :: "bytes \<Rightarrow> bytes" where
  "example_items rest = (let M = ingest_rfc8949 in
     enc_array M 1 @ enc_array M 6 @ enc_bytes M (replicate 32 1) @ enc_u64 M 0 @ enc_bytes M (replicate 32 2) @ enc_u64 M 5
       @ enc_map M 1 @ enc_bytes M (replicate 28 3) @ enc_map M 2 @ enc_bytes M [1] @ enc_u64 M 7 @ enc_bytes M [2] @ enc_u64 M 9
       @ enc_null M @ rest)"

definition example_snapshot_utxo :: utxo where
  "example_snapshot_utxo = \<lparr>utxo_tx_id = replicate 32 1, utxo_output_index = 0, utxo_address = replicate 32 2, utxo_value_lovelace = 5,
     utxo_assets = [\<lparr>asset_id = replicate 28 3 @ [1], quantity = 7\<rparr>, \<lparr>asset_id = replicate 28 3 @ [2], quantity = 9\<rparr>],
     utxo_datum_option = DatumNone, utxo_script_ref = None\<rparr>"

lemma try_u32_0: "try_u32 0 = Some 0"
  by (simp add: try_u32_def)

lemma ingest_rfc8949_sizes:
  "size_of_utxo ingest_rfc8949 = 184" "size_of_stake_entry ingest_rfc8949 = 104" "size_of_governance_fact ingest_rfc8949 = 80"
  by (simp_all add: ingest_rfc8949_def cbor_lib.defs)

lemma loops_2:
  "assets_loop M p l 2 = assets_loop M p l (Suc (Suc 0))" "supply_loop M 2 t = supply_loop M (Suc (Suc 0)) t"
  by (simp_all only: numeral_2_eq_2)

lemmas example_reads = example_items_def Let_def parse_rules ingest_laws_rfc8949 ingest_rfc8949_sizes try_u32_0 loops_2

lemma example_snapshot_utxos: "ingest_utxos ingest_rfc8949 (example_items []) = Inr [example_snapshot_utxo]"
proof -
  have "dbind (other (read_array_len ingest_rfc8949)) (\<lambda>n.
       dbind (reserve (size_of_utxo ingest_rfc8949) n) (\<lambda>_. decode_many n (utxo_step ingest_rfc8949))) (example_items rest)
    = Inr ([example_snapshot_utxo], rest)" for rest
    by (simp add: utxo_step_def parse_multi_assets_def skip_script_credential_def example_snapshot_utxo_def example_reads)
  then show ?thesis unfolding ingest_utxos_def by (intro run_reader_all)
qed

lemma example_snapshot_policies:
  "ingest_token_policies ingest_rfc8949 (example_items [])
     = Inr [\<lparr>tp_policy_id = replicate 28 3, tp_first_issuance_slot = 0, tp_total_supply_at_h = 16\<rparr>]"
proof -
  have "dbind (other (read_array_len ingest_rfc8949)) (\<lambda>n. policy_loop ingest_rfc8949 n []) (example_items rest)
    = Inr ([(replicate 28 3, 16)], rest)" for rest
    by (simp add: policy_step_def skip_prefix_def supply_add_def checked_add_u128_def example_reads)
  then have "run_reader (dbind (other (read_array_len ingest_rfc8949)) (\<lambda>n. policy_loop ingest_rfc8949 n [])) (example_items [])
    = Inr [(replicate 28 3, 16)]" by (intro run_reader_all)
  then show ?thesis by (simp add: ingest_token_policies_def policy_of_total_def)
qed

theorem ingested_utxos_canonical_witness:
  "\<exists>us. ingest_utxos ingest_rfc8949 (example_items []) = Inr us \<and> example_snapshot_utxo \<in> set us
     \<and> utxo_canon example_snapshot_utxo = example_snapshot_utxo"
  using ingested_utxos_canonical [OF example_snapshot_utxos] example_snapshot_utxos by simp

theorem ingest_supply_conserved_witness:
  "\<exists>us ps. ingest_utxos ingest_rfc8949 (example_items []) = Inr us \<and> ingest_token_policies ingest_rfc8949 (example_items []) = Inr ps
     \<and> policies_supply ps (replicate 28 3) = 16 \<and> utxos_supply us (replicate 28 3) = 16"
proof -
  have "policies_supply [\<lparr>tp_policy_id = replicate 28 3, tp_first_issuance_slot = 0, tp_total_supply_at_h = 16\<rparr>] (replicate 28 3) = 16"
    by (simp add: policies_supply_def)
  with ingest_supply_conserved [OF example_snapshot_utxos example_snapshot_policies, of "replicate 28 3"]
    example_snapshot_utxos example_snapshot_policies show ?thesis by simp
qed

end
