(* ===== verification/Baby_Bear.thy ===== *)
theory Baby_Bear
  imports Claim_Verifier
begin

text \<open>
  The field \<open>Val = BabyBear\<close> of \<open>omega-claim-prover/src/lib.rs\<close>: residues modulo
  \<open>2013265921 = 15 * 2 ^ 27 + 1\<close>. The type is an instance of \<open>idom\<close>, so that a product of
  trace cells is zero only when a factor is; this rests on a primality proof by Proth's
  criterion.
\<close>

section \<open>The modulus is prime\<close>

abbreviation BB :: int where
  "BB \<equiv> 2013265921"

text \<open>Repeated squaring modulo \<open>m\<close>.\<close>

fun squares :: "nat \<Rightarrow> int \<Rightarrow> int \<Rightarrow> int" where
  "squares 0 m x = x"
| "squares (Suc n) m x = squares n m (x * x mod m)"

lemma squares_power: "x ^ 2 ^ n mod m = squares n m x mod m"
proof (induction n arbitrary: x)
  case (Suc n)
  have "x ^ 2 ^ Suc n mod m = (x * x) ^ 2 ^ n mod m"
    by (simp add: power_mult power2_eq_square)
  also have "\<dots> = (x * x mod m) ^ 2 ^ n mod m"
    by (simp add: power_mod)
  finally show ?case by (simp add: Suc.IH)
qed simp

lemma half_order: "\<exists>b :: int. b ^ 2 ^ 26 mod BB = (- 1) mod BB"
  unfolding squares_power by (rule exI [of _ 440564289]) code_simp

lemma odd_part: "0 < (d :: nat) \<Longrightarrow> \<exists>k r. d = 2 ^ k * r \<and> odd r"
proof (induction d rule: less_induct)
  case (less d)
  show ?case
  proof (cases "odd d")
    case True
    then show ?thesis by (intro exI [of _ 0] exI [of _ d]) simp
  next
    case False
    then obtain e where "d = 2 * e" by blast
    with less.prems less.IH [of e] obtain k r where "e = 2 ^ k * r" "odd r" by auto
    with \<open>d = 2 * e\<close> show ?thesis by (intro exI [of _ "Suc k"] exI [of _ r]) simp
  qed
qed

text \<open>
  A number whose \<open>2 ^ 26\<close>-th power is \<open>-1\<close> modulo an odd \<open>q\<close> has \<open>2 ^ 27\<close> different powers
  there.
\<close>

lemma power_one_exponent:
  assumes "(b :: int) ^ 2 ^ n mod q = (- 1) mod q" "b ^ d mod q = 1 mod q" "0 < d" "d < 2 ^ Suc n"
  shows "q dvd 2"
proof -
  obtain k r where d: "d = 2 ^ k * r" "odd r" using odd_part [OF assms(3)] by blast
  then have "2 ^ k \<le> d" by (cases r) auto
  with assms(4) have "(2 :: nat) ^ k < 2 ^ Suc n" by linarith
  then have k: "k \<le> n" by (metis less_Suc_eq_le nat_power_less_imp_less zero_less_numeral)
  have "1 mod q = (b ^ d) ^ 2 ^ (n - k) mod q"
    using assms(2) by (metis power_mod power_one)
  also have "(b ^ d) ^ 2 ^ (n - k) = (b ^ 2 ^ n) ^ r"
  proof -
    obtain m where "n = k + m" using k le_Suc_ex by blast
    then have "d * 2 ^ (n - k) = 2 ^ n * r" by (simp add: d(1) power_add)
    then show ?thesis by (simp add: power_mult [symmetric])
  qed
  also have "(b ^ 2 ^ n) ^ r mod q = (- 1) ^ r mod q"
    using assms(1) by (metis power_mod)
  finally have "1 mod q = - 1 mod q" using d(2) by simp
  then show ?thesis by (simp add: mod_eq_dvd_iff)
qed

lemma powers_distinct:
  assumes b: "(b :: int) ^ 2 ^ n mod q = (- 1) mod q" and q: "\<not> q dvd 2"
  shows "inj_on (\<lambda>i. b ^ i mod q) {..<2 ^ Suc n}"
proof (rule linorder_inj_onI)
  fix i j :: nat assume "i < j" "i \<in> {..<2 ^ Suc n}" "j \<in> {..<2 ^ Suc n}"
  then have ij: "i \<le> 2 ^ Suc n" "0 < j - i" "j - i < 2 ^ Suc n" "j = i + (j - i)" by auto
  show "b ^ i mod q \<noteq> b ^ j mod q"
  proof
    assume eq: "b ^ i mod q = b ^ j mod q"
    have "b ^ 2 ^ Suc n mod q = b ^ 2 ^ n * b ^ 2 ^ n mod q"
      by (simp add: power_add [symmetric] mult_2)
    also have "\<dots> = (- 1) * (- 1) mod q" by (rule mod_mult_cong) (rule b)+
    finally have one: "b ^ 2 ^ Suc n mod q = 1 mod q" by simp
    have "b ^ 2 ^ Suc n * b ^ (j - i) = b ^ (2 ^ Suc n - i) * b ^ j"
      using ij(1,4) by (simp only: power_add [symmetric]) simp
    moreover have "b ^ (2 ^ Suc n - i) * b ^ i = b ^ 2 ^ Suc n"
      using ij(1) by (simp only: power_add [symmetric]) simp
    ultimately have "b ^ 2 ^ Suc n * b ^ (j - i) mod q = b ^ 2 ^ Suc n mod q"
      using eq by (metis mod_mult_right_eq)
    then have "b ^ (j - i) mod q = 1 mod q"
      using one by (metis mod_mult_left_eq mult_1)
    from power_one_exponent [OF b this ij(2,3)] q show False by simp
  qed
qed auto

lemma modulus_divisor:
  assumes "q dvd BB" "1 < q"
  shows "2 ^ 27 \<le> q"
proof -
  have "odd q" using dvd_trans [OF _ assms(1), of 2] by auto
  have q2: "\<not> q dvd 2"
  proof
    assume "q dvd 2"
    then have "q \<le> 2" by (rule zdvd_imp_le) simp
    with assms(2) \<open>odd q\<close> show False by (cases "q = 2") auto
  qed
  obtain b :: int where "b ^ 2 ^ 26 mod BB = (- 1) mod BB" using half_order ..
  then have "BB dvd b ^ 2 ^ 26 - (- 1)" by (simp only: mod_eq_dvd_iff)
  with assms(1) have "q dvd b ^ 2 ^ 26 - (- 1)" by (rule dvd_trans)
  then have "b ^ 2 ^ 26 mod q = (- 1) mod q" by (simp only: mod_eq_dvd_iff)
  from powers_distinct [OF this q2] have "inj_on (\<lambda>i. b ^ i mod q) {..<2 ^ 27}"
    by simp
  moreover have "(\<lambda>i. b ^ i mod q) ` {..<2 ^ 27} \<subseteq> {0..<q}" using assms(2) by auto
  ultimately have "card {..<2 ^ 27 :: nat} \<le> card {0..<q}" by (rule card_inj_on_le) simp
  then show ?thesis using assms(2) by simp
qed

lemma modulus_prime:
  assumes "BB dvd a * b"
  shows "BB dvd a \<or> BB dvd b"
proof -
  let ?g = "gcd a BB"
  obtain r where r: "BB = ?g * r" by (metis dvdE gcd_dvd2)
  have pos: "0 < ?g" by simp
  with r have "0 < r" by (metis zero_less_mult_pos zero_less_numeral)
  consider "?g = 1" | "r = 1" | "1 < ?g" "1 < r" using pos \<open>0 < r\<close> by linarith
  then show ?thesis
  proof cases
    case 1
    then have "coprime a BB" by (simp add: coprime_iff_gcd_eq_1)
    with assms show ?thesis by (simp add: coprime_commute coprime_dvd_mult_right_iff)
  next
    case 2
    with r show ?thesis by (metis gcd_dvd1 mult.right_neutral)
  next
    case 3
    have "r dvd BB" using r by (metis dvd_triv_right)
    from modulus_divisor [OF this 3(2)] modulus_divisor [OF _ 3(1)]
    have "(2 ^ 27 :: int) * 2 ^ 27 \<le> ?g * r" by (intro mult_mono) auto
    with r show ?thesis by simp
  qed
qed

section \<open>The field\<close>

typedef val = "{0..<BB}"
  by (rule exI [of _ 0]) simp

setup_lifting type_definition_val

instantiation val :: comm_ring_1
begin

lift_definition zero_val :: val is 0 by simp
lift_definition one_val :: val is 1 by simp
lift_definition plus_val :: "val \<Rightarrow> val \<Rightarrow> val" is "\<lambda>x y. (x + y) mod BB" by simp
lift_definition uminus_val :: "val \<Rightarrow> val" is "\<lambda>x. (- x) mod BB" by simp
lift_definition minus_val :: "val \<Rightarrow> val \<Rightarrow> val" is "\<lambda>x y. (x - y) mod BB" by simp
lift_definition times_val :: "val \<Rightarrow> val \<Rightarrow> val" is "\<lambda>x y. (x * y) mod BB" by simp

instance
  by standard (transfer; simp add: mod_simps algebra_simps)+

end

instance val :: idom
proof
  fix a b :: val
  assume "a \<noteq> 0" "b \<noteq> 0"
  then show "a * b \<noteq> 0"
  proof transfer
    fix a b :: int
    assume *: "a \<in> {0..<BB}" "a \<noteq> 0" "b \<in> {0..<BB}" "b \<noteq> 0"
    then have "\<not> BB dvd a" "\<not> BB dvd b" using zdvd_imp_le [of BB] by force+
    then have "\<not> BB dvd a * b" using modulus_prime by blast
    then show "a * b mod BB \<noteq> 0" by (simp add: dvd_eq_mod_eq_0)
  qed
qed

lemma Rep_of_nat: "Rep_val (of_nat n) = int n mod BB"
proof (induction n)
  case 0
  show ?case by (simp add: zero_val.rep_eq)
next
  case (Suc n)
  have "Rep_val (of_nat (Suc n)) = (1 + int n mod BB) mod BB"
    by (simp add: plus_val.rep_eq one_val.rep_eq Suc.IH)
  then show ?case by (simp add: mod_simps)
qed

lemma of_nat_val_eq: "(of_nat m :: val) = of_nat n \<longleftrightarrow> m mod BABY_BEAR_PRIME = n mod BABY_BEAR_PRIME"
proof -
  have "int (k mod BABY_BEAR_PRIME) = Rep_val (of_nat k)" for k
    by (simp add: Rep_of_nat BABY_BEAR_PRIME_def zmod_int)
  then show ?thesis by (metis Rep_val_inject of_nat_eq_iff)
qed

lemma of_nat_val_inject:
  "m < BABY_BEAR_PRIME \<Longrightarrow> n < BABY_BEAR_PRIME \<Longrightarrow> (of_nat m :: val) = of_nat n \<longleftrightarrow> m = n"
  by (simp add: of_nat_val_eq)

text \<open>\<open>Val::from_u8\<close>, \<open>Val::from_bool\<close> and the values of public inputs.\<close>

definition from_u8 :: "u8 \<Rightarrow> val" where
  "from_u8 b = of_nat (unat b)"

definition from_bool :: "bool \<Rightarrow> val" where
  "from_bool b = of_bool b"

lemma from_u8_inject [simp]: "from_u8 a = from_u8 b \<longleftrightarrow> a = b"
proof -
  have "unat x < BABY_BEAR_PRIME" for x :: u8
    using unsigned_less [of x, where ?'a = nat] by (simp add: BABY_BEAR_PRIME_def)
  then show ?thesis unfolding from_u8_def by (simp only: of_nat_val_inject unsigned_word_eqI word_unat_eq_iff)
qed

lemma map_from_u8_inject [simp]: "map from_u8 xs = map from_u8 ys \<longleftrightarrow> xs = ys"
  by (rule inj_map_eq_map) (simp add: inj_on_def)

lemma of_nat_val_from_u32: "(of_nat (val_from_u32 w) :: val) = of_nat (unat w)"
  unfolding of_nat_val_eq val_from_u32_def by (rule mod_mod_trivial)

lemma of_nat_val_from_byte: "(of_nat (val_from_u32 (ucast (b :: u8))) :: val) = from_u8 b"
  unfolding of_nat_val_from_u32 from_u8_def unat_ucast_u8 ..

end
