(* ===== verification/Blake3_Trace.thy ===== *)
theory Blake3_Trace
  imports Baby_Bear
begin

text \<open>
  The BLAKE3 compressions of \<open>omega-claim-prover/src/blake3_trace.rs\<close>: the compression function
  on machine words, the compressions behind a leaf and a node hash, and the rows of the table
  that the proof looks them up in. A row is a function from column numbers to field elements;
  the bit decomposition \<open>u32_to_bits_le\<close> of the proof library is the parameter \<open>bits_le\<close>.
  The lemmas show that the half rounds that fill a row compute the compression function, and
  that a row holds the inputs and the output of its compression.
\<close>

unbundle bit_operations_syntax

section \<open>Constants\<close>

definition CHUNK_START :: u32 where "CHUNK_START = 1"
definition CHUNK_END :: u32 where "CHUNK_END = 2"
definition ROOT :: u32 where "ROOT = 8"
definition LEAF_FLAGS :: u32 where "LEAF_FLAGS = CHUNK_START OR CHUNK_END OR ROOT"
definition NODE_FIRST_FLAGS :: u32 where "NODE_FIRST_FLAGS = CHUNK_START"
definition NODE_SECOND_FLAGS :: u32 where "NODE_SECOND_FLAGS = CHUNK_END OR ROOT"
definition DUMMY_FLAGS :: u32 where "DUMMY_FLAGS = 0"

definition IV :: "u32 list" where
  "IV = [0x6A09E667, 0xBB67AE85, 0x3C6EF372, 0xA54FF53A, 0x510E527F, 0x9B05688C, 0x1F83D9AB, 0x5BE0CD19]"

definition MSG_PERMUTATION :: "nat list" where
  "MSG_PERMUTATION = [2, 6, 3, 10, 7, 0, 4, 13, 1, 11, 12, 5, 9, 14, 15, 8]"

definition BITS_PER_WORD :: nat where "BITS_PER_WORD = 32"
definition BYTES_PER_WORD :: nat where "BYTES_PER_WORD = 4"
definition BLOCK_BYTES :: nat where "BLOCK_BYTES = 64"
definition CV_BYTES :: nat where "CV_BYTES = 32"
definition COUNTER_BYTES :: nat where "COUNTER_BYTES = 8"
definition U32_BYTES :: nat where "U32_BYTES = 4"

definition COMPRESSION_LOOKUP_WIDTH :: nat where
  "COMPRESSION_LOOKUP_WIDTH = BLOCK_BYTES + CV_BYTES + COUNTER_BYTES + U32_BYTES + U32_BYTES + CV_BYTES"

definition B3_INPUTS_OFFSET :: nat where "B3_INPUTS_OFFSET = 0"
definition B3_CHAINING_VALUES_OFFSET :: nat where "B3_CHAINING_VALUES_OFFSET = B3_INPUTS_OFFSET + 16 * BITS_PER_WORD"
definition B3_COUNTER_LOW_OFFSET :: nat where "B3_COUNTER_LOW_OFFSET = B3_CHAINING_VALUES_OFFSET + 8 * BITS_PER_WORD"
definition B3_COUNTER_HI_OFFSET :: nat where "B3_COUNTER_HI_OFFSET = B3_COUNTER_LOW_OFFSET + BITS_PER_WORD"
definition B3_BLOCK_LEN_OFFSET :: nat where "B3_BLOCK_LEN_OFFSET = B3_COUNTER_HI_OFFSET + BITS_PER_WORD"
definition B3_FLAGS_OFFSET :: nat where "B3_FLAGS_OFFSET = B3_BLOCK_LEN_OFFSET + BITS_PER_WORD"
definition B3_INITIAL_ROW0_OFFSET :: nat where "B3_INITIAL_ROW0_OFFSET = B3_FLAGS_OFFSET + BITS_PER_WORD"
definition B3_INITIAL_ROW2_OFFSET :: nat where "B3_INITIAL_ROW2_OFFSET = B3_INITIAL_ROW0_OFFSET + 8"
definition B3_FULL_ROUNDS_OFFSET :: nat where "B3_FULL_ROUNDS_OFFSET = B3_INITIAL_ROW2_OFFSET + 8"
definition B3_STATE_WIDTH :: nat where "B3_STATE_WIDTH = 8 + 128 + 8 + 128"
definition B3_FULL_ROUND_WIDTH :: nat where "B3_FULL_ROUND_WIDTH = B3_STATE_WIDTH * 4"
definition B3_FINAL_HELPERS_OFFSET :: nat where "B3_FINAL_HELPERS_OFFSET = B3_FULL_ROUNDS_OFFSET + B3_FULL_ROUND_WIDTH * 7"
definition B3_OUTPUTS_OFFSET :: nat where "B3_OUTPUTS_OFFSET = B3_FINAL_HELPERS_OFFSET + 4 * BITS_PER_WORD"
definition NUM_BLAKE3_COLS :: nat where "NUM_BLAKE3_COLS = B3_OUTPUTS_OFFSET + 16 * BITS_PER_WORD"

lemmas b3_width_defs = BITS_PER_WORD_def BYTES_PER_WORD_def BLOCK_BYTES_def CV_BYTES_def COUNTER_BYTES_def U32_BYTES_def

lemmas b3_offset_defs = B3_INPUTS_OFFSET_def B3_CHAINING_VALUES_OFFSET_def B3_COUNTER_LOW_OFFSET_def
  B3_COUNTER_HI_OFFSET_def B3_BLOCK_LEN_OFFSET_def B3_FLAGS_OFFSET_def B3_INITIAL_ROW0_OFFSET_def
  B3_INITIAL_ROW2_OFFSET_def B3_FULL_ROUNDS_OFFSET_def B3_STATE_WIDTH_def B3_FULL_ROUND_WIDTH_def
  B3_FINAL_HELPERS_OFFSET_def B3_OUTPUTS_OFFSET_def NUM_BLAKE3_COLS_def BITS_PER_WORD_def

section \<open>The compression function\<close>

definition g :: "u32 list \<Rightarrow> nat \<Rightarrow> nat \<Rightarrow> nat \<Rightarrow> nat \<Rightarrow> u32 \<Rightarrow> u32 \<Rightarrow> u32 list" where
  "g state a b c d mx my =
     (let state = state[a := state ! a + state ! b + mx];
          state = state[d := word_rotr 16 (state ! d XOR state ! a)];
          state = state[c := state ! c + state ! d];
          state = state[b := word_rotr 12 (state ! b XOR state ! c)];
          state = state[a := state ! a + state ! b + my];
          state = state[d := word_rotr 8 (state ! d XOR state ! a)];
          state = state[c := state ! c + state ! d]
      in state[b := word_rotr 7 (state ! b XOR state ! c)])"

definition round :: "u32 list \<Rightarrow> u32 list \<Rightarrow> u32 list" where
  "round state m =
     (let state = g state 0 4 8 12 (m ! 0) (m ! 1);
          state = g state 1 5 9 13 (m ! 2) (m ! 3);
          state = g state 2 6 10 14 (m ! 4) (m ! 5);
          state = g state 3 7 11 15 (m ! 6) (m ! 7);
          state = g state 0 5 10 15 (m ! 8) (m ! 9);
          state = g state 1 6 11 12 (m ! 10) (m ! 11);
          state = g state 2 7 8 13 (m ! 12) (m ! 13)
      in g state 3 4 9 14 (m ! 14) (m ! 15))"

definition permute :: "'a list \<Rightarrow> 'a list" where
  "permute m = map (\<lambda>i. m ! (MSG_PERMUTATION ! i)) [0..<16]"

text \<open>The loop over the rounds: the state after \<open>n\<close> rounds, the message permuted after each.\<close>

fun rounds :: "nat \<Rightarrow> u32 list \<Rightarrow> u32 list \<Rightarrow> u32 list" where
  "rounds 0 state m_vec = state"
| "rounds (Suc n) state m_vec = rounds n (round state m_vec) (permute m_vec)"

definition feed_forward :: "u32 list \<Rightarrow> u32 list \<Rightarrow> u32 list" where
  "feed_forward cv_words state =
     fold (\<lambda>i state. let state = state[i := state ! i XOR state ! (i + 8)]
                      in state[i + 8 := state ! (i + 8) XOR cv_words ! i]) [0..<8] state"

definition compress :: "u32 list \<Rightarrow> u32 list \<Rightarrow> u64 \<Rightarrow> u32 \<Rightarrow> u32 \<Rightarrow> u32 list" where
  "compress block_words cv_words counter block_len flags =
     (let state = [cv_words ! 0, cv_words ! 1, cv_words ! 2, cv_words ! 3,
                   cv_words ! 4, cv_words ! 5, cv_words ! 6, cv_words ! 7,
                   IV ! 0, IV ! 1, IV ! 2, IV ! 3,
                   ucast counter, ucast (drop_bit 32 counter), block_len, flags]
      in feed_forward cv_words (rounds 7 state block_words))"

record compression =
  co_block_words :: "u32 list"
  co_cv_words :: "u32 list"
  co_counter :: u64
  co_block_len :: u32
  co_flags :: u32
  co_output_words :: "u32 list"

definition compression_of :: "u32 list \<Rightarrow> u32 list \<Rightarrow> u64 \<Rightarrow> u32 \<Rightarrow> u32 \<Rightarrow> compression" where
  "compression_of block_words cv_words counter block_len flags =
     \<lparr>co_block_words = block_words, co_cv_words = cv_words, co_counter = counter, co_block_len = block_len,
      co_flags = flags, co_output_words = take 8 (compress block_words cv_words counter block_len flags)\<rparr>"

definition block_words :: "bytes \<Rightarrow> u32 list" where
  "block_words block = map (\<lambda>i. let offset = i * BYTES_PER_WORD in
     from_le_bytes [block ! offset, block ! (offset + 1), block ! (offset + 2), block ! (offset + 3)]) [0..<16]"

text \<open>\<open>block[offset..offset + bytes.len()].copy_from_slice(bytes)\<close>.\<close>

definition copy_at :: "nat \<Rightarrow> bytes \<Rightarrow> bytes \<Rightarrow> bytes" where
  "copy_at offset bytes block = take offset block @ bytes @ drop (offset + length bytes) block"

definition leaf_compression :: "u8 \<Rightarrow> u64 \<Rightarrow> bytes \<Rightarrow> compression" where
  "leaf_compression sub_tree_id leaf_index payload =
     (let block = replicate BLOCK_BYTES 0;
          block = copy_at 0 DOMAIN_LEAF block;
          offset = length DOMAIN_LEAF;
          block = block[offset := sub_tree_id];
          offset = offset + 1;
          block = copy_at offset (to_be_bytes leaf_index) block;
          offset = offset + 8;
          block = copy_at offset (to_be_bytes (as_u64 (length payload))) block;
          offset = offset + 8;
          block = copy_at offset payload block;
          block_len = of_nat (length DOMAIN_LEAF + 1 + 8 + 8 + length payload)
      in compression_of (block_words block) IV 0 block_len LEAF_FLAGS)"

definition node_compressions :: "hash \<Rightarrow> hash \<Rightarrow> compression \<times> compression" where
  "node_compressions left right =
     (let preimage = replicate (length DOMAIN_NODE + 64) 0;
          preimage = copy_at 0 DOMAIN_NODE preimage;
          offset = length DOMAIN_NODE;
          preimage = copy_at offset left preimage;
          offset = offset + 32;
          preimage = copy_at offset right preimage;
          first_block = take BLOCK_BYTES preimage;
          fst_compr = compression_of (block_words first_block) IV 0 (of_nat BLOCK_BYTES) NODE_FIRST_FLAGS;
          second_block = copy_at 0 (drop BLOCK_BYTES preimage) (replicate BLOCK_BYTES 0);
          snd_compr = compression_of (block_words second_block) (co_output_words fst_compr) 0
            (of_nat (length preimage - BLOCK_BYTES)) NODE_SECOND_FLAGS
      in (fst_compr, snd_compr))"

definition hash_from_words :: "u32 list \<Rightarrow> hash" where
  "hash_from_words words = concat (map to_le_bytes words)"

section \<open>The rows of the table\<close>

type_synonym row = "nat \<Rightarrow> val"

definition verifiable_half_round :: "u32 \<Rightarrow> u32 \<Rightarrow> u32 \<Rightarrow> u32 \<Rightarrow> u32 \<Rightarrow> bool \<Rightarrow> u32 \<times> u32 \<times> u32 \<times> u32" where
  "verifiable_half_round a b c d m flag =
     (let (rot_1, rot_2) = (if flag then (8, 7) else (16, 12));
          a = a + b;
          a = a + m;
          d = word_rotr rot_1 (d XOR a);
          c = c + d;
          b = word_rotr rot_2 (b XOR c)
      in (a, b, c, d))"

definition write_bits :: "(u32 \<Rightarrow> val list) \<Rightarrow> row \<Rightarrow> nat \<Rightarrow> u32 \<Rightarrow> row" where
  "write_bits bits_le row offset v =
     (\<lambda>col. if offset \<le> col \<and> col < offset + BITS_PER_WORD then bits_le v ! (col - offset) else row col)"

definition write_limbs :: "row \<Rightarrow> nat \<Rightarrow> u32 \<Rightarrow> row" where
  "write_limbs row offset v =
     row(offset := of_nat (unat (ucast v :: u16)), offset + 1 := of_nat (unat (ucast (drop_bit 16 v) :: u16)))"

definition save_state :: "(u32 \<Rightarrow> val list) \<Rightarrow> row \<Rightarrow> nat \<Rightarrow> u32 list list \<Rightarrow> row" where
  "save_state bits_le row offset state =
     fold (\<lambda>i row.
        let row = write_limbs row (offset + i * 2) (state ! 0 ! i);
            row = write_bits bits_le row (offset + 8 + i * BITS_PER_WORD) (state ! 1 ! i);
            row = write_limbs row (offset + 8 + 128 + i * 2) (state ! 2 ! i)
        in write_bits bits_le row (offset + 8 + 128 + 8 + i * BITS_PER_WORD) (state ! 3 ! i)) [0..<4] row"

text \<open>One assignment of the loops in \<open>fill_round\<close>: a half round on one cell of each row of the state.\<close>

definition half_round_at :: "nat \<Rightarrow> nat \<Rightarrow> nat \<Rightarrow> nat \<Rightarrow> u32 \<Rightarrow> bool \<Rightarrow> u32 list list \<Rightarrow> u32 list list" where
  "half_round_at i j k l m flag state =
     (let (a, b, c, d) = verifiable_half_round (state ! 0 ! i) (state ! 1 ! j) (state ! 2 ! k) (state ! 3 ! l) m flag
      in [(state ! 0)[i := a], (state ! 1)[j := b], (state ! 2)[k := c], (state ! 3)[l := d]])"

definition fill_round ::
  "(u32 \<Rightarrow> val list) \<Rightarrow> row \<Rightarrow> nat \<Rightarrow> u32 list list \<Rightarrow> u32 list \<Rightarrow> row \<times> u32 list list" where
  "fill_round bits_le row round_offset state m_vec =
     (let state = fold (\<lambda>i. half_round_at i i i i (m_vec ! (2 * i)) False) [0..<4] state;
          row = save_state bits_le row round_offset state;
          state = fold (\<lambda>i. half_round_at i i i i (m_vec ! (2 * i + 1)) True) [0..<4] state;
          row = save_state bits_le row (round_offset + B3_STATE_WIDTH) state;
          state = fold (\<lambda>i. half_round_at i ((i + 1) mod 4) ((i + 2) mod 4) ((i + 3) mod 4)
                               (m_vec ! (8 + 2 * i)) False) [0..<4] state;
          row = save_state bits_le row (round_offset + B3_STATE_WIDTH * 2) state;
          state = fold (\<lambda>i. half_round_at i ((i + 1) mod 4) ((i + 2) mod 4) ((i + 3) mod 4)
                               (m_vec ! (9 + 2 * i)) True) [0..<4] state;
          row = save_state bits_le row (round_offset + B3_STATE_WIDTH * 3) state
      in (row, state))"

text \<open>The loop over the seven rounds, from round \<open>r\<close> on.\<close>

fun fill_rounds ::
  "(u32 \<Rightarrow> val list) \<Rightarrow> nat \<Rightarrow> nat \<Rightarrow> row \<Rightarrow> u32 list list \<Rightarrow> u32 list \<Rightarrow> row \<times> u32 list list" where
  "fill_rounds bits_le r 0 row state m_vec = (row, state)"
| "fill_rounds bits_le r (Suc n) row state m_vec =
     (let (row, state) = fill_round bits_le row (B3_FULL_ROUNDS_OFFSET + r * B3_FULL_ROUND_WIDTH) state m_vec
      in fill_rounds bits_le (Suc r) n row state (permute m_vec))"

definition write_words :: "(u32 \<Rightarrow> val list) \<Rightarrow> nat \<Rightarrow> u32 list \<Rightarrow> row \<Rightarrow> row" where
  "write_words bits_le offset words row =
     fold (\<lambda>(i, word) row. write_bits bits_le row (offset + i * BITS_PER_WORD) word) (enumerate 0 words) row"

definition write_inputs :: "(u32 \<Rightarrow> val list) \<Rightarrow> compression \<Rightarrow> row \<Rightarrow> row" where
  "write_inputs bits_le c row =
     (let row = write_words bits_le B3_INPUTS_OFFSET (co_block_words c) row;
          row = write_words bits_le B3_CHAINING_VALUES_OFFSET (co_cv_words c) row;
          row = write_bits bits_le row B3_COUNTER_LOW_OFFSET (ucast (co_counter c));
          row = write_bits bits_le row B3_COUNTER_HI_OFFSET (ucast (drop_bit 32 (co_counter c)));
          row = write_bits bits_le row B3_BLOCK_LEN_OFFSET (co_block_len c)
      in write_bits bits_le row B3_FLAGS_OFFSET (co_flags c))"

definition write_initial_limbs :: "compression \<Rightarrow> row \<Rightarrow> row" where
  "write_initial_limbs c row =
     fold (\<lambda>(i, cv_word, iv_word) row.
        let row = write_limbs row (B3_INITIAL_ROW0_OFFSET + i * 2) cv_word
        in write_limbs row (B3_INITIAL_ROW2_OFFSET + i * 2) iv_word)
      (enumerate 0 (take 4 (zip (co_cv_words c) IV))) row"

definition initial_state :: "compression \<Rightarrow> u32 list list" where
  "initial_state c =
     (let cv = co_cv_words c
      in [[cv ! 0, cv ! 1, cv ! 2, cv ! 3], [cv ! 4, cv ! 5, cv ! 6, cv ! 7],
          [IV ! 0, IV ! 1, IV ! 2, IV ! 3],
          [ucast (co_counter c), ucast (drop_bit 32 (co_counter c)), co_block_len c, co_flags c]])"

definition write_outputs :: "(u32 \<Rightarrow> val list) \<Rightarrow> u32 list \<Rightarrow> u32 list list \<Rightarrow> row \<Rightarrow> row" where
  "write_outputs bits_le cv state row =
     fold (\<lambda>i row.
        let s0 = state ! 0 ! i; s1 = state ! 1 ! i; s2 = state ! 2 ! i; s3 = state ! 3 ! i;
            row = write_bits bits_le row (B3_OUTPUTS_OFFSET + i * BITS_PER_WORD) (s0 XOR s2);
            row = write_bits bits_le row (B3_OUTPUTS_OFFSET + (4 + i) * BITS_PER_WORD) (s1 XOR s3);
            row = write_bits bits_le row (B3_OUTPUTS_OFFSET + (8 + i) * BITS_PER_WORD) (s2 XOR cv ! i)
        in write_bits bits_le row (B3_OUTPUTS_OFFSET + (12 + i) * BITS_PER_WORD) (s3 XOR cv ! (4 + i)))
      [0..<4] row"

definition fill_trace_row :: "(u32 \<Rightarrow> val list) \<Rightarrow> row \<Rightarrow> compression \<Rightarrow> row" where
  "fill_trace_row bits_le row c =
     (let row = write_inputs bits_le c row;
          row = write_initial_limbs c row;
          (row, state) = fill_rounds bits_le 0 7 row (initial_state c) (co_block_words c);
          row = write_words bits_le B3_FINAL_HELPERS_OFFSET (state ! 2) row
      in write_outputs bits_le (co_cv_words c) state row)"

text \<open>The trace: a row per compression and dummy rows up to a power of two.\<close>

definition build_blake3_trace :: "(u32 \<Rightarrow> val list) \<Rightarrow> compression list \<Rightarrow> row list" where
  "build_blake3_trace bits_le compressions =
     (let real_rows = max (length compressions) 1;
          height = next_power_of_two real_rows;
          values = replicate height (\<lambda>_. 0);
          values = fold (\<lambda>(i, c) values. values[i := fill_trace_row bits_le (values ! i) c])
            (enumerate 0 compressions) values;
          dummy = compression_of (replicate 16 0) IV 0 0 DUMMY_FLAGS
      in fold (\<lambda>i values. values[i := fill_trace_row bits_le (values ! i) dummy]) [real_rows..<height] values)"

section \<open>Half rounds compute the round\<close>

lemma half_updates:
  assumes "a \<noteq> b" "a \<noteq> c" "a \<noteq> d" "b \<noteq> c" "b \<noteq> d" "c \<noteq> d" "a < length s" "b < length s" "c < length s" "d < length s"
    and "verifiable_half_round (s ! a) (s ! b) (s ! c) (s ! d) m flag = (a1, b1, c1, d1)"
    and "(rot_1, rot_2) = (if flag then (8, 7) else (16, 12))"
  shows "(let s = s[a := s ! a + s ! b + m]; s = s[d := word_rotr rot_1 (s ! d XOR s ! a)]; s = s[c := s ! c + s ! d]
      in s[b := word_rotr rot_2 (s ! b XOR s ! c)]) = s[a := a1, b := b1, c := c1, d := d1]"
proof -
  have "a1 = s ! a + s ! b + m" "d1 = word_rotr rot_1 (s ! d XOR a1)" "c1 = s ! c + d1" "b1 = word_rotr rot_2 (s ! b XOR c1)"
    using assms(11,12) by (auto simp: verifiable_half_round_def Let_def split: prod.splits)
  then have "(let s = s[a := s ! a + s ! b + m]; s = s[d := word_rotr rot_1 (s ! d XOR s ! a)]; s = s[c := s ! c + s ! d]
      in s[b := word_rotr rot_2 (s ! b XOR s ! c)]) = s[a := a1, d := d1, c := c1, b := b1]"
    using assms(1-10) by (simp add: Let_def)
  also have "\<dots> = s[a := a1, b := b1, c := c1, d := d1]"
    using assms(1-6) by (metis list_update_swap)
  finally show ?thesis .
qed

lemma g_half_rounds:
  assumes d: "a \<noteq> b" "a \<noteq> c" "a \<noteq> d" "b \<noteq> c" "b \<noteq> d" "c \<noteq> d" "a < length s" "b < length s" "c < length s" "d < length s"
    and h: "verifiable_half_round (s ! a) (s ! b) (s ! c) (s ! d) mx False = (a1, b1, c1, d1)"
    and k: "verifiable_half_round a1 b1 c1 d1 my True = (a2, b2, c2, d2)"
  shows "g s a b c d mx my = s[a := a2, b := b2, c := c2, d := d2]"
proof -
  let ?s = "s[a := a1, b := b1, c := c1, d := d1]"
  have "g s a b c d mx my = (let s = ?s; s = s[a := s ! a + s ! b + my]; s = s[d := word_rotr 8 (s ! d XOR s ! a)];
      s = s[c := s ! c + s ! d] in s[b := word_rotr 7 (s ! b XOR s ! c)])"
    using half_updates [OF d h, of 16 12] by (simp add: g_def Let_def)
  also have "\<dots> = ?s[a := a2, b := b2, c := c2, d := d2]"
    unfolding Let_def [of ?s]
    by (rule half_updates [where flag = True]) (use d k in \<open>simp_all add: nth_list_update\<close>)
  also have "\<dots> = s[a := a2, b := b2, c := c2, d := d2]"
    by (rule nth_equalityI) (use d in \<open>simp_all add: nth_list_update\<close>)
  finally show ?thesis .
qed

lemma g_as_half_rounds:
  assumes "a \<noteq> b" "a \<noteq> c" "a \<noteq> d" "b \<noteq> c" "b \<noteq> d" "c \<noteq> d" "a < length s" "b < length s" "c < length s" "d < length s"
  shows "g s a b c d mx my =
    (case verifiable_half_round (s ! a) (s ! b) (s ! c) (s ! d) mx False of (a1, b1, c1, d1) \<Rightarrow>
     case verifiable_half_round a1 b1 c1 d1 my True of (a2, b2, c2, d2) \<Rightarrow> s[a := a2, b := b2, c := c2, d := d2])"
  by (simp split: prod.split add: g_half_rounds [OF assms])

lemma upt4: "[0..<4] = [0, 1, 2, 3 :: nat]"
  by code_simp

lemma half_round_at_cells:
  "verifiable_half_round (ra ! i) (rb ! j) (rc ! k) (rd ! l) m flag = (a, b, c, d) \<Longrightarrow>
   half_round_at i j k l m flag [ra, rb, rc, rd] = [ra[i := a], rb[j := b], rc[k := c], rd[l := d]]"
  by (simp add: half_round_at_def)

lemma fill_round_computes:
  "concat (snd (fill_round B row off [[x0, x1, x2, x3], [x4, x5, x6, x7], [x8, x9, x10, x11], [x12, x13, x14, x15]] m))
     = round [x0, x1, x2, x3, x4, x5, x6, x7, x8, x9, x10, x11, x12, x13, x14, x15] m"
proof -
  let ?h = verifiable_half_round
  obtain a0 b0 c0 d0 where h0: "?h x0 x4 x8 x12 (m ! 0) False = (a0, b0, c0, d0)" by (rule prod_cases4)
  obtain a1 b1 c1 d1 where h1: "?h x1 x5 x9 x13 (m ! 2) False = (a1, b1, c1, d1)" by (rule prod_cases4)
  obtain a2 b2 c2 d2 where h2: "?h x2 x6 x10 x14 (m ! 4) False = (a2, b2, c2, d2)" by (rule prod_cases4)
  obtain a3 b3 c3 d3 where h3: "?h x3 x7 x11 x15 (m ! 6) False = (a3, b3, c3, d3)" by (rule prod_cases4)
  obtain e0 f0 g0 i0 where k0: "?h a0 b0 c0 d0 (m ! 1) True = (e0, f0, g0, i0)" by (rule prod_cases4)
  obtain e1 f1 g1 i1 where k1: "?h a1 b1 c1 d1 (m ! 3) True = (e1, f1, g1, i1)" by (rule prod_cases4)
  obtain e2 f2 g2 i2 where k2: "?h a2 b2 c2 d2 (m ! 5) True = (e2, f2, g2, i2)" by (rule prod_cases4)
  obtain e3 f3 g3 i3 where k3: "?h a3 b3 c3 d3 (m ! 7) True = (e3, f3, g3, i3)" by (rule prod_cases4)
  obtain p0 q0 r0 s0 where l0: "?h e0 f1 g2 i3 (m ! 8) False = (p0, q0, r0, s0)" by (rule prod_cases4)
  obtain p1 q1 r1 s1 where l1: "?h e1 f2 g3 i0 (m ! 10) False = (p1, q1, r1, s1)" by (rule prod_cases4)
  obtain p2 q2 r2 s2 where l2: "?h e2 f3 g0 i1 (m ! 12) False = (p2, q2, r2, s2)" by (rule prod_cases4)
  obtain p3 q3 r3 s3 where l3: "?h e3 f0 g1 i2 (m ! 14) False = (p3, q3, r3, s3)" by (rule prod_cases4)
  obtain t0 u0 v0 w0 where n0: "?h p0 q0 r0 s0 (m ! 9) True = (t0, u0, v0, w0)" by (rule prod_cases4)
  obtain t1 u1 v1 w1 where n1: "?h p1 q1 r1 s1 (m ! 11) True = (t1, u1, v1, w1)" by (rule prod_cases4)
  obtain t2 u2 v2 w2 where n2: "?h p2 q2 r2 s2 (m ! 13) True = (t2, u2, v2, w2)" by (rule prod_cases4)
  obtain t3 u3 v3 w3 where n3: "?h p3 q3 r3 s3 (m ! 15) True = (t3, u3, v3, w3)" by (rule prod_cases4)
  note eqs = h0 h1 h2 h3 k0 k1 k2 k3 l0 l1 l2 l3 n0 n1 n2 n3
  have "round [x0, x1, x2, x3, x4, x5, x6, x7, x8, x9, x10, x11, x12, x13, x14, x15] m
      = [t0, t1, t2, t3, u3, u0, u1, u2, v2, v3, v0, v1, w1, w2, w3, w0]"
    by (simp add: round_def g_as_half_rounds eqs [simplified])
  moreover have "concat (snd (fill_round B row off
      [[x0, x1, x2, x3], [x4, x5, x6, x7], [x8, x9, x10, x11], [x12, x13, x14, x15]] m))
      = [t0, t1, t2, t3, u3, u0, u1, u2, v2, v3, v0, v1, w1, w2, w3, w0]"
    using eqs by (simp add: fill_round_def Let_def upt4 half_round_at_cells)
  ultimately show ?thesis by simp
qed

definition grid :: "u32 list list \<Rightarrow> bool" where
  "grid st \<longleftrightarrow> length st = 4 \<and> list_all (\<lambda>r. length r = 4) st"

lemma list_of_4: "length xs = 4 \<Longrightarrow> xs = [xs ! 0, xs ! 1, xs ! 2, xs ! 3]"
  by (rule nth_equalityI) (auto simp: less_Suc_eq numeral_eq_Suc)

lemma grid_row: "grid st \<Longrightarrow> i < 4 \<Longrightarrow> length (st ! i) = 4"
  by (simp add: grid_def list_all_length)

lemma grid_cells:
  assumes "grid st"
  shows "st = [[st ! 0 ! 0, st ! 0 ! 1, st ! 0 ! 2, st ! 0 ! 3], [st ! 1 ! 0, st ! 1 ! 1, st ! 1 ! 2, st ! 1 ! 3],
    [st ! 2 ! 0, st ! 2 ! 1, st ! 2 ! 2, st ! 2 ! 3], [st ! 3 ! 0, st ! 3 ! 1, st ! 3 ! 2, st ! 3 ! 3]]"
  using assms list_of_4 [of st] list_of_4 [OF grid_row [OF assms]] by (simp add: grid_def)

lemma grid_half_round_at: "grid st \<Longrightarrow> grid (half_round_at i j k l m flag st)"
  by (cases "verifiable_half_round (st ! 0 ! i) (st ! 1 ! j) (st ! 2 ! k) (st ! 3 ! l) m flag")
    (simp add: half_round_at_def grid_def [of "[_, _, _, _]"] grid_row grid_row [of _ "Suc 0"])

lemma grid_fold: "grid st \<Longrightarrow> grid (fold (\<lambda>i. half_round_at (p i) (q i) (r i) (s i) (m i) flag) xs st)"
  by (induction xs arbitrary: st) (simp_all add: grid_half_round_at)

lemma fill_round_grid:
  assumes "grid st"
  shows "grid (snd (fill_round B row off st m))" "concat (snd (fill_round B row off st m)) = round (concat st) m"
proof -
  show "grid (snd (fill_round B row off st m))"
    using assms by (simp add: fill_round_def Let_def grid_fold)
  show "concat (snd (fill_round B row off st m)) = round (concat st) m"
    by (subst (1 2) grid_cells [OF assms]) (simp only: fill_round_computes concat.simps append.simps)
qed

lemma fill_rounds_grid:
  "grid st \<Longrightarrow> grid (snd (fill_rounds B r n row st m)) \<and> concat (snd (fill_rounds B r n row st m)) = rounds n (concat st) m"
proof (induction n arbitrary: r row st m)
  case (Suc n)
  obtain row' st' where f: "fill_round B row (B3_FULL_ROUNDS_OFFSET + r * B3_FULL_ROUND_WIDTH) st m = (row', st')"
    by fastforce
  with fill_round_grid [OF Suc.prems, of B row "B3_FULL_ROUNDS_OFFSET + r * B3_FULL_ROUND_WIDTH" m]
  have "grid st'" "concat st' = round (concat st) m" by auto
  with Suc.IH [of st'] f show ?case by simp
qed simp

lemma feed_forward_words:
  "feed_forward cv [x0, x1, x2, x3, x4, x5, x6, x7, y0, y1, y2, y3, y4, y5, y6, y7] =
     [x0 XOR y0, x1 XOR y1, x2 XOR y2, x3 XOR y3, x4 XOR y4, x5 XOR y5, x6 XOR y6, x7 XOR y7,
      y0 XOR cv ! 0, y1 XOR cv ! 1, y2 XOR cv ! 2, y3 XOR cv ! 3, y4 XOR cv ! 4, y5 XOR cv ! 5, y6 XOR cv ! 6, y7 XOR cv ! 7]"
proof -
  have "[0..<8] = [0, 1, 2, 3, 4, 5, 6, 7 :: nat]" by code_simp
  then show ?thesis by (simp add: feed_forward_def)
qed

text \<open>The words that the final loop of \<open>fill_trace_row\<close> writes, in the order of the columns.\<close>

definition final_words :: "u32 list \<Rightarrow> u32 list list \<Rightarrow> u32 list" where
  "final_words cv st =
     map (\<lambda>i. st ! 0 ! i XOR st ! 2 ! i) [0..<4] @ map (\<lambda>i. st ! 1 ! i XOR st ! 3 ! i) [0..<4]
       @ map (\<lambda>i. st ! 2 ! i XOR cv ! i) [0..<4] @ map (\<lambda>i. st ! 3 ! i XOR cv ! (4 + i)) [0..<4]"

lemma final_words_feed_forward: "grid st \<Longrightarrow> final_words cv st = feed_forward cv (concat st)"
  by (subst (2) grid_cells) (simp_all add: final_words_def feed_forward_words upt4)

lemma final_words_compress:
  "final_words cv (snd (fill_rounds B 0 7 row
     [[cv ! 0, cv ! 1, cv ! 2, cv ! 3], [cv ! 4, cv ! 5, cv ! 6, cv ! 7], [IV ! 0, IV ! 1, IV ! 2, IV ! 3],
      [ucast ctr, ucast (drop_bit 32 ctr), len, flags]] block)) = compress block cv ctr len flags"
proof -
  let ?st = "[[cv ! 0, cv ! 1, cv ! 2, cv ! 3], [cv ! 4, cv ! 5, cv ! 6, cv ! 7], [IV ! 0, IV ! 1, IV ! 2, IV ! 3],
      [ucast ctr, ucast (drop_bit 32 ctr), len, flags]]"
  have "grid ?st" by (simp add: grid_def)
  from fill_rounds_grid [OF this, of B 0 7 row block] show ?thesis
    by (simp add: final_words_feed_forward compress_def Let_def)
qed

section \<open>What a row holds\<close>

text \<open>The word \<open>v\<close> stands in the 32 columns from \<open>off\<close> on.\<close>

definition word_at :: "(u32 \<Rightarrow> val list) \<Rightarrow> row \<Rightarrow> nat \<Rightarrow> u32 \<Rightarrow> bool" where
  "word_at B row off v \<longleftrightarrow> (\<forall>k < 32. row (off + k) = B v ! k)"

lemma word_at_write [simp]: "word_at B (write_bits B row off v) off v"
  by (simp add: word_at_def write_bits_def BITS_PER_WORD_def)

lemma word_at_frame [simp]:
  "off + 32 \<le> off' \<Longrightarrow> word_at B (write_bits B row off' w) off v \<longleftrightarrow> word_at B row off v"
  "off' + 32 \<le> off \<Longrightarrow> word_at B (write_bits B row off' w) off v \<longleftrightarrow> word_at B row off v"
  by (auto simp: word_at_def write_bits_def BITS_PER_WORD_def)

lemma word_at_limbs [simp]:
  "off + 32 \<le> off' \<Longrightarrow> word_at B (write_limbs row off' w) off v \<longleftrightarrow> word_at B row off v"
  by (simp add: word_at_def write_limbs_def)

lemma word_at_save_state [simp]:
  "off + 32 \<le> off' \<Longrightarrow> word_at B (save_state B row off' st) off v \<longleftrightarrow> word_at B row off v"
  by (simp add: save_state_def upt4 Let_def BITS_PER_WORD_def)

lemma word_at_fill_round:
  "off + 32 \<le> off' \<Longrightarrow> word_at B (fst (fill_round B row off' st m)) off v \<longleftrightarrow> word_at B row off v"
  by (simp add: fill_round_def Let_def)

lemma word_at_fill_rounds [simp]:
  "off + 32 \<le> B3_FULL_ROUNDS_OFFSET \<Longrightarrow> word_at B (fst (fill_rounds B r n row st m)) off v \<longleftrightarrow> word_at B row off v"
proof (induction n arbitrary: r row st m)
  case (Suc n)
  obtain row' st' where f: "fill_round B row (B3_FULL_ROUNDS_OFFSET + r * B3_FULL_ROUND_WIDTH) st m = (row', st')"
    by fastforce
  have "off + 32 \<le> B3_FULL_ROUNDS_OFFSET + r * B3_FULL_ROUND_WIDTH" using Suc.prems by simp
  from word_at_fill_round [OF this, of B row st m v] Suc f show ?case by simp
qed simp

lemma write_words_Nil [simp]: "write_words B off [] row = row"
  by (simp add: write_words_def)

lemma write_words_snoc:
  "write_words B off (ws @ [w]) row = write_bits B (write_words B off ws row) (off + length ws * 32) w"
  by (simp add: write_words_def enumerate_append_eq BITS_PER_WORD_def)

lemma word_at_write_words_frame [simp]:
  "off + 32 \<le> off' \<Longrightarrow> word_at B (write_words B off' ws row) off v \<longleftrightarrow> word_at B row off v"
  "off' + 32 * length ws \<le> off \<Longrightarrow> word_at B (write_words B off' ws row) off v \<longleftrightarrow> word_at B row off v"
  by (induction ws rule: rev_induct) (simp_all add: write_words_snoc)

lemma word_at_write_words:
  "i < length ws \<Longrightarrow> word_at B (write_words B off ws row) (off + i * 32) (ws ! i)"
proof (induction ws rule: rev_induct)
  case (snoc w ws)
  then show ?case by (cases "i = length ws") (auto simp: write_words_snoc nth_append)
qed simp

lemma write_outputs_frame [simp]:
  "off + 32 \<le> B3_OUTPUTS_OFFSET \<Longrightarrow> word_at B (write_outputs B cv st row) off v \<longleftrightarrow> word_at B row off v"
  by (simp add: write_outputs_def upt4 Let_def BITS_PER_WORD_def)

lemma all_less_16: "(\<forall>j < 16. P (j :: nat)) \<longleftrightarrow> P 0 \<and> P 1 \<and> P 2 \<and> P 3 \<and> P 4 \<and> P 5 \<and> P 6 \<and> P 7 \<and> P 8 \<and> P 9 \<and> P 10
    \<and> P 11 \<and> P 12 \<and> P 13 \<and> P 14 \<and> P 15"
proof -
  have "[0..<16] = [0, 1, 2, 3, 4, 5, 6, 7, 8, 9, 10, 11, 12, 13, 14, 15 :: nat]" by code_simp
  then have "(\<forall>j \<in> set [0..<16]. P j) \<longleftrightarrow> (\<forall>j \<in> set [0, 1, 2, 3, 4, 5, 6, 7, 8, 9, 10, 11, 12, 13, 14, 15]. P j)" by simp
  then show ?thesis by auto
qed

lemma write_outputs_words:
  "\<forall>j < 16. word_at B (write_outputs B cv st row) (B3_OUTPUTS_OFFSET + j * 32) (final_words cv st ! j)"
  unfolding all_less_16 final_words_def upt4 write_outputs_def Let_def BITS_PER_WORD_def fold_simps
  by (intro conjI; simp)

lemma fold_keeps_word:
  assumes "\<And>x row. x \<in> set xs \<Longrightarrow> word_at B (f x row) off v \<longleftrightarrow> word_at B row off v"
  shows "word_at B (fold f xs row) off v \<longleftrightarrow> word_at B row off v"
  using assms by (induction xs arbitrary: row) auto

lemma write_initial_limbs_frame [simp]:
  "off + 32 \<le> B3_INITIAL_ROW0_OFFSET \<Longrightarrow> word_at B (write_initial_limbs c row) off v \<longleftrightarrow> word_at B row off v"
  unfolding write_initial_limbs_def
  by (intro fold_keeps_word) (auto simp: B3_INITIAL_ROW2_OFFSET_def)

lemma fill_trace_row_parts:
  obtains row' st where
    "fill_rounds B 0 7 (write_initial_limbs c (write_inputs B c row)) (initial_state c) (co_block_words c) = (row', st)"
    "fill_trace_row B row c = write_outputs B (co_cv_words c) st (write_words B B3_FINAL_HELPERS_OFFSET (st ! 2) row')"
  by (cases "fill_rounds B 0 7 (write_initial_limbs c (write_inputs B c row)) (initial_state c) (co_block_words c)")
    (simp add: fill_trace_row_def)

lemma offset_order:
  "B3_INITIAL_ROW0_OFFSET \<le> B3_FULL_ROUNDS_OFFSET" "B3_INITIAL_ROW0_OFFSET \<le> B3_FINAL_HELPERS_OFFSET"
  "B3_INITIAL_ROW0_OFFSET \<le> B3_OUTPUTS_OFFSET"
  by (simp_all add: b3_offset_defs)

lemma fill_trace_row_low:
  assumes "off + 32 \<le> B3_INITIAL_ROW0_OFFSET"
  shows "word_at B (fill_trace_row B row c) off v \<longleftrightarrow> word_at B (write_inputs B c row) off v"
proof -
  from fill_trace_row_parts [of B c row] obtain row' st where
    r: "fill_rounds B 0 7 (write_initial_limbs c (write_inputs B c row)) (initial_state c) (co_block_words c) = (row', st)"
    "fill_trace_row B row c = write_outputs B (co_cv_words c) st (write_words B B3_FINAL_HELPERS_OFFSET (st ! 2) row')"
    by blast
  from assms offset_order have off: "off + 32 \<le> B3_FULL_ROUNDS_OFFSET" "off + 32 \<le> B3_FINAL_HELPERS_OFFSET"
    "off + 32 \<le> B3_OUTPUTS_OFFSET" by linarith+
  with word_at_fill_rounds [of off B 0 7 _ "initial_state c" "co_block_words c" v] r(1) assms
  have "word_at B row' off v \<longleftrightarrow> word_at B (write_inputs B c row) off v" by (metis fst_conv write_initial_limbs_frame)
  with off show ?thesis by (simp add: r(2))
qed

lemma fill_trace_row_inputs:
  assumes "length (co_block_words c) = 16" "length (co_cv_words c) = 8"
  shows "i < 16 \<Longrightarrow> word_at B (fill_trace_row B row c) (B3_INPUTS_OFFSET + i * 32) (co_block_words c ! i)"
    "i < 8 \<Longrightarrow> word_at B (fill_trace_row B row c) (B3_CHAINING_VALUES_OFFSET + i * 32) (co_cv_words c ! i)"
    "word_at B (fill_trace_row B row c) B3_COUNTER_LOW_OFFSET (ucast (co_counter c))"
    "word_at B (fill_trace_row B row c) B3_COUNTER_HI_OFFSET (ucast (drop_bit 32 (co_counter c)))"
    "word_at B (fill_trace_row B row c) B3_BLOCK_LEN_OFFSET (co_block_len c)"
    "word_at B (fill_trace_row B row c) B3_FLAGS_OFFSET (co_flags c)"
  using assms word_at_write_words [of i "co_block_words c" B 0] word_at_write_words [of i "co_cv_words c" B 512]
  by (simp_all add: fill_trace_row_low write_inputs_def b3_offset_defs)

lemma fill_trace_row_outputs:
  assumes "i < 16"
  shows "word_at B (fill_trace_row B row c) (B3_OUTPUTS_OFFSET + i * 32)
    (compress (co_block_words c) (co_cv_words c) (co_counter c) (co_block_len c) (co_flags c) ! i)"
proof -
  from fill_trace_row_parts [of B c row] obtain row' st where
    r: "fill_rounds B 0 7 (write_initial_limbs c (write_inputs B c row)) (initial_state c) (co_block_words c) = (row', st)"
    "fill_trace_row B row c = write_outputs B (co_cv_words c) st (write_words B B3_FINAL_HELPERS_OFFSET (st ! 2) row')"
    by blast
  from final_words_compress [of "co_cv_words c" B "write_initial_limbs c (write_inputs B c row)" "co_counter c"
      "co_block_len c" "co_flags c" "co_block_words c"] r(1)
  have "final_words (co_cv_words c) st = compress (co_block_words c) (co_cv_words c) (co_counter c) (co_block_len c) (co_flags c)"
    by (simp add: initial_state_def Let_def)
  with write_outputs_words [of B "co_cv_words c" st] assms show ?thesis by (simp add: r(2))
qed

section \<open>Compressions and hashes\<close>

text \<open>
  What the specification of BLAKE3 says of inputs of at most two blocks: the blocks of the only
  chunk are compressed in order, the last one padded with zeros and flagged as the root.
\<close>

definition pad_block :: "bytes \<Rightarrow> bytes" where
  "pad_block bs = bs @ replicate (64 - length bs) 0"

definition blake3_two_blocks :: "bytes \<Rightarrow> hash" where
  "blake3_two_blocks m =
     (if length m \<le> 64
      then hash_from_words (take 8 (compress (block_words (pad_block m)) IV 0 (of_nat (length m)) LEAF_FLAGS))
      else hash_from_words (take 8 (compress (block_words (pad_block (drop 64 m)))
        (take 8 (compress (block_words (take 64 m)) IV 0 64 NODE_FIRST_FLAGS)) 0 (of_nat (length m - 64)) NODE_SECOND_FLAGS)))"

definition blake3_law :: "digest \<Rightarrow> bool" where
  "blake3_law H \<longleftrightarrow> (\<forall>m. length m \<le> 128 \<longrightarrow> H m = blake3_two_blocks m)"

lemma copy_at_append:
  "copy_at (length xs) bs (xs @ replicate n 0) = xs @ bs @ replicate (n - length bs) 0"
  by (simp add: copy_at_def)

lemma copy_at_length [simp]: "offset + length bs \<le> length block \<Longrightarrow> length (copy_at offset bs block) = length block"
  by (simp add: copy_at_def)

lemma list_update_append_replicate:
  "0 < n \<Longrightarrow> (xs @ replicate n 0)[length xs := b] = xs @ [b] @ replicate (n - 1) 0"
  by (cases n) simp_all

lemma leaf_compression_eq:
  assumes "length payload \<le> 34"
  shows "leaf_compression s i payload = compression_of (block_words (pad_block (leaf_preimage s i payload))) IV 0
    (of_nat (length (leaf_preimage s i payload))) LEAF_FLAGS"
proof -
  let ?len = "to_be_bytes (as_u64 (length payload))"
  have "copy_at 0 DOMAIN_LEAF (replicate 64 0) = DOMAIN_LEAF @ replicate 51 0"
    using copy_at_append [of "[]" DOMAIN_LEAF 64] by simp
  moreover have "(DOMAIN_LEAF @ replicate 51 0)[13 := s] = (DOMAIN_LEAF @ [s]) @ replicate 50 0"
    using list_update_append_replicate [of 51 DOMAIN_LEAF s] by simp
  moreover have "copy_at 14 (to_be_bytes i) ((DOMAIN_LEAF @ [s]) @ replicate 50 0)
      = (DOMAIN_LEAF @ [s] @ to_be_bytes i) @ replicate 42 0"
    using copy_at_append [of "DOMAIN_LEAF @ [s]" "to_be_bytes i" 50] by simp
  moreover have "copy_at 22 ?len ((DOMAIN_LEAF @ [s] @ to_be_bytes i) @ replicate 42 0)
      = (DOMAIN_LEAF @ [s] @ to_be_bytes i @ ?len) @ replicate 34 0"
    using copy_at_append [of "DOMAIN_LEAF @ [s] @ to_be_bytes i" ?len 42] by simp
  moreover have "copy_at 30 payload ((DOMAIN_LEAF @ [s] @ to_be_bytes i @ ?len) @ replicate 34 0)
      = pad_block (leaf_preimage s i payload)"
    using copy_at_append [of "DOMAIN_LEAF @ [s] @ to_be_bytes i @ ?len" payload 34]
    by (simp add: pad_block_def leaf_preimage_def)
  moreover have "length (leaf_preimage s i payload) = 30 + length payload"
    by (simp add: leaf_preimage_def)
  ultimately show ?thesis
    by (simp only: leaf_compression_def Let_def BLOCK_BYTES_def domain_lengths) (simp add: add.commute)
qed

lemma node_compressions_eq:
  assumes "length l = 32" "length r = 32"
  shows "node_compressions l r =
    (let c1 = compression_of (block_words (take 64 (node_preimage l r))) IV 0 64 NODE_FIRST_FLAGS
     in (c1, compression_of (block_words (pad_block (drop 64 (node_preimage l r)))) (co_output_words c1) 0 13 NODE_SECOND_FLAGS))"
proof -
  have "copy_at 0 DOMAIN_NODE (replicate 77 0) = DOMAIN_NODE @ replicate 64 0"
    using copy_at_append [of "[]" DOMAIN_NODE 77] by simp
  moreover have "copy_at 13 l (DOMAIN_NODE @ replicate 64 0) = (DOMAIN_NODE @ l) @ replicate 32 0"
    using copy_at_append [of DOMAIN_NODE l 64] assms by simp
  moreover have "copy_at 45 r ((DOMAIN_NODE @ l) @ replicate 32 0) = node_preimage l r"
    using copy_at_append [of "DOMAIN_NODE @ l" r 32] assms by (simp add: node_preimage_def)
  moreover have "copy_at 0 (drop 64 (node_preimage l r)) (replicate 64 0) = pad_block (drop 64 (node_preimage l r))"
    using copy_at_append [of "[]" "drop 64 (node_preimage l r)" 64] by (simp add: pad_block_def)
  moreover have "length (node_preimage l r) = 77"
    using assms by (simp add: node_preimage_def)
  ultimately show ?thesis
    by (simp only: node_compressions_def Let_def BLOCK_BYTES_def domain_lengths) simp
qed

lemma compression_of_sel [simp]:
  "co_block_words (compression_of b cv ctr len fl) = b" "co_cv_words (compression_of b cv ctr len fl) = cv"
  "co_counter (compression_of b cv ctr len fl) = ctr" "co_block_len (compression_of b cv ctr len fl) = len"
  "co_flags (compression_of b cv ctr len fl) = fl"
  "co_output_words (compression_of b cv ctr len fl) = take 8 (compress b cv ctr len fl)"
  by (simp_all add: compression_of_def)

lemma leaf_compression_hash:
  assumes "blake3_law H" "length payload \<le> 34"
  shows "hash_from_words (co_output_words (leaf_compression s i payload)) = leaf_hash_v2 H s i payload"
proof -
  have "length (leaf_preimage s i payload) \<le> 64" using assms(2) by (simp add: leaf_preimage_def)
  then show ?thesis using assms
    by (simp add: leaf_compression_eq leaf_hash_v2_def blake3_256_def blake3_law_def blake3_two_blocks_def)
qed

lemma node_compressions_hash:
  assumes "blake3_law H" "length l = 32" "length r = 32"
  shows "hash_from_words (co_output_words (snd (node_compressions l r))) = node_hash_v2 H l r"
proof -
  have "length (node_preimage l r) = 77" using assms(2,3) by (simp add: node_preimage_def)
  then show ?thesis using assms
    by (simp add: node_compressions_eq Let_def node_hash_v2_def blake3_256_def blake3_law_def blake3_two_blocks_def)
qed

end
