(* ===== verification/Membership_Air.thy ===== *)
theory Membership_Air
  imports Blake3_Trace
begin

text \<open>
  The constraint systems of \<open>omega-claim-prover/src/lib.rs\<close>: the columns of the membership
  trace, the constraints that \<open>OmegaMembershipAir::eval\<close> emits, and the tuples that the two
  AIRs exchange through the lookup argument. A builder of the proof library only collects
  expressions; the model returns their values on a pair of rows, tagged with the rows they are
  asserted on.
\<close>

section \<open>Columns\<close>

definition LEAF_PAYLOAD_LEN_CHOICES :: nat where "LEAF_PAYLOAD_LEN_CHOICES = MAX_V01_LEAF_PAYLOAD_LEN + 1"
definition REMAINING_INDEX_BITS :: nat where "REMAINING_INDEX_BITS = 64"
definition COL_SUB_TREE_ID :: nat where "COL_SUB_TREE_ID = 0"
definition COL_LEAF_INDEX_BE :: nat where "COL_LEAF_INDEX_BE = COL_SUB_TREE_ID + 1"
definition COL_REMAINING_INDEX_BITS :: nat where "COL_REMAINING_INDEX_BITS = COL_LEAF_INDEX_BE + LEAF_INDEX_LEN"
definition COL_PATH_STEP_INDEX :: nat where "COL_PATH_STEP_INDEX = COL_REMAINING_INDEX_BITS + REMAINING_INDEX_BITS"
definition COL_TREE_DEPTH :: nat where "COL_TREE_DEPTH = COL_PATH_STEP_INDEX + 1"
definition COL_PAYLOAD_LEN :: nat where "COL_PAYLOAD_LEN = COL_TREE_DEPTH + 1"
definition COL_PAYLOAD_LEN_SELECTOR :: nat where "COL_PAYLOAD_LEN_SELECTOR = COL_PAYLOAD_LEN + 1"
definition COL_PAYLOAD :: nat where "COL_PAYLOAD = COL_PAYLOAD_LEN_SELECTOR + LEAF_PAYLOAD_LEN_CHOICES"
definition COL_PREV_NODE :: nat where "COL_PREV_NODE = COL_PAYLOAD + MAX_V01_LEAF_PAYLOAD_LEN"
definition COL_SIBLING :: nat where "COL_SIBLING = COL_PREV_NODE + HASH_LEN"
definition COL_LEFT_NODE :: nat where "COL_LEFT_NODE = COL_SIBLING + HASH_LEN"
definition COL_RIGHT_NODE :: nat where "COL_RIGHT_NODE = COL_LEFT_NODE + HASH_LEN"
definition COL_NODE_MID :: nat where "COL_NODE_MID = COL_RIGHT_NODE + HASH_LEN"
definition COL_CURRENT_NODE :: nat where "COL_CURRENT_NODE = COL_NODE_MID + HASH_LEN"
definition COL_DIRECTION_BIT :: nat where "COL_DIRECTION_BIT = COL_CURRENT_NODE + HASH_LEN"
definition COL_HAS_NODE_HASH :: nat where "COL_HAS_NODE_HASH = COL_DIRECTION_BIT + 1"
definition COL_IS_FIRST_STEP :: nat where "COL_IS_FIRST_STEP = COL_HAS_NODE_HASH + 1"
definition COL_IS_REAL_STEP :: nat where "COL_IS_REAL_STEP = COL_IS_FIRST_STEP + 1"
definition COL_IS_LAST_STEP :: nat where "COL_IS_LAST_STEP = COL_IS_REAL_STEP + 1"
definition NUM_MEMBERSHIP_COLS :: nat where "NUM_MEMBERSHIP_COLS = COL_IS_LAST_STEP + 1"

lemma payload_len_consts [simp]: "MAX_V01_LEAF_PAYLOAD_LEN = 34" "LEAF_PAYLOAD_LEN_CHOICES = 35"
  by (simp_all add: MAX_V01_LEAF_PAYLOAD_LEN_def MAX_V01_LEAF_PREIMAGE_LEN_def LEAF_PAYLOAD_LEN_CHOICES_def)

section \<open>Builders\<close>

text \<open>The rows an expression is asserted on; \<open>when(c)\<close> multiplies what follows by \<open>c\<close>.\<close>

datatype when_row = EveryRow | FirstRow | Transition | LastRow

type_synonym constraint = "when_row \<times> val"

definition assert_bool :: "val \<Rightarrow> val" where "assert_bool x = x * (x - 1)"
definition assert_one :: "val \<Rightarrow> val" where "assert_one x = x - 1"
definition assert_eq :: "val \<Rightarrow> val \<Rightarrow> val" where "assert_eq x y = x - y"
definition assert_zero :: "val \<Rightarrow> val" where "assert_zero x = x"

definition builder_when :: "val \<Rightarrow> val list \<Rightarrow> val list" where
  "builder_when c es = map (\<lambda>e. c * e) es"

fun row_selected :: "when_row \<Rightarrow> nat \<Rightarrow> nat \<Rightarrow> bool" where
  "row_selected EveryRow h i = True"
| "row_selected FirstRow h i = (i = 0)"
| "row_selected Transition h i = (Suc i < h)"
| "row_selected LastRow h i = (Suc i = h)"

section \<open>The constraints\<close>

definition assert_payload_len_selector :: "row \<Rightarrow> val list" where
  "assert_payload_len_selector local =
     (let selector = (\<lambda>choice. local (COL_PAYLOAD_LEN_SELECTOR + choice))
      in map (\<lambda>choice. assert_bool (selector choice)) [0..<LEAF_PAYLOAD_LEN_CHOICES]
       @ [assert_one (\<Sum>choice\<leftarrow>[0..<LEAF_PAYLOAD_LEN_CHOICES]. selector choice),
          assert_eq (local COL_PAYLOAD_LEN) (\<Sum>choice\<leftarrow>[0..<LEAF_PAYLOAD_LEN_CHOICES]. selector choice * of_nat choice)]
       @ map (\<lambda>payload_index. assert_zero (local (COL_PAYLOAD + payload_index)
           * (\<Sum>choice\<leftarrow>[0..<Suc payload_index]. selector choice))) [0..<MAX_V01_LEAF_PAYLOAD_LEN])"

definition assert_remaining_bits_match_leaf_index :: "row \<Rightarrow> (nat \<Rightarrow> val) \<Rightarrow> val list" where
  "assert_remaining_bits_match_leaf_index local public =
     map (\<lambda>byte_index. assert_eq
        (\<Sum>bit\<leftarrow>[0..<8]. local (COL_REMAINING_INDEX_BITS + byte_index * 8 + bit) * of_nat (2 ^ bit))
        (public (PUBLIC_LEAF_INDEX_OFFSET + LEAF_INDEX_LEN - 1 - byte_index))) [0..<LEAF_INDEX_LEN]"

text \<open>The constraints of \<open>eval\<close>, group by group in the order of the source.\<close>

definition flag_constraints :: "row \<Rightarrow> val list" where
  "flag_constraints local =
     [assert_bool (local COL_IS_REAL_STEP), assert_bool (local COL_IS_LAST_STEP), assert_bool (local COL_IS_FIRST_STEP),
      assert_bool (local COL_HAS_NODE_HASH), assert_bool (local COL_DIRECTION_BIT)]"

definition first_row_constraints :: "row \<Rightarrow> val list" where
  "first_row_constraints local =
     [assert_one (local COL_IS_REAL_STEP), assert_one (local COL_IS_FIRST_STEP), assert_zero (local COL_PATH_STEP_INDEX)]"

definition real_constraints :: "row \<Rightarrow> (nat \<Rightarrow> val) \<Rightarrow> val list" where
  "real_constraints local public =
     builder_when (local COL_IS_REAL_STEP)
       ([assert_eq (local COL_SUB_TREE_ID) (public PUBLIC_SUB_TREE_ID_OFFSET),
         assert_eq (local COL_TREE_DEPTH) (public PUBLIC_TREE_DEPTH_OFFSET)]
        @ map (\<lambda>offset. assert_eq (local (COL_LEAF_INDEX_BE + offset)) (public (PUBLIC_LEAF_INDEX_OFFSET + offset)))
            [0..<LEAF_INDEX_LEN]
        @ assert_payload_len_selector local
        @ map (\<lambda>bit. assert_bool (local (COL_REMAINING_INDEX_BITS + bit))) [0..<REMAINING_INDEX_BITS])"

definition first_step_constraints :: "row \<Rightarrow> (nat \<Rightarrow> val) \<Rightarrow> val list" where
  "first_step_constraints local public =
     builder_when (local COL_IS_FIRST_STEP)
       (assert_one (local COL_IS_REAL_STEP) # assert_remaining_bits_match_leaf_index local public)"

definition node_constraints :: "row \<Rightarrow> val list" where
  "node_constraints local =
     (let has_node = local COL_HAS_NODE_HASH;
          direction_zero_active = has_node * (1 - local COL_DIRECTION_BIT);
          direction_one_active = has_node * local COL_DIRECTION_BIT;
          no_node_active = local COL_IS_REAL_STEP - has_node
      in builder_when has_node [assert_eq (local COL_DIRECTION_BIT) (local COL_REMAINING_INDEX_BITS)]
       @ builder_when direction_zero_active (concat (map (\<lambda>byte.
           [assert_eq (local (COL_LEFT_NODE + byte)) (local (COL_PREV_NODE + byte)),
            assert_eq (local (COL_RIGHT_NODE + byte)) (local (COL_SIBLING + byte))]) [0..<HASH_LEN]))
       @ builder_when direction_one_active (concat (map (\<lambda>byte.
           [assert_eq (local (COL_LEFT_NODE + byte)) (local (COL_SIBLING + byte)),
            assert_eq (local (COL_RIGHT_NODE + byte)) (local (COL_PREV_NODE + byte))]) [0..<HASH_LEN]))
       @ builder_when no_node_active (assert_zero (local COL_TREE_DEPTH) # concat (map (\<lambda>byte.
           [assert_eq (local (COL_CURRENT_NODE + byte)) (local (COL_PREV_NODE + byte)),
            assert_zero (local (COL_SIBLING + byte)), assert_zero (local (COL_LEFT_NODE + byte)),
            assert_zero (local (COL_RIGHT_NODE + byte)), assert_zero (local (COL_NODE_MID + byte))]) [0..<HASH_LEN])))"

definition stop_constraints :: "row \<Rightarrow> (nat \<Rightarrow> val) \<Rightarrow> val list" where
  "stop_constraints local public =
     builder_when (local COL_IS_REAL_STEP * local COL_IS_LAST_STEP)
       (assert_eq (local COL_PATH_STEP_INDEX + local COL_HAS_NODE_HASH) (local COL_TREE_DEPTH)
        # map (\<lambda>byte. assert_eq (local (COL_CURRENT_NODE + byte)) (public (PUBLIC_ROOT_OFFSET + byte))) [0..<HASH_LEN])"

definition transition_constraints :: "row \<Rightarrow> row \<Rightarrow> val list" where
  "transition_constraints local next =
     (let real = local COL_IS_REAL_STEP; last_step = local COL_IS_LAST_STEP; not_real = 1 - real;
          continue_active = real * (1 - last_step); stop_active = real * last_step
      in [assert_zero (next COL_IS_FIRST_STEP)]
       @ builder_when continue_active [assert_one (next COL_IS_REAL_STEP)]
       @ builder_when stop_active [assert_zero (next COL_IS_REAL_STEP)]
       @ builder_when not_real [assert_zero (next COL_IS_REAL_STEP)]
       @ builder_when not_real [assert_zero (next COL_IS_FIRST_STEP)]
       @ builder_when continue_active
          ([assert_eq (next COL_PATH_STEP_INDEX) (local COL_PATH_STEP_INDEX + 1)]
           @ map (\<lambda>byte. assert_eq (next (COL_PREV_NODE + byte)) (local (COL_CURRENT_NODE + byte))) [0..<HASH_LEN]
           @ map (\<lambda>bit. assert_eq (next (COL_REMAINING_INDEX_BITS + bit)) (local (COL_REMAINING_INDEX_BITS + bit + 1)))
               [0..<REMAINING_INDEX_BITS - 1]
           @ [assert_zero (next (COL_REMAINING_INDEX_BITS + REMAINING_INDEX_BITS - 1))]))"

definition last_row_constraints :: "row \<Rightarrow> val list" where
  "last_row_constraints local = [assert_zero (local COL_IS_REAL_STEP * (1 - local COL_IS_LAST_STEP))]"

definition padding_constraints :: "row \<Rightarrow> val list" where
  "padding_constraints local =
     builder_when (1 - local COL_IS_REAL_STEP) (map (\<lambda>col. assert_zero (local col)) [0..<NUM_MEMBERSHIP_COLS])"

definition eval_membership :: "row \<Rightarrow> row \<Rightarrow> (nat \<Rightarrow> val) \<Rightarrow> constraint list" where
  "eval_membership local next public =
     map (Pair EveryRow) (flag_constraints local)
     @ map (Pair FirstRow) (first_row_constraints local)
     @ map (Pair EveryRow) (real_constraints local public)
     @ map (Pair EveryRow) (first_step_constraints local public)
     @ map (Pair EveryRow) (node_constraints local)
     @ map (Pair EveryRow) (stop_constraints local public)
     @ map (Pair Transition) (transition_constraints local next)
     @ map (Pair LastRow) (last_row_constraints local)
     @ map (Pair EveryRow) (padding_constraints local)"

text \<open>A trace satisfies an AIR when every expression vanishes on every row it is asserted on.\<close>

definition membership_satisfied :: "row list \<Rightarrow> (nat \<Rightarrow> val) \<Rightarrow> bool" where
  "membership_satisfied trace public \<longleftrightarrow> trace \<noteq> [] \<and>
     list_all (\<lambda>i. list_all (\<lambda>(w, e). row_selected w (length trace) i \<longrightarrow> e = 0)
       (eval_membership (trace ! i) (trace ! (Suc i mod length trace)) public)) [0..<length trace]"

section \<open>Lookups\<close>

definition const_u32_byte_expr :: "u32 \<Rightarrow> nat \<Rightarrow> val" where
  "const_u32_byte_expr v byte = from_u8 (ucast (drop_bit (byte * 8) v AND 0xFF))"

definition byte_expr_from_bits :: "row \<Rightarrow> nat \<Rightarrow> val" where
  "byte_expr_from_bits local offset = (\<Sum>bit\<leftarrow>[0..<8]. local (offset + bit) * of_nat (2 ^ bit))"

definition hash_exprs :: "row \<Rightarrow> nat \<Rightarrow> val list" where
  "hash_exprs local offset = map (\<lambda>i. local (offset + i)) [0..<HASH_LEN]"

definition iv_exprs :: "val list" where
  "iv_exprs = concat (map (\<lambda>word. map from_u8 (to_le_bytes word)) IV)"

definition leaf_lookup_exprs :: "row \<Rightarrow> val list" where
  "leaf_lookup_exprs local =
     map from_u8 DOMAIN_LEAF @ [local COL_SUB_TREE_ID]
     @ map (\<lambda>offset. local (COL_LEAF_INDEX_BE + offset)) [0..<LEAF_INDEX_LEN]
     @ replicate 7 (from_u8 0) @ [local COL_PAYLOAD_LEN]
     @ map (\<lambda>offset. local (COL_PAYLOAD + offset)) [0..<MAX_V01_LEAF_PAYLOAD_LEN]
     @ replicate (64 - length DOMAIN_LEAF - 1 - LEAF_INDEX_LEN - 8 - MAX_V01_LEAF_PAYLOAD_LEN) (from_u8 0)
     @ iv_exprs @ replicate COUNTER_BYTES (from_u8 0)
     @ [from_u8 (of_nat (length DOMAIN_LEAF + 1 + LEAF_INDEX_LEN + 8)) + local COL_PAYLOAD_LEN]
     @ replicate (U32_BYTES - 1) (from_u8 0)
     @ map (const_u32_byte_expr LEAF_FLAGS) [0..<U32_BYTES]
     @ hash_exprs local COL_PREV_NODE"

definition node_first_lookup_exprs :: "row \<Rightarrow> val list" where
  "node_first_lookup_exprs local =
     map from_u8 DOMAIN_NODE @ hash_exprs local COL_LEFT_NODE
     @ map (\<lambda>i. local (COL_RIGHT_NODE + i)) [0..<64 - length DOMAIN_NODE - HASH_LEN]
     @ iv_exprs @ replicate COUNTER_BYTES (from_u8 0)
     @ map (const_u32_byte_expr 64) [0..<U32_BYTES]
     @ map (const_u32_byte_expr NODE_FIRST_FLAGS) [0..<U32_BYTES]
     @ hash_exprs local COL_NODE_MID"

definition node_second_lookup_exprs :: "row \<Rightarrow> val list" where
  "node_second_lookup_exprs local =
     map (\<lambda>i. local (COL_RIGHT_NODE + i)) [64 - length DOMAIN_NODE - HASH_LEN..<HASH_LEN]
     @ replicate (64 - (length DOMAIN_NODE + HASH_LEN * 2 - 64)) (from_u8 0)
     @ hash_exprs local COL_NODE_MID @ replicate COUNTER_BYTES (from_u8 0)
     @ map (const_u32_byte_expr 13) [0..<U32_BYTES]
     @ map (const_u32_byte_expr NODE_SECOND_FLAGS) [0..<U32_BYTES]
     @ hash_exprs local COL_CURRENT_NODE"

text \<open>The bytes of \<open>n\<close> words in the columns from \<open>offset\<close> on.\<close>

definition word_byte_exprs :: "row \<Rightarrow> nat \<Rightarrow> nat \<Rightarrow> val list" where
  "word_byte_exprs local offset n =
     concat (map (\<lambda>word. map (\<lambda>byte. byte_expr_from_bits local (offset + word * 32 + byte * 8)) [0..<4]) [0..<n])"

definition blake3_table_lookup_exprs :: "row \<Rightarrow> val list" where
  "blake3_table_lookup_exprs local =
     word_byte_exprs local B3_INPUTS_OFFSET 16 @ word_byte_exprs local B3_CHAINING_VALUES_OFFSET 8
     @ word_byte_exprs local B3_COUNTER_LOW_OFFSET 1 @ word_byte_exprs local B3_COUNTER_HI_OFFSET 1
     @ word_byte_exprs local B3_BLOCK_LEN_OFFSET 1 @ word_byte_exprs local B3_FLAGS_OFFSET 1
     @ word_byte_exprs local B3_OUTPUTS_OFFSET 8"

text \<open>A lookup: the tuple and its multiplicity. The membership AIR receives, the table sends.\<close>

type_synonym lookup = "val list \<times> val"

definition membership_lookups :: "row \<Rightarrow> lookup list" where
  "membership_lookups local =
     (let node_mult = local COL_IS_REAL_STEP * local COL_HAS_NODE_HASH
      in [(leaf_lookup_exprs local, local COL_IS_FIRST_STEP), (node_first_lookup_exprs local, node_mult),
          (node_second_lookup_exprs local, node_mult)])"

definition blake3_lookups :: "row \<Rightarrow> lookup list" where
  "blake3_lookups local =
     (let flag0 = local B3_FLAGS_OFFSET; flag1 = local (B3_FLAGS_OFFSET + 1)
      in [(blake3_table_lookup_exprs local, flag0 + flag1 - flag0 * flag1)])"

text \<open>
  What the lookup argument establishes for one name: every tuple is received as often as it is
  sent, counted in the field.
\<close>

definition lookup_count :: "val list \<Rightarrow> lookup list \<Rightarrow> val" where
  "lookup_count t ls = (\<Sum>(u, m)\<leftarrow>ls. if u = t then m else 0)"

definition lookups_balanced :: "lookup list \<Rightarrow> lookup list \<Rightarrow> bool" where
  "lookups_balanced sends receives \<longleftrightarrow> (\<forall>t. lookup_count t sends = lookup_count t receives)"

section \<open>What the constraints say\<close>

abbreviation vanish :: "val list \<Rightarrow> bool" where
  "vanish es \<equiv> list_all (\<lambda>e. e = 0) es"

lemmas assert_defs = assert_bool_def assert_one_def assert_eq_def assert_zero_def

lemma vanish_when [simp]: "vanish (builder_when c es) \<longleftrightarrow> c = 0 \<or> vanish es"
  by (induction es) (auto simp: builder_when_def)

lemma vanish_concat: "vanish (concat (map f xs)) \<longleftrightarrow> (\<forall>x \<in> set xs. vanish (f x))"
  by (induction xs) auto

lemma vanish_map: "vanish (map f xs) \<longleftrightarrow> (\<forall>x \<in> set xs. f x = 0)"
  by (induction xs) auto

lemma assert_zero_iff:
  "assert_bool x = 0 \<longleftrightarrow> x = 0 \<or> x = 1" "assert_one x = 0 \<longleftrightarrow> x = 1" "assert_eq x y = 0 \<longleftrightarrow> x = y"
  "assert_zero x = 0 \<longleftrightarrow> x = 0"
  by (auto simp: assert_defs)

lemma ball_upt: "(\<forall>i \<in> set [0..<n]. P i) \<longleftrightarrow> (\<forall>i < n. P i)"
  by auto

lemmas vanish_simps = vanish_concat vanish_map assert_zero_iff ball_upt

lemma list_all_Pair: "list_all (\<lambda>(w, e). P w \<longrightarrow> e = 0) (map (Pair w) es) \<longleftrightarrow> (P w \<longrightarrow> vanish es)"
  by (induction es) auto

lemma membership_satisfied_iff:
  "membership_satisfied tr pub \<longleftrightarrow> tr \<noteq> [] \<and> (\<forall>i < length tr.
     vanish (flag_constraints (tr ! i)) \<and> (i = 0 \<longrightarrow> vanish (first_row_constraints (tr ! i)))
     \<and> vanish (real_constraints (tr ! i) pub) \<and> vanish (first_step_constraints (tr ! i) pub)
     \<and> vanish (node_constraints (tr ! i)) \<and> vanish (stop_constraints (tr ! i) pub)
     \<and> (Suc i < length tr \<longrightarrow> vanish (transition_constraints (tr ! i) (tr ! Suc i)))
     \<and> (Suc i = length tr \<longrightarrow> vanish (last_row_constraints (tr ! i))) \<and> vanish (padding_constraints (tr ! i)))"
proof -
  have "list_all (\<lambda>(w, e). row_selected w (length tr) i \<longrightarrow> e = 0)
      (eval_membership (tr ! i) (tr ! (Suc i mod length tr)) pub) \<longleftrightarrow>
     vanish (flag_constraints (tr ! i)) \<and> (i = 0 \<longrightarrow> vanish (first_row_constraints (tr ! i)))
     \<and> vanish (real_constraints (tr ! i) pub) \<and> vanish (first_step_constraints (tr ! i) pub)
     \<and> vanish (node_constraints (tr ! i)) \<and> vanish (stop_constraints (tr ! i) pub)
     \<and> (Suc i < length tr \<longrightarrow> vanish (transition_constraints (tr ! i) (tr ! Suc i)))
     \<and> (Suc i = length tr \<longrightarrow> vanish (last_row_constraints (tr ! i))) \<and> vanish (padding_constraints (tr ! i))" for i
    unfolding eval_membership_def list_all_append list_all_Pair by auto
  then show ?thesis by (simp only: membership_satisfied_def list_all_iff [of _ "[0..<length tr]"] ball_upt)
qed

lemma flags_vanish:
  "vanish (flag_constraints row) \<longleftrightarrow> (\<forall>c \<in> {COL_IS_REAL_STEP, COL_IS_LAST_STEP, COL_IS_FIRST_STEP, COL_HAS_NODE_HASH,
     COL_DIRECTION_BIT}. row c = 0 \<or> row c = 1)"
  by (simp add: flag_constraints_def assert_zero_iff)

lemma real_vanish:
  "vanish (real_constraints row pub) \<longleftrightarrow> row COL_IS_REAL_STEP = 0 \<or>
     row COL_SUB_TREE_ID = pub 0 \<and> row COL_TREE_DEPTH = pub 9
     \<and> (\<forall>o' < 8. row (COL_LEAF_INDEX_BE + o') = pub (1 + o')) \<and> vanish (assert_payload_len_selector row)
     \<and> (\<forall>b < 64. row (COL_REMAINING_INDEX_BITS + b) = 0 \<or> row (COL_REMAINING_INDEX_BITS + b) = 1)"
  unfolding real_constraints_def vanish_when list_all_append list.pred_inject vanish_simps
  by (simp add: offset_defs REMAINING_INDEX_BITS_def)

lemma first_step_vanish:
  "vanish (first_step_constraints row pub) \<longleftrightarrow> row COL_IS_FIRST_STEP = 0 \<or> row COL_IS_REAL_STEP = 1
     \<and> (\<forall>k < 8. (\<Sum>bit\<leftarrow>[0..<8]. row (COL_REMAINING_INDEX_BITS + k * 8 + bit) * of_nat (2 ^ bit)) = pub (8 - k))"
  unfolding first_step_constraints_def assert_remaining_bits_match_leaf_index_def vanish_when list.pred_inject vanish_simps
  by (simp add: offset_defs del: upt_rec_numeral upt_conv_Cons_Cons)

lemma hash_exprs_eq: "hash_exprs r a = hash_exprs r' b \<longleftrightarrow> (\<forall>i < 32. r (a + i) = r' (b + i))"
  by (auto simp: hash_exprs_def HASH_LEN_def)

lemma hash_exprs_zero: "hash_exprs r a = replicate 32 0 \<longleftrightarrow> (\<forall>i < 32. r (a + i) = 0)"
  by (simp add: hash_exprs_def HASH_LEN_def list_eq_iff_nth_eq)

lemma node_vanish:
  "vanish (node_constraints row) \<longleftrightarrow>
     (row COL_HAS_NODE_HASH = 0 \<or> row COL_DIRECTION_BIT = row COL_REMAINING_INDEX_BITS)
     \<and> (row COL_HAS_NODE_HASH * (1 - row COL_DIRECTION_BIT) = 0 \<or>
        hash_exprs row COL_LEFT_NODE = hash_exprs row COL_PREV_NODE \<and> hash_exprs row COL_RIGHT_NODE = hash_exprs row COL_SIBLING)
     \<and> (row COL_HAS_NODE_HASH * row COL_DIRECTION_BIT = 0 \<or>
        hash_exprs row COL_LEFT_NODE = hash_exprs row COL_SIBLING \<and> hash_exprs row COL_RIGHT_NODE = hash_exprs row COL_PREV_NODE)
     \<and> (row COL_IS_REAL_STEP - row COL_HAS_NODE_HASH = 0 \<or>
        row COL_TREE_DEPTH = 0 \<and> hash_exprs row COL_CURRENT_NODE = hash_exprs row COL_PREV_NODE
        \<and> hash_exprs row COL_SIBLING = replicate 32 0 \<and> hash_exprs row COL_LEFT_NODE = replicate 32 0
        \<and> hash_exprs row COL_RIGHT_NODE = replicate 32 0 \<and> hash_exprs row COL_NODE_MID = replicate 32 0)"
  unfolding node_constraints_def Let_def list_all_append vanish_when list.pred_inject vanish_simps hash_exprs_eq hash_exprs_zero
  by (simp add: HASH_LEN_def all_conj_distrib imp_conjR)

lemma stop_vanish:
  "vanish (stop_constraints row pub) \<longleftrightarrow> row COL_IS_REAL_STEP = 0 \<or> row COL_IS_LAST_STEP = 0 \<or>
     row COL_PATH_STEP_INDEX + row COL_HAS_NODE_HASH = row COL_TREE_DEPTH
     \<and> (\<forall>i < 32. row (COL_CURRENT_NODE + i) = pub (10 + i))"
  unfolding stop_constraints_def vanish_when list.pred_inject vanish_simps
  by (simp add: offset_defs)

lemma transition_vanish:
  assumes "vanish (flag_constraints row)"
  shows "vanish (transition_constraints row next) \<longleftrightarrow> next COL_IS_FIRST_STEP = 0 \<and>
     (if row COL_IS_REAL_STEP = 1 \<and> row COL_IS_LAST_STEP = 0
      then next COL_IS_REAL_STEP = 1 \<and> next COL_PATH_STEP_INDEX = row COL_PATH_STEP_INDEX + 1
        \<and> hash_exprs next COL_PREV_NODE = hash_exprs row COL_CURRENT_NODE
        \<and> (\<forall>b < 63. next (COL_REMAINING_INDEX_BITS + b) = row (COL_REMAINING_INDEX_BITS + Suc b))
        \<and> next (COL_REMAINING_INDEX_BITS + 63) = 0
      else next COL_IS_REAL_STEP = 0)"
proof -
  have "row COL_IS_REAL_STEP = 0 \<or> row COL_IS_REAL_STEP = 1" "row COL_IS_LAST_STEP = 0 \<or> row COL_IS_LAST_STEP = 1"
    using assms by (auto simp: flags_vanish)
  then show ?thesis
    unfolding transition_constraints_def Let_def list_all_append vanish_when list.pred_inject vanish_simps hash_exprs_eq
    by (auto simp: HASH_LEN_def REMAINING_INDEX_BITS_def add.commute)
qed

lemma last_row_vanish:
  "vanish (last_row_constraints row) \<longleftrightarrow> row COL_IS_REAL_STEP = 0 \<or> row COL_IS_LAST_STEP = 1"
  by (auto simp: last_row_constraints_def assert_zero_iff)

lemma padding_vanish:
  "vanish (padding_constraints row) \<longleftrightarrow> row COL_IS_REAL_STEP = 1 \<or> (\<forall>c < NUM_MEMBERSHIP_COLS. row c = 0)"
  unfolding padding_constraints_def vanish_when vanish_simps by auto

text \<open>Sums of bits.\<close>

lemma sum_bits:
  "(\<Sum>b\<leftarrow>[0..<8]. of_bool (f b) * of_nat (2 ^ b)) = from_u8 (horner_sum of_bool 2 (map f [0..<8]))"
proof -
  let ?n = "horner_sum of_bool 2 (map f [0..<8]) :: nat"
  have "[0..<8] = [0, 1, 2, 3, 4, 5, 6, 7 :: nat]" by code_simp
  then have "(\<Sum>b\<leftarrow>[0..<8]. of_bool (f b) * of_nat (2 ^ b)) = (of_nat ?n :: val)"
    "(horner_sum of_bool 2 (map f [0..<8]) :: u8) = of_nat ?n"
    by (simp_all add: algebra_simps)
  moreover have "?n < 2 ^ 8" using horner_sum_of_bool_2_less [of "map f [0..<8]", where ?'a = nat] by simp
  then have "unat (horner_sum of_bool 2 (map f [0..<8]) :: u8) = ?n"
    by (simp add: calculation(2) unat_of_nat take_bit_nat_eq_self del: horner_sum_simps)
  ultimately show ?thesis by (simp only: from_u8_def)
qed

lemma sum_bits_eq_byte:
  "(\<Sum>b\<leftarrow>[0..<8]. of_bool (f b) * of_nat (2 ^ b)) = from_u8 w \<longleftrightarrow> (\<forall>b < 8. f b = bit w b)"
proof -
  have "horner_sum of_bool 2 (map f [0..<8]) = w \<longleftrightarrow> (\<forall>b < 8. f b = bit w b)"
    by (auto simp: bit_eq_iff bit_horner_sum_bit_word_iff)
  then show ?thesis by (simp only: sum_bits from_u8_inject)
qed

text \<open>The payload length: exactly one selector is set, and the payload is zero from there on.\<close>

lemma sum_selected: "(\<Sum>c\<leftarrow>xs. of_bool (f c) * h c) = (\<Sum>c\<leftarrow>filter f xs. (h c :: val))"
  by (induction xs) auto

lemma count_selected: "(\<Sum>c\<leftarrow>xs. of_bool (f c)) = (of_nat (length (filter f xs)) :: val)"
  by (induction xs) auto

lemma sum_cells_bool:
  assumes "\<And>c. c < n \<Longrightarrow> row (off + c) = (of_bool (f c) :: val)" "m \<le> n"
  shows "(\<Sum>c\<leftarrow>[0..<m]. row (off + c)) = of_nat (length (filter f [0..<m]))"
    "(\<Sum>c\<leftarrow>[0..<m]. row (off + c) * h c) = (\<Sum>c\<leftarrow>filter f [0..<m]. h c)"
proof -
  have "map (\<lambda>c. row (off + c)) [0..<m] = map (\<lambda>c. of_bool (f c)) [0..<m]"
    "map (\<lambda>c. row (off + c) * h c) [0..<m] = map (\<lambda>c. of_bool (f c) * h c) [0..<m]"
    using assms by auto
  then show "(\<Sum>c\<leftarrow>[0..<m]. row (off + c)) = of_nat (length (filter f [0..<m]))"
    "(\<Sum>c\<leftarrow>[0..<m]. row (off + c) * h c) = (\<Sum>c\<leftarrow>filter f [0..<m]. h c)"
    by (simp_all only: count_selected sum_selected)
qed

lemma bool_cells:
  assumes "\<forall>c < n. row (off + c) = 0 \<or> row (off + c) = (1 :: val)"
  obtains f where "\<And>c. c < n \<Longrightarrow> row (off + c) = of_bool (f c)"
  using assms by (intro that [of "\<lambda>c. row (off + c) = 1"]) auto

lemma selector_length:
  assumes "vanish (assert_payload_len_selector row)"
  obtains k where "k \<le> 34" "row COL_PAYLOAD_LEN = of_nat k" "\<And>j. k \<le> j \<Longrightarrow> j < 34 \<Longrightarrow> row (COL_PAYLOAD + j) = 0"
proof -
  from assms have a: "\<forall>c < 35. row (COL_PAYLOAD_LEN_SELECTOR + c) = 0 \<or> row (COL_PAYLOAD_LEN_SELECTOR + c) = 1"
    "(\<Sum>c\<leftarrow>[0..<35]. row (COL_PAYLOAD_LEN_SELECTOR + c)) = 1"
    "row COL_PAYLOAD_LEN = (\<Sum>c\<leftarrow>[0..<35]. row (COL_PAYLOAD_LEN_SELECTOR + c) * of_nat c)"
    "\<forall>j < 34. row (COL_PAYLOAD + j) * (\<Sum>c\<leftarrow>[0..<Suc j]. row (COL_PAYLOAD_LEN_SELECTOR + c)) = 0"
    unfolding assert_payload_len_selector_def Let_def list_all_append list.pred_inject vanish_simps payload_len_consts by auto
  from bool_cells [OF a(1)] obtain f where f: "\<And>c. c < 35 \<Longrightarrow> row (COL_PAYLOAD_LEN_SELECTOR + c) = of_bool (f c)" by blast
  note sums = sum_cells_bool [where off = COL_PAYLOAD_LEN_SELECTOR and row = row, OF f]
  have len: "length (filter f [0..<m]) < BABY_BEAR_PRIME" if "m \<le> 35" for m
    using that le_trans [OF length_filter_le [of f "[0..<m]"], of 35] by (simp add: BABY_BEAR_PRIME_def)
  have "(of_nat (length (filter f [0..<35])) :: val) = of_nat 1" using a(2) sums(1) [of 35] by simp
  then have "length (filter f [0..<35]) = 1"
    using len [of 35] by (subst (asm) of_nat_val_inject) (auto simp: BABY_BEAR_PRIME_def)
  then obtain k where k: "filter f [0..<35] = [k]" by (metis length_0_conv length_Suc_conv One_nat_def)
  then have k35: "k < 35" "f k" using filter_eq_ConsD [OF k] by (auto dest!: arg_cong [where f = set])
  show ?thesis
  proof (rule that)
    show "k \<le> 34" using k35 by simp
    show "row COL_PAYLOAD_LEN = of_nat k" using a(3) sums(2) [where m = 35 and h = of_nat] k by simp
    fix j assume j: "k \<le> j" "j < 34"
    with k35 have "k \<in> set (filter f [0..<Suc j])" by (auto simp del: upt_Suc)
    then have "0 < length (filter f [0..<Suc j])" by (metis length_pos_if_in_set)
    then have "(of_nat (length (filter f [0..<Suc j])) :: val) \<noteq> of_nat 0"
      using len [of "Suc j"] j by (subst of_nat_val_inject) (auto simp: BABY_BEAR_PRIME_def)
    moreover have "row (COL_PAYLOAD + j) * of_nat (length (filter f [0..<Suc j])) = 0"
      using a(4) [rule_format, OF j(2)] sums(1) [where m = "Suc j"] j by (simp del: upt_Suc)
    ultimately show "row (COL_PAYLOAD + j) = 0" by simp
  qed
qed

section \<open>The table\<close>

text \<open>The documented result of \<open>u32_to_bits_le\<close>.\<close>

definition bits_le_law :: "(u32 \<Rightarrow> val list) \<Rightarrow> bool" where
  "bits_le_law B \<longleftrightarrow> (\<forall>v. B v = map (\<lambda>i. of_bool (bit v i)) [0..<32])"

definition compression_lookup_values :: "compression \<Rightarrow> val list" where
  "compression_lookup_values c = map from_u8
     (concat (map to_le_bytes (co_block_words c)) @ concat (map to_le_bytes (co_cv_words c))
      @ to_le_bytes (co_counter c) @ to_le_bytes (co_block_len c) @ to_le_bytes (co_flags c)
      @ concat (map to_le_bytes (co_output_words c)))"

text \<open>A compression with its output, and a row that holds it.\<close>

definition compression_ok :: "compression \<Rightarrow> bool" where
  "compression_ok c \<longleftrightarrow> length (co_block_words c) = 16 \<and> length (co_cv_words c) = 8
     \<and> co_output_words c = take 8 (compress (co_block_words c) (co_cv_words c) (co_counter c) (co_block_len c) (co_flags c))"

definition words_at :: "(u32 \<Rightarrow> val list) \<Rightarrow> row \<Rightarrow> nat \<Rightarrow> u32 list \<Rightarrow> bool" where
  "words_at B row off ws \<longleftrightarrow> (\<forall>i < length ws. word_at B row (off + i * 32) (ws ! i))"

definition row_holds :: "(u32 \<Rightarrow> val list) \<Rightarrow> row \<Rightarrow> compression \<Rightarrow> bool" where
  "row_holds B row c \<longleftrightarrow> words_at B row B3_INPUTS_OFFSET (co_block_words c)
     \<and> words_at B row B3_CHAINING_VALUES_OFFSET (co_cv_words c)
     \<and> word_at B row B3_COUNTER_LOW_OFFSET (ucast (co_counter c))
     \<and> word_at B row B3_COUNTER_HI_OFFSET (ucast (drop_bit 32 (co_counter c)))
     \<and> word_at B row B3_BLOCK_LEN_OFFSET (co_block_len c) \<and> word_at B row B3_FLAGS_OFFSET (co_flags c)
     \<and> words_at B row B3_OUTPUTS_OFFSET (co_output_words c)"

lemma length_half_round_at_rounds:
  "length s = 16 \<Longrightarrow> length (g s a b c d mx my) = 16"
  by (simp add: g_def Let_def)

lemma length_rounds: "length s = 16 \<Longrightarrow> length (rounds n s m) = 16"
  by (induction n arbitrary: s m) (simp_all add: round_def Let_def length_half_round_at_rounds)

lemma length_feed_forward: "length (feed_forward cv s) = length s"
proof -
  have "length (fold (\<lambda>i state. let state = state[i := state ! i XOR state ! (i + 8)]
      in state[i + 8 := state ! (i + 8) XOR cv ! i]) xs s) = length s" for xs
    by (induction xs arbitrary: s) (simp_all add: Let_def)
  then show ?thesis by (simp only: feed_forward_def)
qed

lemma length_compress [simp]: "length (compress b cv ctr len fl) = 16"
  by (simp add: compress_def Let_def length_feed_forward length_rounds)

lemma compression_of_ok: "length b = 16 \<Longrightarrow> length cv = 8 \<Longrightarrow> compression_ok (compression_of b cv ctr len fl)"
  by (simp add: compression_ok_def)

lemma fill_trace_row_holds:
  assumes "compression_ok c"
  shows "row_holds B (fill_trace_row B row c) c"
proof -
  from assms have len: "length (co_block_words c) = 16" "length (co_cv_words c) = 8" by (auto simp: compression_ok_def)
  have "words_at B (fill_trace_row B row c) B3_OUTPUTS_OFFSET (co_output_words c)"
    using assms fill_trace_row_outputs [of _ B row c] by (simp add: words_at_def compression_ok_def)
  then show ?thesis using fill_trace_row_inputs [OF len, where B = B and row = row] by (simp add: row_holds_def words_at_def len)
qed

text \<open>The bytes of a word, from its bits.\<close>

lemma rev_be_bytes_nth: "k < n \<Longrightarrow> rev (be_bytes n v) ! k = of_nat (v div 256 ^ k mod 256)"
proof (induction n arbitrary: v k)
  case (Suc n)
  then show ?case by (cases k) (simp_all add: div_mult2_eq)
qed simp

lemma bit_to_le_bytes:
  fixes w :: "'a::len word"
  assumes "k < LENGTH('a) div 8" "j < 8"
  shows "bit (to_le_bytes w ! k) j = bit w (8 * k + j)"
proof -
  have "256 ^ k = (2 :: nat) ^ (8 * k)" by (simp add: power_mult)
  then have "to_le_bytes w ! k = (of_nat (take_bit 8 (drop_bit (8 * k) (unat w))) :: u8)"
    using assms(1) by (simp add: to_le_bytes_def to_be_bytes_def rev_be_bytes_nth take_bit_eq_mod drop_bit_eq_div)
  then show ?thesis using assms(2) by (simp add: bit_simps)
qed

lemma length_to_le_bytes [simp]:
  "length (to_le_bytes (w8 :: u8)) = 1" "length (to_le_bytes (w32 :: u32)) = 4" "length (to_le_bytes (w64 :: u64)) = 8"
  by (simp_all add: to_le_bytes_def)

lemma byte_expr_of_word:
  assumes "bits_le_law B" "word_at B row off w" "k < 4"
  shows "byte_expr_from_bits row (off + k * 8) = from_u8 (to_le_bytes w ! k)"
proof -
  have cell: "row (off + k * 8 + b) = of_bool (bit w (8 * k + b))" if "b < 8" for b
  proof -
    have "k * 8 + b < 32" using assms(3) that by simp
    then show ?thesis using assms(1,2) by (simp add: word_at_def bits_le_law_def add.assoc mult.commute)
  qed
  then have "byte_expr_from_bits row (off + k * 8) = (\<Sum>b\<leftarrow>[0..<8]. of_bool (bit w (8 * k + b)) * of_nat (2 ^ b))"
    unfolding byte_expr_from_bits_def by (intro arg_cong [where f = sum_list] map_cong refl) (simp add: cell)
  also have "\<dots> = from_u8 (to_le_bytes w ! k)"
    unfolding sum_bits_eq_byte using assms(3) by (simp add: bit_to_le_bytes)
  finally show ?thesis .
qed

lemma word_byte_exprs_words:
  assumes "bits_le_law B" "words_at B row off ws"
  shows "word_byte_exprs row off (length ws) = map from_u8 (concat (map to_le_bytes ws))"
proof -
  have "map (\<lambda>byte. byte_expr_from_bits row (off + i * 32 + byte * 8)) [0..<4] = map from_u8 (to_le_bytes (ws ! i))"
    if "i < length ws" for i
  proof -
    have "word_at B row (off + i * 32) (ws ! i)" using assms(2) that by (simp add: words_at_def)
    then have "map (\<lambda>byte. byte_expr_from_bits row (off + i * 32 + byte * 8)) [0..<4]
        = map (\<lambda>k. from_u8 (to_le_bytes (ws ! i) ! k)) [0..<4]"
      by (intro map_cong refl) (simp add: byte_expr_of_word [OF assms(1)])
    then show ?thesis by (simp add: list_eq_iff_nth_eq)
  qed
  then have "word_byte_exprs row off (length ws) = concat (map (\<lambda>i. map from_u8 (to_le_bytes (ws ! i))) [0..<length ws])"
    unfolding word_byte_exprs_def by (intro arg_cong [where f = concat] map_cong refl) simp
  also have "map (\<lambda>i. map from_u8 (to_le_bytes (ws ! i))) [0..<length ws] = map (\<lambda>w. map from_u8 (to_le_bytes w)) ws"
    by (rule nth_equalityI) simp_all
  finally show ?thesis by (simp add: map_concat comp_def)
qed

lemma word_byte_exprs_word:
  assumes "bits_le_law B" "word_at B row off w"
  shows "word_byte_exprs row off 1 = map from_u8 (to_le_bytes w)"
  using word_byte_exprs_words [OF assms(1), of row off "[w]"] assms(2) by (simp add: words_at_def)

lemma to_le_bytes_u64:
  "to_le_bytes (w :: u64) = to_le_bytes (ucast w :: u32) @ to_le_bytes (ucast (drop_bit 32 w) :: u32)"
proof (rule nth_equalityI)
  fix i assume i: "i < length (to_le_bytes w)"
  have "bit (to_le_bytes w ! i) j
      = bit ((to_le_bytes (ucast w :: u32) @ to_le_bytes (ucast (drop_bit 32 w) :: u32)) ! i) j" if "j < 8" for j
  proof (cases "i < 4")
    case True
    then show ?thesis using that by (simp add: nth_append bit_to_le_bytes bit_simps)
  next
    case False
    then obtain m where m: "i = 4 + m" "m < 4" using i by (auto simp: le_iff_add not_less)
    then show ?thesis using that by (simp add: nth_append bit_to_le_bytes bit_simps add.assoc)
  qed
  then show "to_le_bytes w ! i = (to_le_bytes (ucast w :: u32) @ to_le_bytes (ucast (drop_bit 32 w) :: u32)) ! i"
    by (intro bit_word_eqI) simp
qed simp

text \<open>A row that holds a compression sends the tuple of the compression.\<close>

lemma row_holds_tuple:
  assumes "bits_le_law B" "compression_ok c" "row_holds B row c"
  shows "blake3_table_lookup_exprs row = compression_lookup_values c"
proof -
  from assms(2) have len: "length (co_block_words c) = 16" "length (co_cv_words c) = 8" "length (co_output_words c) = 8"
    by (auto simp: compression_ok_def)
  note word = word_byte_exprs_word [OF assms(1), of row]
  note words = word_byte_exprs_words [OF assms(1), of row]
  have "word_byte_exprs row B3_INPUTS_OFFSET 16 = map from_u8 (concat (map to_le_bytes (co_block_words c)))"
    "word_byte_exprs row B3_CHAINING_VALUES_OFFSET 8 = map from_u8 (concat (map to_le_bytes (co_cv_words c)))"
    "word_byte_exprs row B3_OUTPUTS_OFFSET 8 = map from_u8 (concat (map to_le_bytes (co_output_words c)))"
    using assms(3) words [of B3_INPUTS_OFFSET "co_block_words c"] words [of B3_CHAINING_VALUES_OFFSET "co_cv_words c"]
      words [of B3_OUTPUTS_OFFSET "co_output_words c"] by (simp_all add: row_holds_def len)
  moreover have "word_byte_exprs row B3_COUNTER_LOW_OFFSET 1 = map from_u8 (to_le_bytes (ucast (co_counter c) :: u32))"
    "word_byte_exprs row B3_COUNTER_HI_OFFSET 1 = map from_u8 (to_le_bytes (ucast (drop_bit 32 (co_counter c)) :: u32))"
    "word_byte_exprs row B3_BLOCK_LEN_OFFSET 1 = map from_u8 (to_le_bytes (co_block_len c))"
    "word_byte_exprs row B3_FLAGS_OFFSET 1 = map from_u8 (to_le_bytes (co_flags c))"
    using assms(3) by (auto simp only: row_holds_def intro: word)
  ultimately show ?thesis
    by (simp only: blake3_table_lookup_exprs_def compression_lookup_values_def to_le_bytes_u64 map_append append_assoc)
qed

section \<open>Tuples of bytes\<close>

lemma from_u8_0 [simp]: "from_u8 0 = 0"
  by (simp add: from_u8_def)

lemma compression_lookup_values_bytes: "\<exists>bs. compression_lookup_values c = map from_u8 bs"
  unfolding compression_lookup_values_def by blast

lemma concat_le_bytes_inject:
  "length vs = length ws \<Longrightarrow> concat (map to_le_bytes vs) = concat (map to_le_bytes (ws :: u32 list)) \<longleftrightarrow> vs = ws"
proof (induction vs ws rule: list_induct2)
  case (Cons v vs w ws)
  then show ?case by (simp add: to_le_bytes_def)
qed simp

lemma length_concat_le_bytes [simp]: "length (concat (map to_le_bytes (ws :: u32 list))) = 4 * length ws"
  by (induction ws) simp_all

lemma from_to_le_bytes: "from_le_bytes (to_le_bytes (w :: u32)) = w"
  by (simp add: from_le_bytes_def to_le_bytes_def)

lemma nth_le_bytes:
  "j < length vs \<Longrightarrow> k < 4 \<Longrightarrow> concat (map to_le_bytes (vs :: u32 list)) ! (j * 4 + k) = to_le_bytes (vs ! j) ! k"
proof (induction vs arbitrary: j)
  case (Cons v vs)
  then show ?case by (cases j) (auto simp: nth_append)
qed simp

lemma block_words_bytes:
  assumes "length ws = 16"
  shows "block_words (concat (map to_le_bytes ws)) = ws"
proof (rule nth_equalityI)
  fix i assume "i < length (block_words (concat (map to_le_bytes ws)))"
  then have i: "i < 16" by (simp add: block_words_def)
  have four: "[xs ! 0, xs ! 1, xs ! 2, xs ! 3] = xs" if "length xs = 4" for xs :: bytes
    using list_of_4 [OF that] by simp
  show "block_words (concat (map to_le_bytes ws)) ! i = ws ! i"
    using i assms nth_le_bytes [of i ws 0] nth_le_bytes [of i ws 1] nth_le_bytes [of i ws 2] nth_le_bytes [of i ws 3] four [of "to_le_bytes (ws ! i)"]
    by (simp add: block_words_def Let_def BYTES_PER_WORD_def from_to_le_bytes)
qed (simp add: assms block_words_def)

text \<open>A tuple fixes the compression, and so the output.\<close>

lemma tuple_determines_output:
  assumes ok: "compression_ok c" and len: "length block = 64" "length cv = 8"
    and eq: "map from_u8 (block @ concat (map to_le_bytes cv) @ to_le_bytes (ctr :: u64) @ to_le_bytes (bl :: u32)
      @ to_le_bytes (fl :: u32)) @ outs = compression_lookup_values c"
  shows "outs = map from_u8 (hash_from_words (co_output_words (compression_of (block_words block) cv ctr bl fl)))"
proof -
  from ok have "length (co_block_words c) = 16" "length (co_cv_words c) = 8" by (auto simp: compression_ok_def)
  with eq len have *: "block = concat (map to_le_bytes (co_block_words c))"
    "concat (map to_le_bytes cv) = concat (map to_le_bytes (co_cv_words c))"
    "to_le_bytes ctr = to_le_bytes (co_counter c)" "to_le_bytes bl = to_le_bytes (co_block_len c)"
    "to_le_bytes fl = to_le_bytes (co_flags c)" "outs = map from_u8 (concat (map to_le_bytes (co_output_words c)))"
    by (simp_all add: compression_lookup_values_def)
  then have "block_words block = co_block_words c" "cv = co_cv_words c" "ctr = co_counter c" "bl = co_block_len c" "fl = co_flags c"
    using ok len by (simp_all add: compression_ok_def block_words_bytes concat_le_bytes_inject to_le_bytes_def)
  with * ok show ?thesis by (simp add: hash_from_words_def compression_ok_def)
qed

end
