(* ===== verification/Membership_Soundness.thy ===== *)
theory Membership_Soundness
  imports Membership_Air
begin

text \<open>
  What a satisfying membership trace proves: with the tuples it receives backed by real BLAKE3
  compressions, its rows walk a Merkle path from a leaf of the public index to the public root.
\<close>

section \<open>The received tuples as bytes\<close>

lemma replicate_small:
  "replicate 3 x = [x, x, x]" "replicate 7 x = [x, x, x, x, x, x, x]" "replicate 8 x = [x, x, x, x, x, x, x, x]"
  by (simp_all add: numeral_eq_Suc)

lemma const_u32_byte_exprs: "map (const_u32_byte_expr v) [0..<4] = map from_u8 (to_le_bytes v)"
proof (rule nth_equalityI)
  fix k assume "k < length (map (const_u32_byte_expr v) [0..<4])"
  then have k: "k < 4" by simp
  have "(ucast (drop_bit (k * 8) v AND 0xFF) :: u8) = to_le_bytes v ! k"
  proof (rule bit_word_eqI)
    fix j assume "j < LENGTH(8)"
    then have j: "j < 8" by simp
    have "bit (0xFF :: u32) j" using j by (auto simp: less_Suc_eq numeral_eq_Suc)
    then show "bit (ucast (drop_bit (k * 8) v AND 0xFF) :: u8) j = bit (to_le_bytes v ! k) j"
      using j k by (simp add: bit_to_le_bytes bit_simps mult.commute)
  qed
  then show "map (const_u32_byte_expr v) [0..<4] ! k = map from_u8 (to_le_bytes v) ! k"
    using k by (simp add: const_u32_byte_expr_def)
qed simp

lemma from_u8_of_nat: "n < 256 \<Longrightarrow> from_u8 (of_nat n) = of_nat n"
  by (simp add: from_u8_def unat_of_nat take_bit_nat_eq_self del: of_nat_unat)

lemma small_bytes:
  assumes "n < 256"
  shows "to_be_bytes (as_u64 n) = replicate 7 0 @ [of_nat n]" "to_le_bytes (of_nat n :: u32) = [of_nat n, 0, 0, 0]"
proof -
  have "unat (as_u64 n) = n" using assms by (simp add: unat_as_u64)
  then show "to_be_bytes (as_u64 n) = replicate 7 0 @ [of_nat n]"
    using assms by (simp add: to_be_bytes_def replicate_small)
  have "unat (of_nat n :: u32) = n" using assms by (simp add: unat_of_nat take_bit_nat_eq_self)
  then show "to_le_bytes (of_nat n :: u32) = [of_nat n, 0, 0, 0]"
    using assms by (simp add: to_le_bytes_def to_be_bytes_def)
qed

lemma iv_exprs_bytes: "iv_exprs = map from_u8 (concat (map to_le_bytes IV))"
  by (simp add: iv_exprs_def map_concat comp_def)

lemma zero_counter: "replicate COUNTER_BYTES 0 = map from_u8 (to_le_bytes (0 :: u64))"
  by (simp add: COUNTER_BYTES_def replicate_small to_le_bytes_def to_be_bytes_def)

lemma leaf_tuple_bytes:
  assumes "row COL_SUB_TREE_ID = from_u8 s" "\<forall>o' < 8. row (COL_LEAF_INDEX_BE + o') = from_u8 (to_be_bytes idx ! o')"
    and "row COL_PAYLOAD_LEN = of_nat (length payload)" "length payload \<le> 34"
    and "map (\<lambda>j. row (COL_PAYLOAD + j)) [0..<34] = map from_u8 (payload @ replicate (34 - length payload) 0)"
  shows "leaf_lookup_exprs row = map from_u8 (pad_block (leaf_preimage s idx payload) @ concat (map to_le_bytes IV)
    @ to_le_bytes (0 :: u64) @ to_le_bytes (of_nat (length (leaf_preimage s idx payload)) :: u32) @ to_le_bytes LEAF_FLAGS)
    @ hash_exprs row COL_PREV_NODE"
proof -
  have n: "length payload < 256" "30 + length payload < 256" using assms(4) by auto
  have "map (\<lambda>o'. row (COL_LEAF_INDEX_BE + o')) [0..<LEAF_INDEX_LEN] = map from_u8 (to_be_bytes idx)"
    using assms(2) by (intro nth_equalityI) (simp_all add: LEAF_INDEX_LEN_def)
  moreover have "from_u8 (of_nat (length DOMAIN_LEAF + 1 + LEAF_INDEX_LEN + 8)) + row COL_PAYLOAD_LEN
      = from_u8 (of_nat (30 + length payload))"
    using from_u8_of_nat [of 30] from_u8_of_nat [OF n(2)] by (simp add: LEAF_INDEX_LEN_def assms(3))
  moreover have "length (leaf_preimage s idx payload) = 30 + length payload" by (simp add: leaf_preimage_def)
  ultimately show ?thesis
    using assms(1,3,5) small_bytes [OF n(1)] small_bytes [OF n(2)] from_u8_of_nat [OF n(1)]
    by (simp add: leaf_lookup_exprs_def const_u32_byte_exprs iv_exprs_bytes zero_counter pad_block_def leaf_preimage_def
      LEAF_INDEX_LEN_def U32_BYTES_def replicate_small)
qed

lemma hash_exprs_length [simp]: "length (hash_exprs row off) = 32"
  by (simp add: hash_exprs_def HASH_LEN_def)

lemma hash_exprs_cell:
  assumes "hash_exprs row off = map from_u8 h"
  shows "length h = 32" "i < 32 \<Longrightarrow> row (off + i) = from_u8 (h ! i)"
proof -
  show len: "length h = 32" using arg_cong [OF assms, of length] by simp
  then show "i < 32 \<Longrightarrow> row (off + i) = from_u8 (h ! i)"
    using arg_cong [OF assms, of "\<lambda>xs. xs ! i"] by (simp add: hash_exprs_def HASH_LEN_def)
qed

lemma hash_exprs_part:
  assumes "hash_exprs row off = map from_u8 h"
  shows "map (\<lambda>i. row (off + i)) [0..<19] = map from_u8 (take 19 h)" "map (\<lambda>i. row (off + i)) [19..<32] = map from_u8 (drop 19 h)"
  using hash_exprs_cell [OF assms] by (auto intro!: nth_equalityI simp del: upt_rec_numeral)

lemma node_tuple_bytes:
  assumes "hash_exprs row COL_LEFT_NODE = map from_u8 l" "hash_exprs row COL_RIGHT_NODE = map from_u8 r" "length l = 32" "length r = 32"
  shows "node_first_lookup_exprs row = map from_u8 (take 64 (node_preimage l r) @ concat (map to_le_bytes IV)
      @ to_le_bytes (0 :: u64) @ to_le_bytes (64 :: u32) @ to_le_bytes NODE_FIRST_FLAGS) @ hash_exprs row COL_NODE_MID"
    and "hash_exprs row COL_NODE_MID = map from_u8 (concat (map to_le_bytes cv)) \<Longrightarrow>
      node_second_lookup_exprs row = map from_u8 (pad_block (drop 64 (node_preimage l r)) @ concat (map to_le_bytes cv)
      @ to_le_bytes (0 :: u64) @ to_le_bytes (13 :: u32) @ to_le_bytes NODE_SECOND_FLAGS) @ hash_exprs row COL_CURRENT_NODE"
  using assms hash_exprs_part [OF assms(2)]
  by (simp_all add: node_first_lookup_exprs_def node_second_lookup_exprs_def node_preimage_def const_u32_byte_exprs
    iv_exprs_bytes zero_counter HASH_LEN_def U32_BYTES_def pad_block_def)

text \<open>Cells of a tuple of bytes are bytes.\<close>

lemma map_bytes: "set xs \<subseteq> set (map from_u8 bs) \<Longrightarrow> \<exists>ys. xs = map from_u8 ys"
  by (subst ex_map_conv) auto

lemma received_leaf:
  assumes ok: "compression_ok c" and eq: "leaf_lookup_exprs row = compression_lookup_values c"
    and sel: "vanish (assert_payload_len_selector row)"
    and ids: "row COL_SUB_TREE_ID = from_u8 s" "\<forall>o' < 8. row (COL_LEAF_INDEX_BE + o') = from_u8 (to_be_bytes idx ! o')"
  obtains payload where "length payload \<le> 34"
    "hash_exprs row COL_PREV_NODE = map from_u8 (hash_from_words (co_output_words (leaf_compression s idx payload)))"
proof -
  obtain bs where bs: "leaf_lookup_exprs row = map from_u8 bs" using eq compression_lookup_values_bytes [of c] by auto
  have "set (map (\<lambda>j. row (COL_PAYLOAD + j)) [0..<34]) \<subseteq> set (map from_u8 bs)"
    unfolding bs [symmetric] leaf_lookup_exprs_def by auto
  then obtain pb where pb: "map (\<lambda>j. row (COL_PAYLOAD + j)) [0..<34] = map from_u8 pb" using map_bytes by blast
  then have len: "length pb = 34" by (metis length_map length_upt diff_zero)
  from sel obtain k where k: "k \<le> 34" "row COL_PAYLOAD_LEN = of_nat k"
    "\<And>j. k \<le> j \<Longrightarrow> j < 34 \<Longrightarrow> row (COL_PAYLOAD + j) = 0" using selector_length by blast
  have "pb ! j = 0" if "k \<le> j" "j < 34" for j
  proof -
    have "from_u8 (pb ! j) = row (COL_PAYLOAD + j)"
      using arg_cong [OF pb, of "\<lambda>xs. xs ! j"] that len by simp
    with k(3) [OF that] show ?thesis by (metis from_u8_0 from_u8_inject)
  qed
  then have "pb = take k pb @ replicate (34 - k) 0"
    using len k(1) by (intro nth_equalityI) (auto simp: nth_append)
  with k pb len have "leaf_lookup_exprs row = map from_u8 (pad_block (leaf_preimage s idx (take k pb)) @ concat (map to_le_bytes IV)
    @ to_le_bytes (0 :: u64) @ to_le_bytes (of_nat (length (leaf_preimage s idx (take k pb))) :: u32) @ to_le_bytes LEAF_FLAGS)
    @ hash_exprs row COL_PREV_NODE"
    by (intro leaf_tuple_bytes [OF ids]) (simp_all add: min_absorb2)
  moreover have "length (pad_block (leaf_preimage s idx (take k pb))) = 64" "length IV = 8"
    using k(1) len by (simp_all add: pad_block_def leaf_preimage_def IV_def)
  ultimately have "hash_exprs row COL_PREV_NODE = map from_u8 (hash_from_words (co_output_words (compression_of
      (block_words (pad_block (leaf_preimage s idx (take k pb)))) IV 0 (of_nat (length (leaf_preimage s idx (take k pb)))) LEAF_FLAGS)))"
    using eq by (intro tuple_determines_output [OF ok]) simp_all
  then show ?thesis using k(1) len by (intro that [of "take k pb"]) (simp_all add: leaf_compression_eq)
qed

lemma received_node:
  assumes ok: "compression_ok c1" "compression_ok c2"
    and eq: "node_first_lookup_exprs row = compression_lookup_values c1" "node_second_lookup_exprs row = compression_lookup_values c2"
  obtains l r where "length l = 32" "length r = 32" "hash_exprs row COL_LEFT_NODE = map from_u8 l"
    "hash_exprs row COL_RIGHT_NODE = map from_u8 r"
    "hash_exprs row COL_CURRENT_NODE = map from_u8 (hash_from_words (co_output_words (snd (node_compressions l r))))"
proof -
  obtain b1 b2 where b: "node_first_lookup_exprs row = map from_u8 b1" "node_second_lookup_exprs row = map from_u8 b2"
    using eq compression_lookup_values_bytes by metis
  have "set (hash_exprs row COL_LEFT_NODE) \<subseteq> set (map from_u8 b1)" unfolding b [symmetric] node_first_lookup_exprs_def by auto
  then obtain l where l: "hash_exprs row COL_LEFT_NODE = map from_u8 l" using map_bytes by blast
  have "[0..<32] = [0..<19] @ [19..<32 :: nat]" using upt_add_eq_append [of 0 19 13] by simp
  then have "set (hash_exprs row COL_RIGHT_NODE) \<subseteq> set (map from_u8 (b1 @ b2))"
    unfolding map_append set_append b [symmetric] node_first_lookup_exprs_def node_second_lookup_exprs_def
    by (auto simp: hash_exprs_def HASH_LEN_def)
  then obtain r where r: "hash_exprs row COL_RIGHT_NODE = map from_u8 r" using map_bytes by blast
  have len: "length l = 32" "length r = 32" using arg_cong [OF l, of length] arg_cong [OF r, of length] by simp_all
  have pre: "length (take 64 (node_preimage l r)) = 64" "length (pad_block (drop 64 (node_preimage l r))) = 64" "length IV = 8"
    using len by (simp_all add: node_preimage_def pad_block_def IV_def)
  let ?c1 = "compression_of (block_words (take 64 (node_preimage l r))) IV 0 64 NODE_FIRST_FLAGS"
  have "hash_exprs row COL_NODE_MID = map from_u8 (hash_from_words (co_output_words ?c1))"
    using eq(1) node_tuple_bytes(1) [OF l r len] pre by (intro tuple_determines_output [OF ok(1)]) simp_all
  then have "hash_exprs row COL_CURRENT_NODE = map from_u8 (hash_from_words (co_output_words (compression_of
      (block_words (pad_block (drop 64 (node_preimage l r)))) (co_output_words ?c1) 0 13 NODE_SECOND_FLAGS)))"
    using eq(2) node_tuple_bytes(2) [OF l r len, of "co_output_words ?c1"] pre
    by (intro tuple_determines_output [OF ok(2)]) (simp_all add: hash_from_words_def)
  then show ?thesis using len l r by (intro that [of l r]) (simp_all add: node_compressions_eq Let_def)
qed

section \<open>Rows of a satisfying trace\<close>

text \<open>The public values as field elements, and what they say of a public input.\<close>

definition public_cells :: "(nat \<Rightarrow> val) \<Rightarrow> claim_public_inputs \<Rightarrow> bool" where
  "public_cells pub p \<longleftrightarrow> pub 0 = from_u8 (cp_sub_tree_id p)
     \<and> (\<forall>o' < 8. pub (1 + o') = from_u8 (to_be_bytes (cp_leaf_index p) ! o')) \<and> pub 9 = from_u8 (cp_tree_depth p)
     \<and> (\<forall>i < 32. pub (10 + i) = from_u8 (cp_per_sub_tree_root p ! i))"

text \<open>Every tuple that a row receives is the tuple of a compression.\<close>

definition row_backed :: "row \<Rightarrow> bool" where
  "row_backed row \<longleftrightarrow> (\<forall>(t, m) \<in> set (membership_lookups row). m \<noteq> 0 \<longrightarrow>
     (\<exists>c. compression_ok c \<and> t = compression_lookup_values c))"

text \<open>The remaining index bits of a row are the bits of \<open>w\<close>.\<close>

definition index_bits :: "row \<Rightarrow> u64 \<Rightarrow> bool" where
  "index_bits row w \<longleftrightarrow> (\<forall>b < 64. row (COL_REMAINING_INDEX_BITS + b) = of_bool (bit w b))"

lemma public_index_byte:
  assumes "public_cells pub p" "k < 8"
  shows "pub (8 - k) = from_u8 (to_le_bytes (cp_leaf_index p) ! k)"
proof -
  have "8 - k = 1 + (7 - k)" using assms(2) by simp
  then show ?thesis using assms by (simp add: public_cells_def to_le_bytes_def rev_nth)
qed

lemma index_bits_first:
  assumes "vanish (first_step_constraints row pub)" "vanish (real_constraints row pub)" "public_cells pub p"
    and "row COL_IS_FIRST_STEP = 1" "row COL_IS_REAL_STEP = 1"
  shows "index_bits row (cp_leaf_index p)"
proof -
  let ?w = "cp_leaf_index p"
  have "\<forall>b < 64. row (COL_REMAINING_INDEX_BITS + b) = 0 \<or> row (COL_REMAINING_INDEX_BITS + b) = 1"
    using assms(2,5) by (simp add: real_vanish)
  then obtain f where f: "\<And>b. b < 64 \<Longrightarrow> row (COL_REMAINING_INDEX_BITS + b) = of_bool (f b)" using bool_cells by blast
  have bits: "f (k * 8 + j) = bit ?w (8 * k + j)" if "k < 8" "j < 8" for k j
  proof -
    have "pub (8 - k) = from_u8 (to_le_bytes ?w ! k)" by (rule public_index_byte [OF assms(3) that(1)])
    moreover have "(\<Sum>b\<leftarrow>[0..<8]. row (COL_REMAINING_INDEX_BITS + k * 8 + b) * of_nat (2 ^ b)) = pub (8 - k)"
      using assms(1,4) that(1) by (simp add: first_step_vanish)
    moreover have "map (\<lambda>b. row (COL_REMAINING_INDEX_BITS + k * 8 + b) * of_nat (2 ^ b)) [0..<8]
        = map (\<lambda>b. of_bool (f (k * 8 + b)) * of_nat (2 ^ b)) [0..<8]"
      using that(1) f by (intro map_cong refl) (simp add: add.assoc)
    ultimately have "(\<Sum>b\<leftarrow>[0..<8]. of_bool (f (k * 8 + b)) * of_nat (2 ^ b)) = from_u8 (to_le_bytes ?w ! k)" by (simp only:)
    then have "f (k * 8 + j) = bit (to_le_bytes ?w ! k) j" unfolding sum_bits_eq_byte using that by blast
    then show ?thesis using that by (simp add: bit_to_le_bytes)
  qed
  have "f b = bit ?w b" if "b < 64" for b
    using bits [of "b div 8" "b mod 8"] that by (simp add: less_mult_imp_div_less mult.commute [of 8] del: mult.commute)
  with f show ?thesis by (simp add: index_bits_def)
qed

lemma index_bits_next:
  assumes "index_bits row w" "\<forall>b < 63. next (COL_REMAINING_INDEX_BITS + b) = row (COL_REMAINING_INDEX_BITS + Suc b)"
    and "next (COL_REMAINING_INDEX_BITS + 63) = 0"
  shows "index_bits next (w div 2)"
proof -
  have "bit (w div 2) b = bit w (Suc b)" for b by (simp add: bit_Suc)
  moreover have "\<not> bit w 64" using bit_imp_le_length [of w 64] by auto
  ultimately have "next (COL_REMAINING_INDEX_BITS + b) = of_bool (bit (w div 2) b)" if "b < 64" for b
    using assms(2,3) that assms(1) [unfolded index_bits_def, rule_format, of "Suc b"] by (cases "b = 63") auto
  then show ?thesis by (simp add: index_bits_def)
qed

lemma node_step:
  assumes law: "blake3_law H" and backed: "row_backed row" and vanish: "vanish (flag_constraints row)" "vanish (node_constraints row)"
    and flags: "row COL_IS_REAL_STEP = 1" "row COL_HAS_NODE_HASH = 1"
    and bits: "index_bits row w" and prev: "hash_exprs row COL_PREV_NODE = map from_u8 prev"
  obtains sib where "length sib = 32" "hash_exprs row COL_CURRENT_NODE
    = map from_u8 (if w AND 1 = 0 then node_hash_v2 H prev sib else node_hash_v2 H sib prev)"
proof -
  from backed flags obtain c1 c2 where "compression_ok c1" "compression_ok c2"
    "node_first_lookup_exprs row = compression_lookup_values c1" "node_second_lookup_exprs row = compression_lookup_values c2"
    by (auto simp: row_backed_def membership_lookups_def)
  then obtain l r where lr: "length l = 32" "length r = 32" "hash_exprs row COL_LEFT_NODE = map from_u8 l"
    "hash_exprs row COL_RIGHT_NODE = map from_u8 r"
    "hash_exprs row COL_CURRENT_NODE = map from_u8 (hash_from_words (co_output_words (snd (node_compressions l r))))"
    by (rule received_node)
  then have cur: "hash_exprs row COL_CURRENT_NODE = map from_u8 (node_hash_v2 H l r)"
    by (simp add: node_compressions_hash [OF law])
  have "row COL_DIRECTION_BIT = of_bool (bit w 0)"
    using vanish(2) flags bits [unfolded index_bits_def, rule_format, of 0] by (simp add: node_vanish)
  then have dir: "row COL_DIRECTION_BIT = of_bool (w AND 1 \<noteq> 0)"
    by (simp add: bit_0 and_one_eq even_iff_mod_2_eq_zero)
  show ?thesis
  proof (cases "w AND 1 = 0")
    case True
    with dir vanish(2) flags have "hash_exprs row COL_LEFT_NODE = hash_exprs row COL_PREV_NODE" by (simp add: node_vanish)
    with prev lr(3) have "l = prev" by simp
    with cur True lr show ?thesis by (intro that [of r]) simp_all
  next
    case False
    with dir vanish(2) flags have "hash_exprs row COL_RIGHT_NODE = hash_exprs row COL_PREV_NODE" by (simp add: node_vanish)
    with prev lr(4) have "r = prev" by simp
    with cur False lr show ?thesis by (intro that [of l]) simp_all
  qed
qed

lemma leaf_step:
  assumes law: "blake3_law H" and backed: "row_backed row" and "vanish (real_constraints row pub)" "public_cells pub p"
    and "row COL_IS_FIRST_STEP = 1" "row COL_IS_REAL_STEP = 1"
  obtains payload where "length payload \<le> 34"
    "hash_exprs row COL_PREV_NODE = map from_u8 (leaf_hash_v2 H (cp_sub_tree_id p) (cp_leaf_index p) payload)"
proof -
  from backed assms(5) obtain c where c: "compression_ok c" "leaf_lookup_exprs row = compression_lookup_values c"
    by (auto simp: row_backed_def membership_lookups_def Let_def)
  from assms have "vanish (assert_payload_len_selector row)" "row COL_SUB_TREE_ID = from_u8 (cp_sub_tree_id p)"
    "\<forall>o' < 8. row (COL_LEAF_INDEX_BE + o') = from_u8 (to_be_bytes (cp_leaf_index p) ! o')"
    by (auto simp: real_vanish public_cells_def)
  from received_leaf [OF c this] that leaf_compression_hash [OF law] show ?thesis by metis
qed

lemma walk_v1_path_snoc:
  "walk_v1_path H c idx (path @ [sib]) = (let cur = walk_v1_path H c idx path in
     if drop_bit (length path) idx AND 1 = 0 then node_hash_v2 H cur sib else node_hash_v2 H sib cur)"
proof (induction path arbitrary: c idx)
  case (Cons s path)
  have "drop_bit (length path) (idx div 2) = drop_bit (Suc (length path)) idx"
    by (simp add: drop_bit_Suc)
  with Cons show ?case by (simp add: Let_def)
qed (simp add: Let_def)

section \<open>Soundness of a trace\<close>

abbreviation continuing :: "row \<Rightarrow> bool" where
  "continuing row \<equiv> row COL_IS_REAL_STEP = 1 \<and> row COL_IS_LAST_STEP = 0"

lemma satisfied_row:
  assumes "membership_satisfied tr pub" "i < length tr"
  shows "vanish (flag_constraints (tr ! i))" "vanish (real_constraints (tr ! i) pub)"
    "vanish (first_step_constraints (tr ! i) pub)" "vanish (node_constraints (tr ! i))" "vanish (stop_constraints (tr ! i) pub)"
    "Suc i < length tr \<Longrightarrow> vanish (transition_constraints (tr ! i) (tr ! Suc i))"
    "Suc i = length tr \<Longrightarrow> vanish (last_row_constraints (tr ! i))" "vanish (padding_constraints (tr ! i))"
  using assms by (auto simp only: membership_satisfied_iff)

lemma satisfied_first:
  assumes "membership_satisfied tr pub"
  shows "0 < length tr" "(tr ! 0) COL_IS_REAL_STEP = 1" "(tr ! 0) COL_IS_FIRST_STEP = 1" "(tr ! 0) COL_PATH_STEP_INDEX = 0"
  using assms by (auto simp: membership_satisfied_iff first_row_constraints_def assert_zero_iff)

lemma satisfied_next:
  assumes "membership_satisfied tr pub" "Suc i < length tr" "continuing (tr ! i)"
  shows "(tr ! Suc i) COL_IS_REAL_STEP = 1" "(tr ! Suc i) COL_PATH_STEP_INDEX = (tr ! i) COL_PATH_STEP_INDEX + 1"
    "hash_exprs (tr ! Suc i) COL_PREV_NODE = hash_exprs (tr ! i) COL_CURRENT_NODE"
    "index_bits (tr ! i) w \<Longrightarrow> index_bits (tr ! Suc i) (w div 2)"
  using assms satisfied_row(1,6) [OF assms(1), of i] index_bits_next [of "tr ! i" w "tr ! Suc i"]
  by (auto simp: transition_vanish)

lemma satisfied_last:
  assumes sat: "membership_satisfied tr pub"
  obtains n where "n < length tr" "\<forall>j < n. continuing (tr ! j)" "(tr ! n) COL_IS_REAL_STEP = 1" "(tr ! n) COL_IS_LAST_STEP = 1"
proof -
  define n where "n = (LEAST i. \<not> continuing (tr ! i))"
  have end_row: "\<not> continuing (tr ! (length tr - 1))" and pos: "0 < length tr"
    using satisfied_row(7) [OF sat, of "length tr - 1"] satisfied_first(1) [OF sat] by (auto simp: last_row_vanish)
  have n: "\<not> continuing (tr ! n)" "\<forall>j < n. continuing (tr ! j)"
    unfolding n_def using LeastI [of "\<lambda>i. \<not> continuing (tr ! i)", OF end_row] not_less_Least by blast+
  have "n < length tr" using Least_le [of "\<lambda>i. \<not> continuing (tr ! i)", OF end_row] pos unfolding n_def by linarith
  moreover have "(tr ! n) COL_IS_REAL_STEP = 1"
  proof (cases n)
    case 0
    then show ?thesis using satisfied_first(2) [OF sat] by simp
  next
    case (Suc m)
    then show ?thesis using satisfied_next(1) [OF sat, of m] n(2) \<open>n < length tr\<close> by simp
  qed
  moreover have "(tr ! n) COL_IS_LAST_STEP = 1"
    using n(1) calculation satisfied_row(1) [OF sat, of n] by (auto simp: flags_vanish)
  ultimately show ?thesis using n(2) that by blast
qed

lemma real_row_node:
  assumes "membership_satisfied tr pub" "i < length tr" "public_cells pub p" "(tr ! i) COL_IS_REAL_STEP = 1"
  shows "(tr ! i) COL_TREE_DEPTH = from_u8 (cp_tree_depth p)"
    "(tr ! i) COL_HAS_NODE_HASH = of_bool ((tr ! i) COL_HAS_NODE_HASH = 1)"
    "(tr ! i) COL_HAS_NODE_HASH = 0 \<Longrightarrow> cp_tree_depth p = 0 \<and>
       hash_exprs (tr ! i) COL_CURRENT_NODE = hash_exprs (tr ! i) COL_PREV_NODE"
proof -
  show d: "(tr ! i) COL_TREE_DEPTH = from_u8 (cp_tree_depth p)"
    using assms satisfied_row(2) [OF assms(1,2)] by (simp add: real_vanish public_cells_def)
  show "(tr ! i) COL_HAS_NODE_HASH = of_bool ((tr ! i) COL_HAS_NODE_HASH = 1)"
    using satisfied_row(1) [OF assms(1,2)] by (auto simp: flags_vanish)
  assume "(tr ! i) COL_HAS_NODE_HASH = 0"
  with assms(4) satisfied_row(4) [OF assms(1,2)] d
  have "from_u8 (cp_tree_depth p) = from_u8 0" "hash_exprs (tr ! i) COL_CURRENT_NODE = hash_exprs (tr ! i) COL_PREV_NODE"
    by (auto simp: node_vanish)
  then show "cp_tree_depth p = 0 \<and> hash_exprs (tr ! i) COL_CURRENT_NODE = hash_exprs (tr ! i) COL_PREV_NODE"
    by (simp only: from_u8_inject)
qed

lemma trace_steps:
  assumes sat: "membership_satisfied tr pub"
  shows "i < length tr \<Longrightarrow> \<forall>j < i. continuing (tr ! j) \<Longrightarrow> (tr ! i) COL_PATH_STEP_INDEX = of_nat i"
proof (induction i)
  case (Suc i)
  then have "(tr ! Suc i) COL_PATH_STEP_INDEX = (tr ! i) COL_PATH_STEP_INDEX + 1"
    by (intro satisfied_next(2) [OF sat]) simp_all
  with Suc show ?case by simp
qed (simp add: satisfied_first(4) [OF sat])

lemma node_hash_at:
  assumes law: "blake3_law H" and sat: "membership_satisfied tr pub" and pub: "public_cells pub p"
    and backed: "\<forall>row \<in> set tr. row_backed row" and depth: "cp_tree_depth p \<noteq> 0"
    and i: "i < length tr" "(tr ! i) COL_IS_REAL_STEP = 1" "index_bits (tr ! i) (drop_bit i idx)" "length path = i"
    and prev: "hash_exprs (tr ! i) COL_PREV_NODE = map from_u8 (walk_v1_path H leaf idx path)"
  obtains sib where "(tr ! i) COL_HAS_NODE_HASH = 1" "length sib = 32"
    "hash_exprs (tr ! i) COL_CURRENT_NODE = map from_u8 (walk_v1_path H leaf idx (path @ [sib]))"
proof -
  have "(tr ! i) COL_HAS_NODE_HASH = 1"
    using real_row_node(2,3) [OF sat i(1) pub i(2)] depth by (metis of_bool_eq(1) of_bool_eq(2))
  then show ?thesis
    using node_step [OF law _ satisfied_row(1,4) [OF sat i(1)] i(2) _ i(3) prev] backed i(1,4) that
    by (auto simp: walk_v1_path_snoc Let_def)
qed

lemma trace_walk:
  assumes law: "blake3_law H" and sat: "membership_satisfied tr pub" and pub: "public_cells pub p"
    and backed: "\<forall>row \<in> set tr. row_backed row" and depth: "cp_tree_depth p \<noteq> 0"
    and leaf: "hash_exprs (tr ! 0) COL_PREV_NODE = map from_u8 leaf"
  shows "i < length tr \<Longrightarrow> \<forall>j < i. continuing (tr ! j) \<Longrightarrow>
    (tr ! i) COL_IS_REAL_STEP = 1 \<and> index_bits (tr ! i) (drop_bit i (cp_leaf_index p))
    \<and> (\<exists>path. length path = i \<and> list_all hash_wf path
        \<and> hash_exprs (tr ! i) COL_PREV_NODE = map from_u8 (walk_v1_path H leaf (cp_leaf_index p) path))"
proof (induction i)
  case 0
  have "index_bits (tr ! 0) (cp_leaf_index p)"
    using index_bits_first [OF satisfied_row(3,2) [OF sat] pub] satisfied_first [OF sat] by simp
  then show ?case using satisfied_first [OF sat] leaf by simp
next
  case (Suc i)
  then have cont: "continuing (tr ! i)" and i: "i < length tr" by simp_all
  from Suc obtain path where IH: "index_bits (tr ! i) (drop_bit i (cp_leaf_index p))"
    "length path = i" "list_all hash_wf path"
    "hash_exprs (tr ! i) COL_PREV_NODE = map from_u8 (walk_v1_path H leaf (cp_leaf_index p) path)" by auto
  from node_hash_at [OF law sat pub backed depth i _ IH(1,2,4)] cont obtain sib where
    "length sib = 32" "hash_exprs (tr ! i) COL_CURRENT_NODE = map from_u8 (walk_v1_path H leaf (cp_leaf_index p) (path @ [sib]))"
    by blast
  then have "length (path @ [sib]) = Suc i" "list_all hash_wf (path @ [sib])"
    "hash_exprs (tr ! Suc i) COL_PREV_NODE = map from_u8 (walk_v1_path H leaf (cp_leaf_index p) (path @ [sib]))"
    using IH(2,3) satisfied_next(3) [OF sat Suc.prems(1) cont] by simp_all
  moreover have "drop_bit i (cp_leaf_index p) div 2 = drop_bit (Suc i) (cp_leaf_index p)"
    by (simp add: drop_bit_Suc drop_bit_half)
  ultimately show ?case
    using satisfied_next [OF sat Suc.prems(1) cont] IH(1) by metis
qed

lemma trace_stop:
  assumes sat: "membership_satisfied tr pub" and pub: "public_cells pub p" and len: "length tr < BABY_BEAR_PRIME"
    and root: "length (cp_per_sub_tree_root p) = 32"
  obtains n where "n < length tr" "\<forall>j < n. continuing (tr ! j)" "(tr ! n) COL_IS_REAL_STEP = 1"
    "hash_exprs (tr ! n) COL_CURRENT_NODE = map from_u8 (cp_per_sub_tree_root p)"
    "n + of_bool ((tr ! n) COL_HAS_NODE_HASH = 1) = unat (cp_tree_depth p)"
proof -
  obtain n where n: "n < length tr" "\<forall>j < n. continuing (tr ! j)" "(tr ! n) COL_IS_REAL_STEP = 1" "(tr ! n) COL_IS_LAST_STEP = 1"
    using satisfied_last [OF sat] by blast
  let ?m = "n + of_bool ((tr ! n) COL_HAS_NODE_HASH = 1)"
  have "(tr ! n) COL_PATH_STEP_INDEX = of_nat n" by (rule trace_steps [OF sat n(1,2)])
  then have stop: "of_nat n + (tr ! n) COL_HAS_NODE_HASH = of_nat (unat (cp_tree_depth p))"
    "hash_exprs (tr ! n) COL_CURRENT_NODE = map from_u8 (cp_per_sub_tree_root p)"
    using satisfied_row(5) [OF sat n(1)] n(3,4) real_row_node(1) [OF sat n(1) pub n(3)] pub root
    by (auto simp: stop_vanish public_cells_def hash_exprs_def HASH_LEN_def from_u8_def list_eq_iff_nth_eq simp del: upt_rec_numeral)
  have "(of_nat ?m :: val) = of_nat (unat (cp_tree_depth p))"
    using stop(1) real_row_node(2) [OF sat n(1) pub n(3)] by (metis of_nat_add of_nat_of_bool)
  moreover have "unat (cp_tree_depth p) < BABY_BEAR_PRIME"
    using unsigned_less [of "cp_tree_depth p", where ?'a = nat] by (simp add: BABY_BEAR_PRIME_def)
  moreover have "?m < BABY_BEAR_PRIME" using n(1) len by simp
  ultimately have "?m = unat (cp_tree_depth p)" by (subst (asm) of_nat_val_inject) auto
  with n stop(2) show ?thesis using that by blast
qed

lemma trace_sound:
  assumes law: "blake3_law H" and sat: "membership_satisfied tr pub" and pub: "public_cells pub p"
    and backed: "\<forall>row \<in> set tr. row_backed row" and len: "length tr < BABY_BEAR_PRIME" and root: "length (cp_per_sub_tree_root p) = 32"
  shows "\<exists>payload path. membership_statement H p payload path"
proof -
  let ?leaf = "leaf_hash_v2 H (cp_sub_tree_id p) (cp_leaf_index p)" and ?idx = "cp_leaf_index p"
  obtain payload where payload: "length payload \<le> 34" "hash_exprs (tr ! 0) COL_PREV_NODE = map from_u8 (?leaf payload)"
    using leaf_step [OF law _ satisfied_row(2) [OF sat] pub] satisfied_first [OF sat] backed by (metis nth_mem)
  from trace_stop [OF sat pub len root] obtain n where n: "n < length tr" "\<forall>j < n. continuing (tr ! j)" "(tr ! n) COL_IS_REAL_STEP = 1"
    "hash_exprs (tr ! n) COL_CURRENT_NODE = map from_u8 (cp_per_sub_tree_root p)"
    "n + of_bool ((tr ! n) COL_HAS_NODE_HASH = 1) = unat (cp_tree_depth p)" by blast
  show ?thesis
  proof (cases "cp_tree_depth p = 0")
    case True
    with n(5) have "n = 0" "(tr ! n) COL_HAS_NODE_HASH \<noteq> 1" by auto
    with real_row_node(2) [OF sat n(1) pub n(3)] have "n = 0" "(tr ! n) COL_HAS_NODE_HASH = 0" by (metis of_bool_eq(1))+
    with real_row_node(3) [OF sat n(1) pub n(3)] n(4) payload(2) have "?leaf payload = cp_per_sub_tree_root p" by simp
    with payload(1) True show ?thesis
      by (intro exI [of _ payload] exI [of _ "[]"]) (simp add: membership_statement_def)
  next
    case False
    from trace_walk [OF law sat pub backed False payload(2) n(1,2)] obtain path where path: "length path = n" "list_all hash_wf path"
      "index_bits (tr ! n) (drop_bit n ?idx)"
      "hash_exprs (tr ! n) COL_PREV_NODE = map from_u8 (walk_v1_path H (?leaf payload) ?idx path)" by blast
    from node_hash_at [OF law sat pub backed False n(1,3) path(3,1,4)] obtain sib where
      sib: "(tr ! n) COL_HAS_NODE_HASH = 1" "length sib = 32"
        "hash_exprs (tr ! n) COL_CURRENT_NODE = map from_u8 (walk_v1_path H (?leaf payload) ?idx (path @ [sib]))" by blast
    then show ?thesis using payload(1) path(1,2) n(4,5)
      by (intro exI [of _ payload] exI [of _ "path @ [sib]"]) (simp add: membership_statement_def)
  qed
qed

section \<open>Soundness of a batch\<close>

text \<open>
  What the proof library documents of an accepted batch: traces exist that satisfy every AIR of
  the batch with the public values of the batch, and whose lookups balance. \<open>A\<close> stands for the
  constraints of \<open>p3_blake3_air\<close> on a row of the table; a trace has fewer rows than the field
  has elements, so that the counts of the lookup argument do not wrap.
\<close>

definition public_of :: "nat list \<Rightarrow> nat \<Rightarrow> val" where
  "public_of values i = of_nat (values ! i)"

definition batch_satisfied :: "(row \<Rightarrow> bool) \<Rightarrow> nat list list \<Rightarrow> row list list \<Rightarrow> row list \<Rightarrow> bool" where
  "batch_satisfied A values traces table \<longleftrightarrow>
     length values = Suc (length traces)
     \<and> (\<forall>i < length traces. membership_satisfied (traces ! i) (public_of (values ! i)))
     \<and> list_all A table \<and> 3 * length (concat traces) < BABY_BEAR_PRIME
     \<and> lookups_balanced (concat (map blake3_lookups table)) (concat (map membership_lookups (concat traces)))"

definition stark_sound :: "(row \<Rightarrow> bool) \<Rightarrow> 'p stark_lib \<Rightarrow> bool" where
  "stark_sound A V \<longleftrightarrow> (\<forall>seed n prf values. verify_batch V seed (proof_airs n) prf values \<longrightarrow>
     length values = Suc n \<longrightarrow> (\<exists>traces table. batch_satisfied A values traces table))"

text \<open>A row that satisfies the AIR of the table holds a compression with its output.\<close>

definition word_bits :: "u32 \<Rightarrow> val list" where
  "word_bits v = map (\<lambda>i. of_bool (bit v i)) [0..<32]"

definition blake3_air_law :: "(row \<Rightarrow> bool) \<Rightarrow> bool" where
  "blake3_air_law A \<longleftrightarrow> (\<forall>row. A row \<longrightarrow> (\<exists>c. compression_ok c \<and> row_holds word_bits row c))"

lemma bits_le_law_word_bits: "bits_le_law word_bits"
  by (simp add: bits_le_law_def word_bits_def)

lemma lookup_count_bool:
  "\<forall>(u, m) \<in> set ls. m = 0 \<or> m = 1 \<Longrightarrow> lookup_count t ls = of_nat (length (filter (\<lambda>(u, m). u = t \<and> m = 1) ls))"
  by (induction ls) (auto simp: lookup_count_def split: if_splits)

lemma lookup_count_none: "\<forall>(u, m) \<in> set ls. u \<noteq> t \<Longrightarrow> lookup_count t ls = 0"
  by (induction ls) (auto simp: lookup_count_def)

lemma membership_multiplicity:
  assumes "membership_satisfied tr pub" "row \<in> set tr" "(t, m) \<in> set (membership_lookups row)"
  shows "m = 0 \<or> m = 1"
proof -
  from assms(2) obtain i where "i < length tr" "row = tr ! i" by (auto simp: in_set_conv_nth)
  with satisfied_row(1) [OF assms(1), of i] assms(3) show ?thesis
    by (auto simp: membership_lookups_def Let_def flags_vanish)
qed

lemma length_receives: "length (concat (map membership_lookups rows)) = 3 * length rows"
  by (induction rows) (simp_all add: membership_lookups_def Let_def)

text \<open>A tuple received somewhere is sent by a row of the table, and so backed by a compression.\<close>

lemma batch_backed:
  assumes law: "blake3_air_law A" and batch: "batch_satisfied A values traces table" and row: "row \<in> set (concat traces)"
  shows "row_backed row"
  unfolding row_backed_def
proof (clarify, rule ccontr)
  fix t m assume t: "(t, m) \<in> set (membership_lookups row)" "m \<noteq> 0" and none: "\<nexists>c. compression_ok c \<and> t = compression_lookup_values c"
  let ?R = "concat (map membership_lookups (concat traces))" and ?S = "concat (map blake3_lookups table)"
  have bool: "\<forall>(u, k) \<in> set ?R. k = 0 \<or> k = 1"
    using batch membership_multiplicity by (fastforce simp: batch_satisfied_def in_set_conv_nth [of _ traces])
  let ?hits = "filter (\<lambda>(u, k). u = t \<and> k = 1) ?R"
  have "(t, m) \<in> set ?R" using row t(1) by auto
  with bool t(2) have "(t, m) \<in> set ?hits" by fastforce
  then have "0 < length ?hits" by (metis length_pos_if_in_set)
  moreover have "length ?hits < BABY_BEAR_PRIME"
    using batch length_receives [of "concat traces"] length_filter_le [of "\<lambda>(u, k). u = t \<and> k = 1" ?R]
    unfolding batch_satisfied_def by linarith
  ultimately have "(of_nat (length ?hits) :: val) \<noteq> of_nat 0"
    by (subst of_nat_val_inject) (simp_all add: BABY_BEAR_PRIME_def)
  moreover have "lookup_count t ?R = of_nat (length ?hits)" by (rule lookup_count_bool [OF bool])
  moreover have "lookup_count t ?S = 0"
  proof (rule lookup_count_none, clarify)
    fix k assume "(t, k) \<in> set ?S"
    then obtain r where "r \<in> set table" "t = blake3_table_lookup_exprs r" by (auto simp: blake3_lookups_def Let_def)
    with batch law none show False
      by (metis batch_satisfied_def blake3_air_law_def list_all_iff row_holds_tuple [OF bits_le_law_word_bits])
  qed
  ultimately show False using batch by (auto simp: batch_satisfied_def lookups_balanced_def)
qed

lemma public_of_row:
  assumes "public_wf p"
  shows "public_cells (public_of (map val_from_u32 (public_value_row words p))) p"
  using assms by (auto simp: public_cells_def public_of_def public_value_row_def public_wf_def nth_append nth_Cons'
    of_nat_val_from_byte simp del: of_nat_unat)

lemma batch_sound:
  assumes "blake3_law H" "blake3_air_law A" "batch_satisfied A (public_value_fields (proof_public_values H cm ps)) traces table"
    and "list_all public_wf ps" "p \<in> set ps"
  shows "\<exists>payload path. membership_statement H p payload path"
proof -
  let ?vals = "public_value_fields (proof_public_values H cm ps)"
  from assms(5) obtain i where i: "i < length ps" "p = ps ! i" by (auto simp: in_set_conv_nth)
  with assms(4) have p: "public_wf p" by (simp add: list_all_length)
  have tr: "length traces = length ps" "?vals ! i = map val_from_u32 (public_value_row (proof_binding_words H cm ps) p)"
    using assms(3) i by (simp_all add: batch_satisfied_def public_value_fields_def proof_public_values_def nth_append)
  with assms(3) i have sat: "membership_satisfied (traces ! i) (public_of (map val_from_u32 (public_value_row (proof_binding_words H cm ps) p)))"
    by (metis batch_satisfied_def)
  have sub: "set (traces ! i) \<subseteq> set (concat traces)" using i tr(1) by (auto intro!: bexI [of _ "traces ! i"])
  have "length (traces ! i) \<le> length (concat traces)"
    unfolding length_concat using i tr(1) by (intro member_le_sum_list) simp_all
  then have "length (traces ! i) < BABY_BEAR_PRIME" using assms(3) by (simp add: batch_satisfied_def)
  moreover have "\<forall>row \<in> set (traces ! i). row_backed row" using sub batch_backed [OF assms(2,3)] by blast
  moreover have "length (cp_per_sub_tree_root p) = 32" using p by (simp add: public_wf_def)
  ultimately show ?thesis using trace_sound [OF assms(1) sat public_of_row [OF p]] by blast
qed

end
