(* ===== verification/Membership_Completeness.thy ===== *)
theory Membership_Completeness
  imports Membership_Trace
begin

text \<open>
  The proof system end to end: the traces built from validated witnesses satisfy the constraint
  systems and their lookups balance, and an accepted proof stands for a leaf of the committed
  tree. The trace of a tree with a single leaf is the exception: it breaks a constraint.
\<close>

section \<open>The built traces\<close>

definition path_compressions :: "digest \<Rightarrow> checked_witness \<Rightarrow> nat \<Rightarrow> compression list" where
  "path_compressions H w i =
     (let v = path_values H w i; (c1, c2) = node_compressions (rr_left v) (rr_right v) in [c1, c2])"

lemma membership_step_path:
  assumes "digest32 H" "blake3_law H" "witness_on_path H w" "i < length (ck_merkle_path w)"
  shows "membership_step w i (path_node H w i) (drop_bit i (cp_leaf_index (ck_public w)))
    = (path_row H w i, path_compressions H w i, path_node H w (Suc i))"
  using path_values_current [OF assms]
  by (simp add: membership_step_node [OF assms(4)] path_row_def path_compressions_def path_values_def Let_def split_beta)

lemma membership_rows_path:
  assumes "digest32 H" "blake3_law H" "witness_on_path H w"
  shows "step + n \<le> length (ck_merkle_path w) \<Longrightarrow>
    membership_rows w n step (path_node H w step) (drop_bit step (cp_leaf_index (ck_public w)))
    = (map (path_row H w) [step..<step + n], concat (map (path_compressions H w) [step..<step + n]))"
proof (induction n arbitrary: step)
  case (Suc n)
  have "drop_bit 1 (drop_bit step (cp_leaf_index (ck_public w))) = drop_bit (Suc step) (cp_leaf_index (ck_public w))"
    by simp
  moreover have "[step..<step + Suc n] = step # [Suc step..<Suc step + n]" by (simp add: upt_conv_Cons)
  ultimately show ?case
    using Suc.IH [of "Suc step"] Suc.prems membership_step_path [OF assms, of step] by (simp del: upt_Suc drop_bit_drop_bit)
qed simp

text \<open>The compressions that a witness adds.\<close>

definition witness_compressions :: "digest \<Rightarrow> checked_witness \<Rightarrow> compression list" where
  "witness_compressions H w =
     leaf_compression (cp_sub_tree_id (ck_public w)) (cp_leaf_index (ck_public w)) (ck_leaf_payload w)
       # concat (map (path_compressions H w) [0..<length (ck_merkle_path w)])"

definition witness_trace :: "digest \<Rightarrow> checked_witness \<Rightarrow> row list" where
  "witness_trace H w = (let n = length (ck_merkle_path w)
     in map (path_row H w) [0..<n] @ replicate (max (next_power_of_two n) 8 - n) (\<lambda>_. 0))"

lemma build_membership_trace_path:
  assumes "digest32 H" "blake3_law H" "witness_on_path H w" "ck_merkle_path w \<noteq> []"
  shows "build_membership_trace w None cs = (witness_trace H w, cs @ witness_compressions H w)"
proof -
  have "max (length (ck_merkle_path w)) 1 = length (ck_merkle_path w)" using assms(4) by (cases "ck_merkle_path w") simp_all
  then show ?thesis
    using membership_rows_path [OF assms(1-3), of 0 "length (ck_merkle_path w)"]
    by (simp add: build_membership_trace_def witness_trace_def witness_compressions_def Let_def path_node_def)
qed

lemma build_membership_traces_path:
  assumes "digest32 H" "blake3_law H"
  shows "\<forall>w \<in> set ws. witness_on_path H w \<and> ck_merkle_path w \<noteq> [] \<Longrightarrow>
    build_membership_traces ws None cs = (map (witness_trace H) ws, cs @ concat (map (witness_compressions H) ws))"
proof (induction ws arbitrary: cs)
  case (Cons w ws)
  then show ?case using build_membership_trace_path [OF assms, of w] by simp
qed simp

section \<open>The lookups balance\<close>

lemma lookup_count_append: "lookup_count t (xs @ ys) = lookup_count t xs + lookup_count t ys"
  by (simp add: lookup_count_def)

lemma lookup_count_active: "lookup_count t ls = lookup_count t (filter (\<lambda>(u, m). m \<noteq> 0) ls)"
  by (induction ls) (auto simp: lookup_count_def)

lemma balanced_if_active_equal:
  "filter (\<lambda>(u, m). m \<noteq> 0) xs = filter (\<lambda>(u, m). m \<noteq> 0) ys \<Longrightarrow> lookups_balanced xs ys"
  unfolding lookups_balanced_def by (metis lookup_count_active)

abbreviation active :: "lookup list \<Rightarrow> lookup list" where
  "active ls \<equiv> filter (\<lambda>(u, m). m \<noteq> 0) ls"

definition sent :: "compression \<Rightarrow> lookup" where
  "sent c = (compression_lookup_values c, 1)"

text \<open>What a row receives is what the compressions of its step send.\<close>

lemma leaf_compression_ok: "length payload \<le> 34 \<Longrightarrow> compression_ok (leaf_compression s idx payload)"
  by (simp add: leaf_compression_eq compression_ok_def block_words_def IV_def)

lemma node_compressions_ok:
  "length l = 32 \<Longrightarrow> length r = 32 \<Longrightarrow> compression_ok (fst (node_compressions l r)) \<and> compression_ok (snd (node_compressions l r))"
  by (simp add: node_compressions_eq Let_def compression_ok_def block_words_def IV_def)

lemma block_bytes_words:
  assumes "length bs = 64"
  shows "concat (map to_le_bytes (block_words bs)) = bs"
proof -
  let ?ws = "block_words bs"
  have "length ?ws = 16" by (simp add: block_words_def)
  have "to_le_bytes (from_le_bytes [a, b, c, d] :: u32) = [a, b, c, d]" for a b c d :: u8
    by (simp add: to_le_bytes_def from_le_bytes_def to_from_be_bytes)
  then have w: "to_le_bytes (?ws ! i) = [bs ! (i * 4), bs ! (i * 4 + 1), bs ! (i * 4 + 2), bs ! (i * 4 + 3)]" if "i < 16" for i
    using that by (simp add: block_words_def Let_def BYTES_PER_WORD_def)
  show ?thesis
  proof (rule nth_equalityI)
    fix j assume "j < length (concat (map to_le_bytes ?ws))"
    then have j: "j div 4 < 16" "j mod 4 < 4" using \<open>length ?ws = 16\<close> by simp_all
    define q k where "q = j div 4" and "k = j mod 4"
    have "j = q * 4 + k" "q < 16" "k < 4" using j by (simp_all add: q_def k_def)
    then show "concat (map to_le_bytes ?ws) ! j = bs ! j"
      using nth_le_bytes [of q ?ws k] w [of q] \<open>length ?ws = 16\<close> by (auto simp: less_Suc_eq numeral_eq_Suc)
  qed (simp add: assms \<open>length ?ws = 16\<close>)
qed

lemma lookup_values_compression_of:
  "length b = 64 \<Longrightarrow> compression_lookup_values (compression_of (block_words b) cv ctr len fl)
     = map from_u8 (b @ concat (map to_le_bytes cv) @ to_le_bytes ctr @ to_le_bytes len @ to_le_bytes fl)
       @ map from_u8 (hash_from_words (co_output_words (compression_of (block_words b) cv ctr len fl)))"
  by (simp add: compression_lookup_values_def block_bytes_words hash_from_words_def)

lemma path_row_leaf_tuple:
  assumes "digest32 H" "blake3_law H" "witness_on_path H w" "ck_merkle_path w \<noteq> []"
  shows "leaf_lookup_exprs (path_row H w 0) = compression_lookup_values
    (leaf_compression (cp_sub_tree_id (ck_public w)) (cp_leaf_index (ck_public w)) (ck_leaf_payload w))"
proof -
  let ?p = "ck_leaf_payload w" and ?s = "cp_sub_tree_id (ck_public w)" and ?i = "cp_leaf_index (ck_public w)" and ?row = "path_row H w 0"
  have len: "length ?p \<le> 34" using assms(3) by (simp add: witness_on_path_def)
  have pos: "0 < length (ck_merkle_path w)" using assms(4) by simp
  note cells = fill_real_row_cells [OF path_values_ok [OF assms(1-3) pos], folded path_row_def]
  have "leaf_lookup_exprs ?row = map from_u8 (pad_block (leaf_preimage ?s ?i ?p) @ concat (map to_le_bytes IV)
      @ to_le_bytes (0 :: u64) @ to_le_bytes (of_nat (length (leaf_preimage ?s ?i ?p)) :: u32) @ to_le_bytes LEAF_FLAGS)
      @ hash_exprs ?row COL_PREV_NODE"
    using len cells(8)
    by (intro leaf_tuple_bytes [OF cells(1) _ cells(6)]) (auto intro!: nth_equalityI simp: cells(2) nth_append simp del: upt_rec_numeral)
  moreover have "hash_exprs ?row COL_PREV_NODE = map from_u8 (hash_from_words (co_output_words (leaf_compression ?s ?i ?p)))"
    using path_row_cells(9) [OF assms(1-3) pos] assms(3) leaf_compression_hash [OF assms(2) len]
    by (auto simp: path_node_def witness_on_path_def)
  moreover have "length (pad_block (leaf_preimage ?s ?i ?p)) = 64" using len by (simp add: pad_block_def leaf_preimage_def)
  ultimately show ?thesis by (simp add: leaf_compression_eq [OF len] lookup_values_compression_of del: compression_of_sel)
qed

lemma path_row_node_tuples:
  assumes "digest32 H" "blake3_law H" "witness_on_path H w" "i < length (ck_merkle_path w)"
  shows "path_compressions H w i = [c1, c2] \<Longrightarrow> node_first_lookup_exprs (path_row H w i) = compression_lookup_values c1
      \<and> node_second_lookup_exprs (path_row H w i) = compression_lookup_values c2"
proof -
  let ?v = "path_values H w i" and ?row = "path_row H w i"
  let ?l = "rr_left ?v" and ?r = "rr_right ?v"
  note ok = path_values_ok [OF assms]
  note hashes = fill_real_row_hashes [OF ok, folded path_row_def]
  have len: "length ?l = 32" "length ?r = 32" using ok by (simp_all add: real_row_ok_def)
  have nc: "rr_mid ?v = hash_from_words (co_output_words (fst (node_compressions ?l ?r)))"
    "rr_current ?v = hash_from_words (co_output_words (snd (node_compressions ?l ?r)))"
    by (simp_all add: path_values_def node_values_sel)
  have blocks: "length (take 64 (node_preimage ?l ?r)) = 64" "length (pad_block (drop 64 (node_preimage ?l ?r))) = 64"
    using len by (simp_all add: node_preimage_def pad_block_def)
  assume "path_compressions H w i = [c1, c2]"
  then have c: "c1 = fst (node_compressions ?l ?r)" "c2 = snd (node_compressions ?l ?r)"
    by (simp_all add: path_compressions_def Let_def split_beta)
  have "node_first_lookup_exprs ?row = compression_lookup_values c1"
    unfolding node_tuple_bytes(1) [OF hashes(3,4) len] hashes(5) nc(1) c(1) node_compressions_eq [OF len] Let_def fst_conv
      lookup_values_compression_of [OF blocks(1)] ..
  moreover have mid: "hash_exprs ?row COL_NODE_MID = map from_u8 (concat (map to_le_bytes (co_output_words (fst (node_compressions ?l ?r)))))"
    using hashes(5) nc(1) by (simp add: hash_from_words_def)
  have "node_second_lookup_exprs ?row = compression_lookup_values c2"
    unfolding node_tuple_bytes(2) [OF hashes(3,4) len mid] hashes(6) nc(2) c(2) node_compressions_eq [OF len] Let_def fst_conv snd_conv
      lookup_values_compression_of [OF blocks(2)] ..
  ultimately show ?thesis by simp
qed

lemma active_path_row:
  assumes "digest32 H" "blake3_law H" "witness_on_path H w" "i < length (ck_merkle_path w)"
  shows "active (membership_lookups (path_row H w i)) =
    (if i = 0 then [sent (leaf_compression (cp_sub_tree_id (ck_public w)) (cp_leaf_index (ck_public w)) (ck_leaf_payload w))] else [])
      @ map sent (path_compressions H w i)"
proof -
  obtain c1 c2 where c: "path_compressions H w i = [c1, c2]" by (simp add: path_compressions_def Let_def split_beta)
  have "ck_merkle_path w \<noteq> []" using assms(4) by auto
  with path_row_node_tuples [OF assms c] path_row_leaf_tuple [OF assms(1-3)] c show ?thesis
    by (simp add: membership_lookups_def Let_def path_row_cells [OF assms] sent_def)
qed

lemma active_zero_row: "active (membership_lookups (\<lambda>_. 0)) = []"
  by (simp add: membership_lookups_def Let_def)

lemma filter_concat_map: "filter P (concat (map f xs)) = concat (map (\<lambda>x. filter P (f x)) xs)"
  by (induction xs) simp_all

lemma filter_concat_replicate: "filter P xs = [] \<Longrightarrow> filter P (concat (replicate n xs)) = []"
  by (induction n) simp_all

lemma active_witness_trace:
  assumes "digest32 H" "blake3_law H" "witness_on_path H w" "ck_merkle_path w \<noteq> []"
  shows "active (concat (map membership_lookups (witness_trace H w))) = map sent (witness_compressions H w)"
proof -
  let ?n = "length (ck_merkle_path w)"
  let ?leaf = "leaf_compression (cp_sub_tree_id (ck_public w)) (cp_leaf_index (ck_public w)) (ck_leaf_payload w)"
  have "concat (map (\<lambda>i. active (membership_lookups (path_row H w i))) [0..<m])
      = (if m = 0 then [] else [sent ?leaf]) @ concat (map (\<lambda>i. map sent (path_compressions H w i)) [0..<m])" if "m \<le> ?n" for m
    using that
  proof (induction m)
    case (Suc m)
    then show ?case using active_path_row [OF assms(1-3), of m] assms(4) by (cases "m = 0") simp_all
  qed simp
  from this [of ?n] assms(4) show ?thesis
    by (simp add: witness_trace_def witness_compressions_def Let_def filter_concat_map active_zero_row map_concat comp_def
      filter_concat_replicate)
qed

text \<open>The rows of the table.\<close>

lemma fold_update_rows:
  "length cs \<le> h \<Longrightarrow> fold (\<lambda>(i, c) values. values[i := f (values ! i) c]) (enumerate 0 cs) (replicate h z)
     = map (f z) cs @ replicate (h - length cs) z"
proof (induction cs rule: rev_induct)
  case (snoc c cs)
  then obtain k where "h - length cs = Suc k" by (auto simp: Suc_diff_le le_Suc_eq dest: le_Suc_ex)
  with snoc show ?case by (simp add: enumerate_append_eq nth_append list_update_append)
qed simp

lemma fold_update_padding:
  "fold (\<lambda>i values. values[i := f (values ! i)]) [length xs..<length xs + k] (xs @ replicate k z) = xs @ replicate k (f z)"
proof (induction k arbitrary: xs)
  case (Suc k)
  have "[length xs..<length xs + Suc k] = length xs # [length (xs @ [f z])..<length (xs @ [f z]) + k]"
    by (simp add: upt_conv_Cons)
  with Suc [of "xs @ [f z]"] show ?case by (simp add: nth_append list_update_append del: upt_Suc)
qed simp

lemma build_blake3_trace_rows:
  assumes "cs \<noteq> []"
  shows "build_blake3_trace B cs = map (fill_trace_row B (\<lambda>_. 0)) cs
    @ replicate (next_power_of_two (length cs) - length cs) (fill_trace_row B (\<lambda>_. 0) (compression_of (replicate 16 0) IV 0 0 DUMMY_FLAGS))"
proof -
  let ?n = "length cs" and ?h = "next_power_of_two (length cs)"
  have h: "?n \<le> ?h" "max ?n 1 = ?n" using le_next_power_of_two [of ?n] assms by (simp, cases cs) simp_all
  let ?f = "fill_trace_row B"
  have "fold (\<lambda>i values. values[i := ?f (values ! i) d]) [?n..<?h] (map (?f z) cs @ replicate (?h - ?n) z)
      = map (?f z) cs @ replicate (?h - ?n) (?f z d)" for d z
    using fold_update_padding [of "\<lambda>r. ?f r d" "map (?f z) cs" "?h - ?n" z] h(1) by simp
  then show ?thesis using h fold_update_rows [OF h(1), of ?f "\<lambda>_. 0"] by (simp add: build_blake3_trace_def Let_def)
qed

lemma flag_cells:
  assumes "bits_le_law B" "compression_ok c"
  shows "fill_trace_row B row c B3_FLAGS_OFFSET = of_bool (bit (co_flags c) 0)"
    "fill_trace_row B row c (B3_FLAGS_OFFSET + 1) = of_bool (bit (co_flags c) 1)"
proof -
  have "word_at B (fill_trace_row B row c) B3_FLAGS_OFFSET (co_flags c)"
    using fill_trace_row_holds [OF assms(2), of B row] by (simp add: row_holds_def)
  then have "fill_trace_row B row c (B3_FLAGS_OFFSET + k) = of_bool (bit (co_flags c) k)" if "k < 32" for k
    using that assms(1) by (simp add: word_at_def bits_le_law_def)
  from this [of 0] this [of 1] show "fill_trace_row B row c B3_FLAGS_OFFSET = of_bool (bit (co_flags c) 0)"
    "fill_trace_row B row c (B3_FLAGS_OFFSET + 1) = of_bool (bit (co_flags c) 1)" by simp_all
qed

lemma active_table_row:
  assumes "bits_le_law B" "compression_ok c"
  shows "active (blake3_lookups (fill_trace_row B row c)) = (if bit (co_flags c) 0 \<or> bit (co_flags c) 1 then [sent c] else [])"
  using row_holds_tuple [OF assms fill_trace_row_holds [OF assms(2)], of row]
  unfolding blake3_lookups_def Let_def flag_cells [OF assms] by (auto simp: sent_def)

lemma active_table:
  assumes B: "bits_le_law B" and cs: "\<forall>c \<in> set cs. compression_ok c \<and> (bit (co_flags c) 0 \<or> bit (co_flags c) 1)"
  shows "active (concat (map blake3_lookups (build_blake3_trace B cs))) = map sent cs"
proof (cases "cs = []")
  case True
  have "next_power_of_two 1 = 1" using next_power_of_two_clog2 [of 1] by (simp add: clog2_eval)
  with True show ?thesis by (simp add: build_blake3_trace_def blake3_lookups_def Let_def)
next
  case False
  let ?dummy = "compression_of (replicate 16 0) IV 0 0 DUMMY_FLAGS"
  have "active (blake3_lookups (fill_trace_row B (\<lambda>_. 0) ?dummy)) = []"
    by (subst active_table_row [OF B compression_of_ok]) (simp_all add: IV_def DUMMY_FLAGS_def)
  moreover have "concat (map (\<lambda>c. active (blake3_lookups (fill_trace_row B (\<lambda>_. 0) c))) cs) = map sent cs"
    using cs by (induction cs) (simp_all add: active_table_row [OF B])
  ultimately show ?thesis
    by (simp add: build_blake3_trace_rows [OF False] filter_concat_map filter_concat_replicate comp_def)
qed

lemma witness_compressions_flagged:
  assumes "digest32 H" "blake3_law H" "witness_on_path H w" "c \<in> set (witness_compressions H w)"
  shows "compression_ok c \<and> (bit (co_flags c) 0 \<or> bit (co_flags c) 1)"
proof -
  have "length (ck_leaf_payload w) \<le> 34" using assms(3) by (simp add: witness_on_path_def)
  then have leaf: "compression_ok (leaf_compression s i (ck_leaf_payload w))" "co_flags (leaf_compression s i (ck_leaf_payload w)) = LEAF_FLAGS" for s i
    by (rule leaf_compression_ok, simp add: leaf_compression_eq)
  have node: "compression_ok (fst (node_compressions l r))" "compression_ok (snd (node_compressions l r))"
    "co_flags (fst (node_compressions l r)) = NODE_FIRST_FLAGS" "co_flags (snd (node_compressions l r)) = NODE_SECOND_FLAGS"
    if "length l = 32" "length r = 32" for l r
    using node_compressions_ok [OF that] by (simp_all add: node_compressions_eq [OF that] Let_def)
  have flags: "bit LEAF_FLAGS 0" "bit NODE_FIRST_FLAGS 0" "bit NODE_SECOND_FLAGS 1"
    by (simp_all add: LEAF_FLAGS_def NODE_FIRST_FLAGS_def NODE_SECOND_FLAGS_def CHUNK_START_def CHUNK_END_def ROOT_def bit_simps)
  consider "c = leaf_compression (cp_sub_tree_id (ck_public w)) (cp_leaf_index (ck_public w)) (ck_leaf_payload w)"
    | i where "i < length (ck_merkle_path w)" "c \<in> set (path_compressions H w i)"
    using assms(4) by (auto simp: witness_compressions_def)
  then show ?thesis
  proof cases
    case 2
    have "length (rr_left (path_values H w i)) = 32" "length (rr_right (path_values H w i)) = 32"
      using path_values_ok [OF assms(1-3) 2(1)] by (simp_all add: real_row_ok_def)
    with 2(2) node flags show ?thesis by (auto simp: path_compressions_def Let_def split_beta)
  qed (use leaf flags in simp)
qed

section \<open>Batches\<close>

lemma built_batch:
  assumes "digest32 H" "blake3_law H" "bits_le_law B" "\<forall>w \<in> set ws. witness_on_path H w \<and> ck_merkle_path w \<noteq> []"
  shows "bt_membership_traces (build_traces B cm ws None) = map (witness_trace H) ws"
    "bt_blake3_trace (build_traces B cm ws None) = build_blake3_trace B (concat (map (witness_compressions H) ws))"
    "lookups_balanced (concat (map blake3_lookups (bt_blake3_trace (build_traces B cm ws None))))
      (concat (map membership_lookups (concat (bt_membership_traces (build_traces B cm ws None)))))"
proof -
  let ?cs = "concat (map (witness_compressions H) ws)"
  note built = build_membership_traces_path [OF assms(1,2,4), of "[]"]
  show traces: "bt_membership_traces (build_traces B cm ws None) = map (witness_trace H) ws"
    and table: "bt_blake3_trace (build_traces B cm ws None) = build_blake3_trace B ?cs"
    by (simp_all add: build_traces_def built)
  have "active (concat (map membership_lookups (concat (map (witness_trace H) ws)))) = map sent ?cs"
    using assms(4) by (induction ws) (simp_all add: active_witness_trace [OF assms(1,2)])
  moreover have "active (concat (map blake3_lookups (build_blake3_trace B ?cs))) = map sent ?cs"
    using assms(4) witness_compressions_flagged [OF assms(1,2)] by (intro active_table [OF assms(3)]) auto
  ultimately show "lookups_balanced (concat (map blake3_lookups (bt_blake3_trace (build_traces B cm ws None))))
      (concat (map membership_lookups (concat (bt_membership_traces (build_traces B cm ws None)))))"
    unfolding traces table by (intro balanced_if_active_equal) simp
qed

lemma witness_trace_satisfied:
  assumes "digest32 H" "blake3_law H" "witness_on_path H w" "ck_merkle_path w \<noteq> []"
  shows "membership_satisfied (witness_trace H w) (public_of (map val_from_u32 (public_value_row words (ck_public w))))"
  using path_trace_satisfied [OF assms public_of_row] assms(3) by (simp add: witness_trace_def Let_def witness_on_path_def)

lemma built_batch_satisfied:
  assumes "digest32 H" "blake3_law H" "bits_le_law B" "\<forall>w \<in> set ws. witness_on_path H w \<and> ck_merkle_path w \<noteq> []"
    and "ps = map ck_public ws" "i < length ws"
  shows "membership_satisfied (bt_membership_traces (build_traces B cm ws None) ! i)
    (public_of (public_value_fields (proof_public_values H cm ps) ! i))"
  using assms witness_trace_satisfied [OF assms(1,2), of "ws ! i"]
  by (simp add: built_batch(1) public_value_fields_def proof_public_values_def nth_append)

text \<open>Validated witnesses, in the order of the batch.\<close>

lemma validate_witnesses_on_path:
  assumes "validate_witnesses H cm ws = Inr cks" "list_all (\<lambda>w. public_wf (mw_public w) \<and> list_all hash_wf (mw_merkle_path w)) ws"
  shows "map ck_public cks = map mw_public ws" "map ck_merkle_path cks = map mw_merkle_path ws" "\<forall>c \<in> set cks. witness_on_path H c"
proof -
  have "map ck_public cks = map mw_public ws \<and> map ck_merkle_path cks = map mw_merkle_path ws \<and> (\<forall>c \<in> set cks. witness_on_path H c)"
    if "collect_results (\<lambda>(i, w). validate_witness H cm i w) (enumerate n ws) = Inr cks" for n
    using that assms(2)
  proof (induction ws arbitrary: n cks)
    case (Cons w ws)
    from Cons.prems obtain c cs where c: "validate_witness H cm n w = Inr c" "cks = c # cs"
      "collect_results (\<lambda>(i, w). validate_witness H cm i w) (enumerate (Suc n) ws) = Inr cs" by auto
    moreover have "ck_public c = mw_public w" "ck_merkle_path c = mw_merkle_path w" using c(1) by (auto simp: validate_witness_Inr)
    ultimately show ?case using Cons.IH [OF c(3)] Cons.prems(2) validated_on_path [OF c(1)] by simp
  qed simp
  with assms(1) show "map ck_public cks = map mw_public ws" "map ck_merkle_path cks = map mw_merkle_path ws"
    "\<forall>c \<in> set cks. witness_on_path H c" unfolding validate_witnesses_def by blast+
qed

section \<open>Properties\<close>

text \<open>
  The prover is complete: for witnesses that validate against the commitment and lie in
  trees of more than one leaf, every membership trace that \<open>build_traces\<close> returns satisfies all
  constraints of the AIR under the public values of the proof, and the tuples that the traces
  receive are exactly those that the table sends.
\<close>

theorem built_traces_satisfy:
  assumes "digest32 H" "blake3_law H" "bits_le_law B" "validate_witnesses H cm ws = Inr cks"
    and "list_all (\<lambda>w. public_wf (mw_public w) \<and> list_all hash_wf (mw_merkle_path w) \<and> mw_merkle_path w \<noteq> []) ws"
  shows "(\<forall>i < length ws. membership_satisfied (bt_membership_traces (build_traces B cm cks None) ! i)
      (public_of (public_value_fields (proof_public_values H cm (map mw_public ws)) ! i)))
    \<and> lookups_balanced (concat (map blake3_lookups (bt_blake3_trace (build_traces B cm cks None))))
      (concat (map membership_lookups (concat (bt_membership_traces (build_traces B cm cks None)))))"
proof -
  have wf: "list_all (\<lambda>w. public_wf (mw_public w) \<and> list_all hash_wf (mw_merkle_path w)) ws"
    using assms(5) by (simp add: list_all_iff)
  note v = validate_witnesses_on_path [OF assms(4) wf]
  have "\<forall>p \<in> set (map ck_merkle_path cks). p \<noteq> []" unfolding v(2) using assms(5) by (auto simp: list_all_iff)
  with v(3) have ok: "\<forall>c \<in> set cks. witness_on_path H c \<and> ck_merkle_path c \<noteq> []" by simp
  have "length cks = length ws" using arg_cong [OF v(1), of length] by simp
  with built_batch_satisfied [OF assms(1-3) ok v(1) [symmetric]] built_batch(3) [OF assms(1-3) ok] show ?thesis by simp
qed

text \<open>A tree of two leaves, under BLAKE3 itself, and the claim of its first leaf.\<close>

definition pair_root :: hash where
  "pair_root = walk_v1_path blake3_two_blocks (leaf_hash_v2 blake3_two_blocks 1 0 [7]) 0 [replicate 32 0]"

definition pair_commitment :: omega_commitment where
  "pair_commitment = \<lparr>oc_bundle_root_blake3 = bundle_root blake3_two_blocks (replicate 7 pair_root), oc_sub_tree_roots_blake3 = replicate 7 pair_root,
     oc_item_counts = replicate 7 2, oc_leaf_counts = replicate 7 2, oc_tree_depths = replicate 7 1\<rparr>"

definition pair_public :: claim_public_inputs where
  "pair_public = \<lparr>cp_sub_tree_id = 1, cp_leaf_index = 0, cp_tree_depth = 1, cp_per_sub_tree_root = pair_root,
     cp_bundle_root_blake3 = bundle_root blake3_two_blocks (replicate 7 pair_root), cp_nullifier = replicate 32 7, cp_recipient_starstream_addr = replicate 32 8\<rparr>"

definition pair_checked :: checked_witness where
  "pair_checked = \<lparr>ck_public = pair_public, ck_leaf_payload = [7], ck_merkle_path = [replicate 32 0],
     ck_leaf_hash = leaf_hash_v2 blake3_two_blocks 1 0 [7]\<rparr>"

definition pair_membership :: membership_witness where
  "pair_membership = \<lparr>mw_public = pair_public, mw_leaf_payload = [7], mw_merkle_path = [replicate 32 0]\<rparr>"

lemma blake3_two_blocks_laws: "digest32 blake3_two_blocks" "blake3_law blake3_two_blocks"
  by (simp_all add: digest32_def blake3_law_def blake3_two_blocks_def)

lemma pair_public_wf: "public_wf pair_public"
proof -
  have "length pair_root = 32"
    unfolding pair_root_def by (rule walk_v1_path_length [OF blake3_two_blocks_laws(1)])
      (simp add: leaf_hash_v2_def blake3_two_blocks_laws(1))
  then show ?thesis by (simp add: public_wf_def pair_public_def bundle_root_def blake3_two_blocks_laws(1))
qed

lemma pair_validates: "validate_witness blake3_two_blocks pair_commitment 0 pair_membership = Inr pair_checked"
  unfolding validate_witness_Inr sub_tree_index_Inr
  by (simp add: pair_membership_def pair_public_def pair_commitment_def pair_checked_def tree_slot_def leaf_preimage_len_def pair_root_def
    del: walk_v1_path.simps)

theorem built_traces_satisfy_witness:
  "(\<forall>i < length [pair_membership]. membership_satisfied (bt_membership_traces (build_traces word_bits pair_commitment [pair_checked] None) ! i)
      (public_of (public_value_fields (proof_public_values blake3_two_blocks pair_commitment (map mw_public [pair_membership])) ! i)))
    \<and> lookups_balanced (concat (map blake3_lookups (bt_blake3_trace (build_traces word_bits pair_commitment [pair_checked] None))))
      (concat (map membership_lookups (concat (bt_membership_traces (build_traces word_bits pair_commitment [pair_checked] None)))))"
proof (rule built_traces_satisfy [OF blake3_two_blocks_laws bits_le_law_word_bits])
  show "validate_witnesses blake3_two_blocks pair_commitment [pair_membership] = Inr [pair_checked]"
    by (simp add: validate_witnesses_def pair_validates)
  show "list_all (\<lambda>w. public_wf (mw_public w) \<and> list_all hash_wf (mw_merkle_path w) \<and> mw_merkle_path w \<noteq> []) [pair_membership]"
    by (simp add: pair_membership_def pair_public_wf)
qed

text \<open>
  C19. A single-leaf tree cannot be proved. The AIR has a case for a leaf that is itself the
  root, and asks there that the left child be zero; \<open>build_membership_trace\<close> writes the leaf
  hash into that column. So the trace of a witness with an empty path breaks a constraint for
  every public input, unless the leaf hash happens to be all zeros.
\<close>

theorem single_leaf_trace_rejected:
  assumes "length (ck_leaf_payload w) \<le> 34" "length (ck_leaf_hash w) = 32" "ck_merkle_path w = []" "ck_leaf_hash w \<noteq> replicate 32 0"
  shows "\<not> membership_satisfied (fst (build_membership_trace w None cs)) pub"
proof
  assume sat: "membership_satisfied (fst (build_membership_trace w None cs)) pub"
  let ?v = "single_values (ck_leaf_hash w) (cp_leaf_index (ck_public w))"
  have ok: "real_row_ok w ?v" using assms by (simp add: real_row_ok_def single_values_def)
  note cells = fill_real_row_cells [OF ok]
  have row: "fst (build_membership_trace w None cs) ! 0 = fill_real_row (\<lambda>_. 0) w ?v"
    using assms(3) by (simp add: build_membership_trace_def Let_def membership_step_single)
  from satisfied_row(4) [OF sat satisfied_first(1) [OF sat]] have "vanish (node_constraints (fill_real_row (\<lambda>_. 0) w ?v))"
    unfolding row .
  then have "hash_exprs (fill_real_row (\<lambda>_. 0) w ?v) COL_LEFT_NODE = replicate 32 0"
    unfolding node_vanish cells(10,12) by (simp add: single_values_def)
  then have "map from_u8 (ck_leaf_hash w) = map from_u8 (replicate 32 0)"
    using fill_real_row_hashes(3) [OF ok] by (simp add: single_values_def)
  with assms(4) show False by (simp only: map_from_u8_inject)
qed

definition single_checked :: checked_witness where
  "single_checked = \<lparr>ck_public = pair_public, ck_leaf_payload = [7], ck_merkle_path = [], ck_leaf_hash = replicate 32 1\<rparr>"

theorem single_leaf_trace_rejected_witness:
  "\<not> membership_satisfied (fst (build_membership_trace single_checked None [])) (\<lambda>_. 0)"
  by (rule single_leaf_trace_rejected) (simp_all add: single_checked_def)

lemma accepted_proof_sound:
  assumes "digest32 H" "blake3_law H" "blake3_air_law A" "stark_sound A V"
    and "list_all public_wf ps" "verify H V cm ps prf = Inr ()" "p \<in> set ps"
  shows "\<exists>payload path. membership_statement H p payload path \<and>
    (\<forall>leaves t. commits_to H cm (cp_sub_tree_id p) leaves t \<longrightarrow>
       inj_on H (membership_preimages H (cp_sub_tree_id p) (cp_leaf_index p) payload path
         \<union> v1_preimages H (cp_sub_tree_id p) leaves) \<longrightarrow>
       v1_member leaves (cp_leaf_index p) payload \<or> v1_padding leaves (cp_leaf_index p) payload)"
proof -
  from assms(6) obtain env :: proof_envelope and sp where env: "list_all (input_matches cm) ps"
    "verify_batch V (rng_seed (pe_config env)) (proof_airs (length ps)) sp (public_value_fields (proof_public_values H cm ps))"
    unfolding verify_Inr [OF assms(1,5)] by blast
  have "length (public_value_fields (proof_public_values H cm ps)) = Suc (length ps)"
    by (simp add: public_value_fields_def proof_public_values_def)
  with assms(4) env(2) obtain traces table where "batch_satisfied A (public_value_fields (proof_public_values H cm ps)) traces table"
    unfolding stark_sound_def by blast
  from batch_sound [OF assms(2,3) this assms(5,7)] obtain payload path where st: "membership_statement H p payload path" by blast
  have "input_matches cm p" using env(1) assms(7) by (simp add: list_all_iff)
  with statement_sound [OF assms(1) _ this _ st] st show ?thesis by blast
qed

text \<open>
  C1. The proof system is sound end to end: a proof that \<open>verify\<close> accepts stands, for each of
  its public inputs, for a payload with a Merkle path of the claimed depth from the leaf of the
  claimed sub-tree and index to the claimed root. When the sub-tree root is that of a committed
  tree and BLAKE3 has no collision among the strings hashed, the payload is the committed one
  at that index, or the index is the padding sentinel. The proof library (extraction of
  satisfying traces, balance of lookups, the AIR of the table) and BLAKE3 enter as hypotheses.
\<close>

theorem accepted_proof_opens_commitment:
  assumes "digest32 H" "blake3_law H" "blake3_air_law A" "stark_sound A V"
    and "list_all public_wf ps" "verify H V cm ps prf = Inr ()" "p \<in> set ps"
  shows "\<exists>payload path. membership_statement H p payload path \<and>
    (\<forall>leaves t. commits_to H cm (cp_sub_tree_id p) leaves t \<longrightarrow>
       inj_on H (membership_preimages H (cp_sub_tree_id p) (cp_leaf_index p) payload path
         \<union> v1_preimages H (cp_sub_tree_id p) leaves) \<longrightarrow>
       v1_member leaves (cp_leaf_index p) payload \<or> v1_padding leaves (cp_leaf_index p) payload)"
  by (rule accepted_proof_sound [OF assms])

lemma table_rows_hold:
  assumes "\<forall>c \<in> set cs. compression_ok c" "cs \<noteq> []" "row \<in> set (build_blake3_trace B cs)"
  shows "\<exists>c. compression_ok c \<and> row_holds B row c"
proof -
  have "compression_ok (compression_of (replicate 16 0) IV 0 0 DUMMY_FLAGS)" by (rule compression_of_ok) (simp_all add: IV_def)
  with assms show ?thesis
    using fill_trace_row_holds by (auto simp: build_blake3_trace_rows in_set_replicate dest: fill_trace_row_holds)
qed

text \<open>A proof library that accepts the public values of the claim above, and nothing else.\<close>

definition pair_values :: "nat list list" where
  "pair_values = public_value_fields (proof_public_values blake3_two_blocks pair_commitment [pair_public])"

definition pair_envelope :: proof_envelope where
  "pair_envelope = \<lparr>pe_version = 2, pe_config = prover_config_default, pe_commitment = pair_commitment, pe_public_inputs = [pair_public],
     pe_public_values = proof_public_values blake3_two_blocks pair_commitment [pair_public], pe_stark_proof = []\<rparr>"

definition pair_stark :: "unit stark_lib" where
  "pair_stark = \<lparr>dec_envelope = (\<lambda>_. Some pair_envelope), dec_proof = (\<lambda>_. Some ()), degree_bits = (\<lambda>_. [3, 2]),
     verify_batch = (\<lambda>seed airs prf values. values = pair_values)\<rparr>"

definition table_air :: "row \<Rightarrow> bool" where
  "table_air row \<longleftrightarrow> (\<exists>c. compression_ok c \<and> row_holds word_bits row c)"

lemma pair_batch:
  "batch_satisfied table_air pair_values (bt_membership_traces (build_traces word_bits pair_commitment [pair_checked] None))
     (bt_blake3_trace (build_traces word_bits pair_commitment [pair_checked] None))"
proof -
  let ?H = blake3_two_blocks
  have path: "witness_on_path ?H pair_checked"
    by (rule validated_on_path [OF pair_validates]) (simp_all add: pair_membership_def pair_public_wf)
  then have ok: "\<forall>w \<in> set [pair_checked]. witness_on_path ?H w \<and> ck_merkle_path w \<noteq> []" by (simp add: pair_checked_def)
  note built = built_batch [OF blake3_two_blocks_laws bits_le_law_word_bits ok, of pair_commitment]
  have "next_power_of_two 1 = 1" using next_power_of_two_clog2 [of 1] by (simp add: clog2_eval)
  then have "length (witness_trace ?H pair_checked) = 8" by (simp add: witness_trace_def Let_def pair_checked_def)
  moreover have "list_all table_air (build_blake3_trace word_bits (witness_compressions ?H pair_checked))"
    unfolding list_all_iff table_air_def
    using table_rows_hold witness_compressions_flagged [OF blake3_two_blocks_laws path] by (metis list.discI witness_compressions_def)
  moreover have "membership_satisfied (witness_trace ?H pair_checked) (public_of (pair_values ! 0))"
  proof -
    have "ck_public pair_checked = pair_public" by (simp add: pair_checked_def)
    then show ?thesis using built_batch_satisfied [OF blake3_two_blocks_laws bits_le_law_word_bits ok, of "[pair_public]" 0 pair_commitment]
      by (simp add: built(1) pair_values_def)
  qed
  ultimately show ?thesis
    using built(3) unfolding batch_satisfied_def built(1,2)
    by (simp add: pair_values_def public_value_fields_def proof_public_values_def BABY_BEAR_PRIME_def)
qed

lemma pair_verifies: "verify blake3_two_blocks pair_stark pair_commitment [pair_public] (ProofBytes []) = Inr ()"
proof -
  have "input_matches pair_commitment pair_public"
    by (simp add: input_matches_def pair_commitment_def pair_public_def sub_tree_index_Inr tree_slot_def)
  then show ?thesis using pair_public_wf
    by (simp add: verify_Inr [OF blake3_two_blocks_laws(1)] pair_stark_def pair_envelope_def PROOF_ENVELOPE_VERSION_def pair_values_def)
qed

theorem accepted_proof_opens_commitment_witness:
  "\<exists>payload path. membership_statement blake3_two_blocks pair_public payload path"
proof -
  have "blake3_air_law table_air" by (simp add: blake3_air_law_def table_air_def)
  moreover have "stark_sound table_air pair_stark" unfolding stark_sound_def pair_stark_def using pair_batch by auto
  ultimately show ?thesis
    using accepted_proof_opens_commitment [OF blake3_two_blocks_laws _ _ _ pair_verifies, of table_air pair_public] pair_public_wf by auto
qed

text \<open>
  C20. The rows of the table compute BLAKE3. \<open>fill_trace_row\<close> works through half rounds on a
  four-by-four state and writes bits into columns; the tuple that the table sends for the row
  consists of the bytes of the inputs and of the first eight words that \<open>compress\<close>, the
  reference function on sixteen words, returns for them.
\<close>

theorem table_row_computes_compress:
  assumes "bits_le_law B" "length block = 16" "length cv = 8"
  shows "blake3_table_lookup_exprs (fill_trace_row B row (compression_of block cv ctr len fl)) =
    map from_u8 (concat (map to_le_bytes block) @ concat (map to_le_bytes cv) @ to_le_bytes ctr @ to_le_bytes len @ to_le_bytes fl
      @ concat (map to_le_bytes (take 8 (compress block cv ctr len fl))))"
proof -
  have ok: "compression_ok (compression_of block cv ctr len fl)" by (rule compression_of_ok [OF assms(2,3)])
  from row_holds_tuple [OF assms(1) ok fill_trace_row_holds [OF ok]] show ?thesis
    by (simp only: compression_lookup_values_def compression_of_sel)
qed

theorem table_row_computes_compress_witness:
  "blake3_table_lookup_exprs (fill_trace_row word_bits (\<lambda>_. 0) (compression_of (replicate 16 3) IV 0 64 CHUNK_START)) =
    map from_u8 (concat (map to_le_bytes (replicate 16 (3 :: u32))) @ concat (map to_le_bytes IV) @ to_le_bytes (0 :: u64) @ to_le_bytes (64 :: u32)
      @ to_le_bytes CHUNK_START @ concat (map to_le_bytes (take 8 (compress (replicate 16 3) IV 0 64 CHUNK_START))))"
  by (rule table_row_computes_compress [OF bits_le_law_word_bits]) (simp_all add: IV_def)

lemma length_membership_rows: "length (fst (membership_rows w n step prev rem)) = n"
  by (induction n arbitrary: step prev rem) (simp_all add: split_beta)

lemma trace_height:
  assumes "length (ck_merkle_path w) \<le> 256"
  shows "\<exists>k. 3 \<le> k \<and> k \<le> 8 \<and> length (fst (build_membership_trace w tamper cs)) = 2 ^ k"
proof -
  let ?n = "max (length (ck_merkle_path w)) 1"
  have n: "?n \<le> 2 ^ 8" "0 < ?n" using assms by simp_all
  then have c: "next_power_of_two ?n = 2 ^ clog2 ?n" "clog2 ?n \<le> 8"
    using next_power_of_two_clog2 [of ?n] clog2_le_iff [of ?n 8] by simp_all
  have "max (2 ^ clog2 ?n) 8 = (2 :: nat) ^ max (clog2 ?n) 3"
  proof (cases "clog2 ?n \<le> 3")
    case True
    then have "(2 :: nat) ^ clog2 ?n \<le> 2 ^ 3" by (rule power_increasing) simp
    with True show ?thesis by (simp add: max_absorb2)
  next
    case False
    then have "(2 :: nat) ^ 3 \<le> 2 ^ clog2 ?n" by (intro power_increasing) simp_all
    with False show ?thesis by (simp add: max_absorb1)
  qed
  moreover have "length (fst (build_membership_trace w tamper cs)) =
      length (fst (membership_rows w ?n 0 (ck_leaf_hash w) (cp_leaf_index (ck_public w)))) + (max (next_power_of_two ?n) 8 - ?n)"
    by (simp add: build_membership_trace_def Let_def split_beta split: option.split)
  then have "length (fst (build_membership_trace w tamper cs)) = max (next_power_of_two ?n) 8"
    using le_next_power_of_two [of ?n] unfolding length_membership_rows by linarith
  ultimately show ?thesis using c by (intro exI [of _ "max (clog2 ?n) 3"]) simp
qed

lemma batch_heights:
  assumes "\<forall>w \<in> set ws. length (ck_merkle_path w) = unat (cp_tree_depth (ck_public w))"
  shows "\<forall>tr \<in> set (fst (build_membership_traces ws tamper cs)). \<exists>k. 3 \<le> k \<and> k \<le> 8 \<and> length tr = 2 ^ k"
    "length (concat (fst (build_membership_traces ws tamper cs))) \<le> 256 * length ws"
proof -
  have heights: "(\<forall>tr \<in> set (fst (build_membership_traces ws tamper cs)). \<exists>k. 3 \<le> k \<and> k \<le> 8 \<and> length tr = 2 ^ k)
      \<and> length (fst (build_membership_traces ws tamper cs)) = length ws"
    using assms
  proof (induction ws arbitrary: tamper cs)
    case (Cons w ws)
    have "length (ck_merkle_path w) \<le> 256"
      using Cons.prems unsigned_less [of "cp_tree_depth (ck_public w)", where ?'a = nat] by simp
    with Cons trace_height [of w tamper cs] show ?case by (simp add: split_beta)
  qed simp
  then show "\<forall>tr \<in> set (fst (build_membership_traces ws tamper cs)). \<exists>k. 3 \<le> k \<and> k \<le> 8 \<and> length tr = 2 ^ k" ..
  have "length tr \<le> 256" if "tr \<in> set (fst (build_membership_traces ws tamper cs))" for tr
  proof -
    from heights [THEN conjunct1, THEN bspec, OF that] obtain k where k: "k \<le> 8" "length tr = 2 ^ k" by (elim exE conjE)
    then have "(2 :: nat) ^ k \<le> 2 ^ 8" by (intro power_increasing) simp_all
    with k show ?thesis by simp
  qed
  then show "length (concat (fst (build_membership_traces ws tamper cs))) \<le> 256 * length ws"
    using heights sum_list_mono [of "fst (build_membership_traces ws tamper cs)" length "\<lambda>_. 256"]
    by (simp add: length_concat sum_list_triv)
qed

text \<open>
  C21. The traces stay far below the size of the field. A tree depth is one byte, so a membership
  trace has a power of two between 8 and 256 of rows; with up to two million witnesses, the
  lookups of a batch are fewer than the field has elements, as the lookup argument needs.
\<close>

theorem batch_lookups_bounded:
  assumes "\<forall>w \<in> set ws. length (ck_merkle_path w) = unat (cp_tree_depth (ck_public w))" "length ws \<le> 2 ^ 21"
  shows "(\<forall>tr \<in> set (fst (build_membership_traces ws tamper cs)). \<exists>k. 3 \<le> k \<and> k \<le> 8 \<and> length tr = 2 ^ k)
    \<and> length (concat (map membership_lookups (concat (fst (build_membership_traces ws tamper cs))))) < BABY_BEAR_PRIME"
  using batch_heights [OF assms(1), of tamper cs] assms(2) by (simp add: length_receives BABY_BEAR_PRIME_def)

theorem batch_lookups_bounded_witness:
  "length (concat (map membership_lookups (concat (fst (build_membership_traces [pair_checked] None []))))) < BABY_BEAR_PRIME"
  by (rule batch_lookups_bounded [THEN conjunct2]) (simp_all add: pair_checked_def pair_public_def)

end
