(* ===== verification/Claim_Proving.thy ===== *)
theory Claim_Proving
  imports Membership_Completeness
begin

text \<open>
  The entry point of \<open>omega-claim-prover/src/lib.rs\<close>: \<open>prove_collection\<close> validates the witnesses,
  builds the traces, hands them to the STARK library and wraps its proof into an envelope. The
  library and \<open>postcard\<close> are parameters: \<open>'p stark_prover\<close> holds what the prover calls,
  \<open>'p stark_lib\<close> what the verifier calls. The theory connects the two ends: a proof that an
  honest prover returns is accepted, and one over a tampered trace never satisfies the AIRs.
\<close>

section \<open>The batch handed to the STARK library\<close>

fun air_width :: "omega_proof_air \<Rightarrow> nat" where
  "air_width MembershipAir = NUM_MEMBERSHIP_COLS"
| "air_width Blake3TableAir = NUM_BLAKE3_COLS"

fun air_num_public_values :: "omega_proof_air \<Rightarrow> nat" where
  "air_num_public_values MembershipAir = PROOF_PUBLIC_VALUE_COUNT"
| "air_num_public_values Blake3TableAir = 0"

text \<open>\<open>usize::trailing_zeros\<close>, which is 64 on zero.\<close>

fun log2_power_of_two :: "nat \<Rightarrow> nat" where
  "log2_power_of_two value = (if value = 0 then 64 else if even value then Suc (log2_power_of_two (value div 2)) else 0)"

declare log2_power_of_two.simps [simp del]

record 'p stark_prover =
  prove_batch :: "u64 \<Rightarrow> omega_proof_air list \<Rightarrow> row list list \<Rightarrow> nat list list \<Rightarrow> nat list \<Rightarrow> 'p"
  enc_proof :: "'p \<Rightarrow> string + bytes"
  enc_envelope :: "proof_envelope \<Rightarrow> string + bytes"

section \<open>Proving\<close>

text \<open>The part of \<open>prove_collection_inner\<close> after the two validations.\<close>

definition prove_checked ::
  "digest \<Rightarrow> (u32 \<Rightarrow> val list) \<Rightarrow> 'p stark_prover \<Rightarrow> omega_commitment \<Rightarrow> claim_public_inputs list \<Rightarrow> checked_witness list
     \<Rightarrow> prover_config \<Rightarrow> trace_tamper option \<Rightarrow> prover_error + proof_bytes" where
  "prove_checked H bits_le P cm public_inputs checked config tamper =
     (let built = build_traces bits_le cm checked tamper;
          public_values = proof_public_values H cm public_inputs;
          public_values_fields = public_value_fields public_values;
          airs = proof_airs (length (bt_membership_traces built));
          traces = bt_membership_traces built @ [bt_blake3_trace built];
          degrees = map (\<lambda>trace. log2_power_of_two (length trace)) traces;
          prf = prove_batch P (rng_seed config) airs traces public_values_fields degrees
      in res_bind (map_err ProverSerialize (enc_proof P prf)) (\<lambda>stark_proof.
         res_bind (map_err ProverSerialize (enc_envelope P
           \<lparr>pe_version = PROOF_ENVELOPE_VERSION, pe_config = config, pe_commitment = cm, pe_public_inputs = public_inputs,
            pe_public_values = public_values, pe_stark_proof = stark_proof\<rparr>)) (\<lambda>bytes.
         Inr (ProofBytes bytes))))"

definition prove_collection_inner ::
  "digest \<Rightarrow> (u32 \<Rightarrow> val list) \<Rightarrow> 'p stark_prover \<Rightarrow> omega_commitment \<Rightarrow> membership_witness list \<Rightarrow> prover_config
     \<Rightarrow> trace_tamper option \<Rightarrow> prover_error + proof_bytes" where
  "prove_collection_inner H bits_le P cm witnesses config tamper =
     res_bind (validate_bundle_root H cm) (\<lambda>_.
     res_bind (validate_witnesses H cm witnesses) (\<lambda>checked.
     prove_checked H bits_le P cm (map mw_public witnesses) checked config tamper))"

definition prove_collection ::
  "digest \<Rightarrow> (u32 \<Rightarrow> val list) \<Rightarrow> 'p stark_prover \<Rightarrow> omega_commitment \<Rightarrow> membership_witness list \<Rightarrow> prover_config
     \<Rightarrow> prover_error + proof_bytes" where
  "prove_collection H bits_le P cm witnesses config = prove_collection_inner H bits_le P cm witnesses config None"

definition prove_collection_with_trace_tamper ::
  "digest \<Rightarrow> (u32 \<Rightarrow> val list) \<Rightarrow> 'p stark_prover \<Rightarrow> omega_commitment \<Rightarrow> membership_witness list \<Rightarrow> prover_config
     \<Rightarrow> trace_tamper \<Rightarrow> prover_error + proof_bytes" where
  "prove_collection_with_trace_tamper H bits_le P cm witnesses config tamper =
     prove_collection_inner H bits_le P cm witnesses config (Some tamper)"

section \<open>What the libraries promise\<close>

text \<open>
  The STARK library proves every batch whose traces satisfy the AIRs, for the heights it was
  given, and \<open>postcard\<close> reads back what it wrote. The AIR of the table accepts the row of a
  compression.
\<close>

definition stark_complete :: "(row \<Rightarrow> bool) \<Rightarrow> 'p stark_prover \<Rightarrow> 'p stark_lib \<Rightarrow> bool" where
  "stark_complete A P V \<longleftrightarrow> (\<forall>seed values traces table degrees.
     batch_satisfied A values traces table \<longrightarrow> map (\<lambda>d. 2 ^ d) degrees = map length (traces @ [table]) \<longrightarrow>
     (let airs = proof_airs (length traces); prf = prove_batch P seed airs (traces @ [table]) values degrees
      in degree_bits V prf = degrees \<and> verify_batch V seed airs prf values))"

definition postcard_law :: "'p stark_prover \<Rightarrow> 'p stark_lib \<Rightarrow> bool" where
  "postcard_law P V \<longleftrightarrow> (\<forall>prf bytes. enc_proof P prf = Inr bytes \<longrightarrow> dec_proof V bytes = Some prf)
     \<and> (\<forall>env bytes. enc_envelope P env = Inr bytes \<longrightarrow> dec_envelope V bytes = Some env)"

definition postcard_fails :: "'p stark_prover \<Rightarrow> string \<Rightarrow> bool" where
  "postcard_fails P s \<longleftrightarrow> (\<exists>prf. enc_proof P prf = Inl s) \<or> (\<exists>env. enc_envelope P env = Inl s)"

definition blake3_air_accepts :: "(u32 \<Rightarrow> val list) \<Rightarrow> (row \<Rightarrow> bool) \<Rightarrow> bool" where
  "blake3_air_accepts B A \<longleftrightarrow> (\<forall>c. compression_ok c \<longrightarrow> A (fill_trace_row B (\<lambda>_. 0) c))"

section \<open>Heights\<close>

lemma log2_power_of_two_power: "log2_power_of_two (2 ^ k) = k"
  by (induction k) (simp_all add: log2_power_of_two.simps [of "Suc 0"] log2_power_of_two.simps [of "2 * 2 ^ k" for k])

lemma public_value_fields_match_airs:
  assumes "digest32 H" "list_all public_wf ps"
  shows "map length (public_value_fields (proof_public_values H cm ps)) = map air_num_public_values (proof_airs (length ps))"
proof -
  have "length (public_value_row (proof_binding_words H cm ps) p) = PROOF_PUBLIC_VALUE_COUNT" if "public_wf p" for p
    using that proof_binding_words_length [OF assms(1)] by (simp add: public_value_row_def public_wf_def offset_defs)
  with assms(2) have "map (length \<circ> public_value_row (proof_binding_words H cm ps)) ps = replicate (length ps) PROOF_PUBLIC_VALUE_COUNT"
    by (intro nth_equalityI) (simp_all add: list_all_iff)
  then show ?thesis by (simp add: public_value_fields_def proof_public_values_def proof_airs_def comp_def)
qed

lemma built_heights:
  assumes "digest32 H" "blake3_law H" "bits_le_law B" "\<forall>w \<in> set ws. witness_on_path H w \<and> ck_merkle_path w \<noteq> []" "ws \<noteq> []"
    and "built = build_traces B cm ws None"
  shows "map (\<lambda>d. 2 ^ d) (map (\<lambda>trace. log2_power_of_two (length trace)) (bt_membership_traces built @ [bt_blake3_trace built]))
      = map length (bt_membership_traces built @ [bt_blake3_trace built])"
    "length (concat (bt_membership_traces built)) \<le> 256 * length ws"
proof -
  let ?cs = "concat (map (witness_compressions H) ws)"
  have depth: "\<forall>w \<in> set ws. length (ck_merkle_path w) = unat (cp_tree_depth (ck_public w))"
    using assms(4) by (simp add: witness_on_path_def)
  have traces: "bt_membership_traces built = fst (build_membership_traces ws None [])"
    by (simp add: assms(6) build_traces_def split_beta)
  show "length (concat (bt_membership_traces built)) \<le> 256 * length ws"
    using batch_heights(2) [OF depth] by (simp add: traces)
  have "?cs \<noteq> []" using assms(5) by (cases ws) (simp_all add: witness_compressions_def)
  then have "length (bt_blake3_trace built) = 2 ^ clog2 (length ?cs)"
    using le_next_power_of_two [of "length ?cs"]
    by (simp add: assms(6) built_batch(2) [OF assms(1-4)] build_blake3_trace_rows next_power_of_two_clog2)
  moreover have "2 ^ log2_power_of_two (length tr) = length tr" if "tr \<in> set (bt_membership_traces built)" for tr
    using batch_heights(1) [OF depth, of None "[]"] that by (auto simp: traces log2_power_of_two_power)
  ultimately show "map (\<lambda>d. 2 ^ d) (map (\<lambda>trace. log2_power_of_two (length trace)) (bt_membership_traces built @ [bt_blake3_trace built]))
      = map length (bt_membership_traces built @ [bt_blake3_trace built])"
    by (simp add: log2_power_of_two_power)
qed

section \<open>Honest proofs\<close>

lemma honest_batch:
  assumes "digest32 H" "blake3_law H" "bits_le_law B" "\<forall>w \<in> set ws. witness_on_path H w \<and> ck_merkle_path w \<noteq> []"
    and "ws \<noteq> []" "length ws \<le> 2 ^ 21" "blake3_air_accepts B A"
    and "built = build_traces B cm ws None"
  shows "batch_satisfied A (public_value_fields (proof_public_values H cm (map ck_public ws)))
    (bt_membership_traces built) (bt_blake3_trace built)"
proof -
  let ?cs = "concat (map (witness_compressions H) ws)"
  have ne: "?cs \<noteq> []" using assms(5) by (cases ws) (simp_all add: witness_compressions_def)
  have "compression_ok (compression_of (replicate 16 0) IV 0 0 DUMMY_FLAGS)" by (rule compression_of_ok) (simp_all add: IV_def)
  moreover have "\<forall>c \<in> set ?cs. compression_ok c"
    using witness_compressions_flagged [OF assms(1,2)] assms(4) by auto
  ultimately have "list_all A (bt_blake3_trace built)"
    using assms(7) by (auto simp: assms(8) built_batch(2) [OF assms(1-4)] build_blake3_trace_rows [OF ne] blake3_air_accepts_def
        list_all_iff in_set_replicate)
  moreover have "3 * length (concat (bt_membership_traces built)) < BABY_BEAR_PRIME"
    using built_heights(2) [OF assms(1-5,8)] assms(6) by (simp add: BABY_BEAR_PRIME_def)
  moreover have "length (bt_membership_traces built) = length ws" by (simp add: assms(8) built_batch(1) [OF assms(1-4)])
  ultimately show ?thesis
    using built_batch_satisfied [OF assms(1-4) refl] built_batch(3) [OF assms(1-4)] unfolding batch_satisfied_def
    by (simp add: assms(8) public_value_fields_def proof_public_values_def)
qed


lemma validated_inputs_match:
  assumes "validate_witnesses H cm ws = Inr cks"
  shows "list_all (input_matches cm) (map mw_public ws)"
proof -
  have "input_matches cm (mw_public w)" if "w \<in> set ws" for w
  proof -
    from that obtain i where i: "i < length ws" "w = ws ! i" by (metis in_set_conv_nth)
    then have "validate_witness H cm i w = Inr (cks ! i)"
      using assms by (auto simp: validate_witnesses_def collect_results_Inr list_all2_conv_all_nth nth_enumerate_eq)
    then show ?thesis unfolding validate_witness_Inr input_matches_def by blast
  qed
  then show ?thesis by (simp add: list_all_iff)
qed

text \<open>Witnesses on their path give a proof that the verifier accepts, whether they were validated or not.\<close>

lemma checked_proof_verifies:
  assumes "digest32 H" "blake3_law H" "bits_le_law B" "blake3_air_accepts B A" "stark_complete A P V" "postcard_law P V"
    and ok: "\<forall>c \<in> set cks. witness_on_path H c \<and> ck_merkle_path c \<noteq> []" and ne: "cks \<noteq> []" "length cks \<le> 2 ^ 21"
    and matches: "list_all (input_matches cm) (map ck_public cks)"
  shows "case prove_checked H B P cm (map ck_public cks) cks config None of
      Inl e \<Rightarrow> (\<exists>s. e = ProverSerialize s \<and> postcard_fails P s)
    | Inr prf \<Rightarrow> verify H V cm (map ck_public cks) prf = Inr ()"
proof -
  let ?built = "build_traces B cm cks None" and ?ps = "map ck_public cks"
  let ?traces = "bt_membership_traces ?built @ [bt_blake3_trace ?built]"
  let ?sp = "prove_batch P (rng_seed config) (proof_airs (length cks)) ?traces (public_value_fields (proof_public_values H cm ?ps))
    (map (\<lambda>trace. log2_power_of_two (length trace)) ?traces)"
  have n: "length (bt_membership_traces ?built) = length cks" by (simp add: built_batch(1) [OF assms(1-3) ok])
  have wf: "list_all public_wf ?ps" using ok by (simp add: list_all_iff witness_on_path_def)
  have sp: "length (degree_bits V ?sp) = Suc (length cks)"
    "verify_batch V (rng_seed config) (proof_airs (length cks)) ?sp (public_value_fields (proof_public_values H cm ?ps))"
    using assms(5) [unfolded stark_complete_def Let_def, rule_format,
      OF honest_batch [OF assms(1-3) ok ne assms(4) refl, of cm] built_heights(1) [OF assms(1-3) ok ne(1) refl, of cm], of "rng_seed config"]
    by (simp_all add: n)
  have prove: "prove_checked H B P cm ?ps cks config None =
      res_bind (map_err ProverSerialize (enc_proof P ?sp)) (\<lambda>stark_proof.
      res_bind (map_err ProverSerialize (enc_envelope P
        \<lparr>pe_version = PROOF_ENVELOPE_VERSION, pe_config = config, pe_commitment = cm, pe_public_inputs = ?ps,
         pe_public_values = proof_public_values H cm ?ps, pe_stark_proof = stark_proof\<rparr>)) (\<lambda>bytes.
      Inr (ProofBytes bytes)))"
    by (simp only: prove_checked_def Let_def n)
  show ?thesis
  proof (cases "prove_checked H B P cm ?ps cks config None")
    case (Inl e)
    then show ?thesis unfolding prove by (auto simp: res_bind_eq_Inl map_err_eq_Inl postcard_fails_def)
  next
    case (Inr pb)
    with prove assms(6) obtain stark_proof env where "dec_proof V stark_proof = Some ?sp" "dec_envelope V (proof_raw pb) = Some env"
      "env = \<lparr>pe_version = PROOF_ENVELOPE_VERSION, pe_config = config, pe_commitment = cm, pe_public_inputs = ?ps,
         pe_public_values = proof_public_values H cm ?ps, pe_stark_proof = stark_proof\<rparr>"
      by (auto simp: res_bind_eq_Inr map_err_def postcard_law_def split: sum.splits)
    with sp matches Inr show ?thesis by (simp add: verify_Inr [OF assms(1) wf])
  qed
qed

text \<open>
  C2. An honest proof is accepted. When the bundle root and the witnesses pass the prover's
  checks, there are between 1 and two to the power 21 witnesses, and every path has a step,
  \<open>prove_collection\<close> fails only if \<open>postcard\<close> cannot encode, and the bytes it returns pass
  \<open>verify\<close> for the same commitment and public inputs.
\<close>

theorem honest_proof_verifies:
  assumes "digest32 H" "blake3_law H" "bits_le_law B" "blake3_air_accepts B A" "stark_complete A P V" "postcard_law P V"
    and "validate_bundle_root H cm = Inr ()" "validate_witnesses H cm ws = Inr cks" "ws \<noteq> []" "length ws \<le> 2 ^ 21"
    and "list_all (\<lambda>w. public_wf (mw_public w) \<and> list_all hash_wf (mw_merkle_path w) \<and> mw_merkle_path w \<noteq> []) ws"
  shows "case prove_collection H B P cm ws config of
      Inl e \<Rightarrow> (\<exists>s. e = ProverSerialize s \<and> postcard_fails P s)
    | Inr prf \<Rightarrow> verify H V cm (map mw_public ws) prf = Inr ()"
proof -
  have wf: "list_all (\<lambda>w. public_wf (mw_public w) \<and> list_all hash_wf (mw_merkle_path w)) ws"
    using assms(11) by (simp add: list_all_iff)
  note v = validate_witnesses_on_path [OF assms(8) wf]
  have "\<forall>p \<in> set (map ck_merkle_path cks). p \<noteq> []" unfolding v(2) using assms(11) by (auto simp: list_all_iff)
  with v(3) have ok: "\<forall>c \<in> set cks. witness_on_path H c \<and> ck_merkle_path c \<noteq> []" by simp
  have "length cks = length ws" using arg_cong [OF v(1), of length] by simp
  then have "cks \<noteq> []" "length cks \<le> 2 ^ 21" using assms(9,10) by auto
  from checked_proof_verifies [OF assms(1-6) ok this, unfolded v(1), OF validated_inputs_match [OF assms(8)]] show ?thesis
    by (simp add: prove_collection_def prove_collection_inner_def assms(7,8))
qed

text \<open>A library that accepts one proof, for the public values it was made for.\<close>

definition echo_prover :: "nat list list \<times> nat list \<Rightarrow> proof_envelope \<Rightarrow> (nat list list \<times> nat list) stark_prover" where
  "echo_prover prf env = \<lparr>prove_batch = (\<lambda>seed airs traces values degrees. (values, degrees)),
     enc_proof = (\<lambda>p. if p = prf then Inr [] else Inl ''unknown proof''),
     enc_envelope = (\<lambda>e. if e = env then Inr [] else Inl ''unknown envelope'')\<rparr>"

definition echo_stark :: "nat list list \<times> nat list \<Rightarrow> proof_envelope \<Rightarrow> (nat list list \<times> nat list) stark_lib" where
  "echo_stark prf env = \<lparr>dec_envelope = (\<lambda>_. Some env), dec_proof = (\<lambda>_. Some prf), degree_bits = snd,
     verify_batch = (\<lambda>seed airs p values. fst p = values)\<rparr>"

lemma echo_laws:
  "blake3_air_accepts word_bits table_air" "stark_complete table_air (echo_prover prf env) (echo_stark prf env)"
  "postcard_law (echo_prover prf env) (echo_stark prf env)"
  using fill_trace_row_holds
  by (auto simp: stark_complete_def postcard_law_def blake3_air_accepts_def echo_prover_def echo_stark_def table_air_def split: if_splits)

lemma single_degrees:
  assumes "witness_on_path blake3_two_blocks w" "length (ck_merkle_path w) = d" "0 < d"
    and "max (next_power_of_two d) 8 = 2 ^ k" "next_power_of_two (Suc (2 * d)) = 2 ^ m"
  shows "map (\<lambda>tr. log2_power_of_two (length tr)) (bt_membership_traces (build_traces word_bits cm [w] None)
     @ [bt_blake3_trace (build_traces word_bits cm [w] None)]) = [k, m]"
proof -
  let ?H = blake3_two_blocks
  have ok: "\<forall>w \<in> set [w]. witness_on_path ?H w \<and> ck_merkle_path w \<noteq> []" using assms(1-3) by auto
  note built = built_batch [OF blake3_two_blocks_laws bits_le_law_word_bits ok, of cm]
  have "length (concat (map (path_compressions ?H w) [0..<n])) = 2 * n" for n
    by (induction n) (simp_all add: path_compressions_def Let_def split_beta)
  then have cs: "length (witness_compressions ?H w) = Suc (2 * d)" "witness_compressions ?H w \<noteq> []"
    by (simp_all add: witness_compressions_def assms(2))
  have "length (witness_trace ?H w) = 2 ^ k" using assms(2-4) le_next_power_of_two [of d] by (simp add: witness_trace_def Let_def)
  moreover have "length (build_blake3_trace word_bits (witness_compressions ?H w)) = 2 ^ m"
    using le_next_power_of_two [of "Suc (2 * d)"] by (simp add: build_blake3_trace_rows [OF cs(2)] cs(1) assms(5))
  ultimately show ?thesis by (simp add: built(1,2) log2_power_of_two_power)
qed

text \<open>The claim of the pair of leaves.\<close>

definition pair_proof :: "nat list list \<times> nat list" where
  "pair_proof = (pair_values, [3, 2])"

lemma pair_proves:
  "prove_collection blake3_two_blocks word_bits (echo_prover pair_proof pair_envelope) pair_commitment [pair_membership] prover_config_default
     = Inr (ProofBytes [])"
proof -
  have validated: "validate_bundle_root blake3_two_blocks pair_commitment = Inr ()"
      "validate_witnesses blake3_two_blocks pair_commitment [pair_membership] = Inr [pair_checked]"
    by (simp add: validate_bundle_root_def pair_commitment_def, simp add: validate_witnesses_def pair_validates)
  have pub: "mw_public pair_membership = pair_public" by (simp add: pair_membership_def)
  have path: "witness_on_path blake3_two_blocks pair_checked"
    by (rule validated_on_path [OF pair_validates]) (simp_all add: pair_membership_def pair_public_wf)
  have "next_power_of_two 1 = 1" "next_power_of_two 3 = 4"
    using next_power_of_two_clog2 [of 1] next_power_of_two_clog2 [of 3] by (simp_all add: clog2_eval numeral_eq_Suc)
  then have degrees: "map (\<lambda>tr. log2_power_of_two (length tr)) (bt_membership_traces (build_traces word_bits pair_commitment [pair_checked] None)
     @ [bt_blake3_trace (build_traces word_bits pair_commitment [pair_checked] None)]) = [3, 2]"
    by (intro single_degrees [OF path, of 1]) (simp_all add: pair_checked_def eval_nat_numeral)
  show ?thesis unfolding prove_collection_def prove_collection_inner_def prove_checked_def validated res_bind_simps Let_def degrees
    by (simp add: pub echo_prover_def pair_proof_def pair_values_def pair_envelope_def PROOF_ENVELOPE_VERSION_def)
qed

theorem honest_proof_verifies_witness:
  "verify blake3_two_blocks (echo_stark pair_proof pair_envelope) pair_commitment [pair_public] (ProofBytes []) = Inr ()"
proof -
  have validated: "validate_bundle_root blake3_two_blocks pair_commitment = Inr ()"
      "validate_witnesses blake3_two_blocks pair_commitment [pair_membership] = Inr [pair_checked]"
    by (simp add: validate_bundle_root_def pair_commitment_def, simp add: validate_witnesses_def pair_validates)
  show ?thesis
    using honest_proof_verifies [OF blake3_two_blocks_laws bits_le_law_word_bits echo_laws validated, of pair_proof pair_envelope, where config = prover_config_default]
      pair_proves pair_public_wf by (simp add: pair_membership_def)
qed

section \<open>The padding leaf\<close>

text \<open>
  C18. The verifier does not compare the leaf index with the item count, so the padding of a tree
  can be claimed. Take a committed tree with a padding leaf and a public input with leaf index
  \<open>u64::MAX\<close> that is right in every other respect. The empty payload has a path of the claimed
  depth to the committed root. The prover refuses it because the index is out of range, but the
  verifier's check of the public input passes, and a prover that leaves out its own validation
  gets bytes that pass \<open>verify\<close>, unless \<open>postcard\<close> cannot encode them.
\<close>

theorem padding_leaf_is_provable:
  assumes "digest32 H" "blake3_law H" "bits_le_law B" "blake3_air_accepts B A" "stark_complete A P V" "postcard_law P V"
    and "commits_to H cm s ps t" "length ps < leaf_count t" "0 < depth t" "depth t \<le> 255"
    and "public_wf p" "cp_sub_tree_id p = s" "cp_leaf_index p = EMPTY_INDEX_SENTINEL" "cp_tree_depth p = of_nat (depth t)"
      "cp_per_sub_tree_root p = oc_sub_tree_roots_blake3 cm ! tree_slot s"
      "cp_bundle_root_blake3 p = oc_bundle_root_blake3 cm"
  shows "\<exists>path. membership_statement H p [] path
    \<and> validate_witness H cm i \<lparr>mw_public = p, mw_leaf_payload = [], mw_merkle_path = path\<rparr>
        = Inl (LeafIndexOutOfRange i EMPTY_INDEX_SENTINEL (oc_item_counts cm ! tree_slot s))
    \<and> validate_public_input cm i p = Inr ()
    \<and> (case prove_checked H B P cm [p] [\<lparr>ck_public = p, ck_leaf_payload = [], ck_merkle_path = path,
          ck_leaf_hash = leaf_hash_v2 H s EMPTY_INDEX_SENTINEL []\<rparr>] config None of
        Inl e \<Rightarrow> (\<exists>s. e = ProverSerialize s \<and> postcard_fails P s)
      | Inr prf \<Rightarrow> verify H V cm [p] prf = Inr ())"
proof -
  from padding_statement [OF assms(1,7,8,10,12-)] obtain path where m: "input_matches cm p" and path: "membership_statement H p [] path"
    by blast
  let ?c = "\<lparr>ck_public = p, ck_leaf_payload = [], ck_merkle_path = path, ck_leaf_hash = leaf_hash_v2 H s EMPTY_INDEX_SENTINEL []\<rparr>"
  have "unat (of_nat (depth t) :: u8) = depth t" using assms(10) by (simp add: unat_of_nat take_bit_eq_mod)
  with path assms(9,14) have "path \<noteq> []" by (auto simp: membership_statement_def)
  with path assms(11-13) have "\<forall>c \<in> set [?c]. witness_on_path H c \<and> ck_merkle_path c \<noteq> []"
    by (simp add: witness_on_path_def membership_statement_def)
  from checked_proof_verifies [OF assms(1-6) this, where config = config and cm = cm, unfolded list.map checked_witness.simps] m
  have "case prove_checked H B P cm [p] [?c] config None of
      Inl e \<Rightarrow> (\<exists>s. e = ProverSerialize s \<and> postcard_fails P s) | Inr prf \<Rightarrow> verify H V cm [p] prf = Inr ()"
    by simp
  moreover have "validate_witness H cm i \<lparr>mw_public = p, mw_leaf_payload = [], mw_merkle_path = path\<rparr>
      = Inl (LeafIndexOutOfRange i EMPTY_INDEX_SENTINEL (oc_item_counts cm ! tree_slot s))"
    using assms(12,13,16) commits_to_root(3) [OF assms(7)]
    by (simp add: validate_witness_def Let_def leaf_preimage_len_def MAX_V01_LEAF_PREIMAGE_LEN_def EMPTY_INDEX_SENTINEL_def)
  ultimately show ?thesis using m path validate_public_input_Inr [of cm i p "()"] by blast
qed

text \<open>A tree of three leaves and one of padding.\<close>

definition trio_root :: hash where
  "trio_root = v1_root blake3_two_blocks 1 [[1], [2], [3]]"

definition trio_commitment :: omega_commitment where
  "trio_commitment = \<lparr>oc_bundle_root_blake3 = bundle_root blake3_two_blocks (replicate 7 trio_root), oc_sub_tree_roots_blake3 = replicate 7 trio_root,
     oc_item_counts = replicate 7 3, oc_leaf_counts = replicate 7 4, oc_tree_depths = replicate 7 2\<rparr>"

definition trio_public :: claim_public_inputs where
  "trio_public = \<lparr>cp_sub_tree_id = 1, cp_leaf_index = EMPTY_INDEX_SENTINEL, cp_tree_depth = 2, cp_per_sub_tree_root = trio_root,
     cp_bundle_root_blake3 = oc_bundle_root_blake3 trio_commitment, cp_nullifier = replicate 32 7, cp_recipient_starstream_addr = replicate 32 8\<rparr>"

definition trio_values :: "u32 list list" where
  "trio_values = proof_public_values blake3_two_blocks trio_commitment [trio_public]"

definition trio_proof :: "nat list list \<times> nat list" where
  "trio_proof = (public_value_fields trio_values, [3, 3])"

definition trio_envelope :: proof_envelope where
  "trio_envelope = \<lparr>pe_version = PROOF_ENVELOPE_VERSION, pe_config = prover_config_default, pe_commitment = trio_commitment,
     pe_public_inputs = [trio_public], pe_public_values = trio_values, pe_stark_proof = []\<rparr>"

lemma trio_commits_to: "commits_to blake3_two_blocks trio_commitment 1 [[1], [2], [3]] (v1_tree blake3_two_blocks 1 [[1], [2], [3]])"
  by (simp add: commits_to_def build_v1_distinct v1_tree_simps trio_commitment_def trio_root_def tree_slot_def
      v1_depth_def clog2_eval as_u64_def)

lemma trio_public_wf: "public_wf trio_public"
  by (simp add: public_wf_def trio_public_def trio_commitment_def trio_root_def bundle_root_def v1_root_length blake3_two_blocks_laws(1))

lemma trio_proves:
  assumes "membership_statement blake3_two_blocks trio_public [] path"
  shows "prove_checked blake3_two_blocks word_bits (echo_prover trio_proof trio_envelope) trio_commitment [trio_public]
    [\<lparr>ck_public = trio_public, ck_leaf_payload = [], ck_merkle_path = path,
      ck_leaf_hash = leaf_hash_v2 blake3_two_blocks 1 EMPTY_INDEX_SENTINEL []\<rparr>] prover_config_default None = Inr (ProofBytes [])"
proof -
  let ?c = "\<lparr>ck_public = trio_public, ck_leaf_payload = [], ck_merkle_path = path,
      ck_leaf_hash = leaf_hash_v2 blake3_two_blocks 1 EMPTY_INDEX_SENTINEL []\<rparr>"
  have path: "witness_on_path blake3_two_blocks ?c" "length (ck_merkle_path ?c) = 2"
    using assms trio_public_wf by (simp_all add: witness_on_path_def membership_statement_def trio_public_def)
  have "next_power_of_two 2 = 2" "next_power_of_two 5 = 8"
    by (simp_all add: next_power_of_two_clog2 clog2.simps)
  then have degrees: "map (\<lambda>tr. log2_power_of_two (length tr)) (bt_membership_traces (build_traces word_bits trio_commitment [?c] None)
     @ [bt_blake3_trace (build_traces word_bits trio_commitment [?c] None)]) = [3, 3]"
    by (intro single_degrees [OF path]) (simp_all add: eval_nat_numeral)
  show ?thesis unfolding prove_checked_def Let_def degrees
    by (simp add: echo_prover_def trio_proof_def trio_values_def trio_envelope_def)
qed

theorem padding_leaf_is_provable_witness:
  "verify blake3_two_blocks (echo_stark trio_proof trio_envelope) trio_commitment [trio_public] (ProofBytes []) = Inr ()
    \<and> validate_public_input trio_commitment 0 trio_public = Inr ()"
proof -
  let ?t = "v1_tree blake3_two_blocks 1 [[1], [2], [3]]"
  have shape: "length [[1], [2], [3 :: u8]] < leaf_count ?t" "0 < depth ?t" "depth ?t \<le> 255"
    "cp_tree_depth trio_public = of_nat (depth ?t)"
    by (simp_all add: v1_tree_simps v1_depth_def clog2_eval trio_public_def)
  have pub: "cp_sub_tree_id trio_public = 1" "cp_leaf_index trio_public = EMPTY_INDEX_SENTINEL"
    "cp_per_sub_tree_root trio_public = oc_sub_tree_roots_blake3 trio_commitment ! tree_slot 1"
    "cp_bundle_root_blake3 trio_public = oc_bundle_root_blake3 trio_commitment"
    by (simp_all add: trio_public_def trio_commitment_def tree_slot_def)
  from padding_leaf_is_provable [OF blake3_two_blocks_laws bits_le_law_word_bits echo_laws trio_commits_to shape(1-3) trio_public_wf
      pub(1,2) shape(4) pub(3,4), where config = prover_config_default and i = 0, of trio_proof trio_envelope]
  show ?thesis using trio_proves by auto
qed

section \<open>Tampered traces\<close>

lemma tamper_trace_column:
  "tamper_trace PayloadByte row = row(111 := row 111 + 1)" "tamper_trace SiblingByte row = row(177 := row 177 + 1)"
  "tamper_trace CurrentNodeByte row = row(305 := row 305 + 1)" "tamper_trace LeafIndexByte row = row(8 := row 8 + 1)"
  by (simp_all add: tamper_trace_def col_values LEAF_INDEX_LEN_def)

lemma hash_exprs_head: "hash_exprs r a = hash_exprs r' b \<Longrightarrow> r a = r' b"
  unfolding hash_exprs_eq by (drule spec [of _ 0]) simp

text \<open>Three of the columns occur in a constraint with a cell that the tampering leaves alone.\<close>

lemma tampered_row_violates:
  assumes sat: "membership_satisfied tr pub" and node: "(tr ! 0) COL_HAS_NODE_HASH = 1" and len: "1 < length tr"
    and t: "t \<noteq> PayloadByte"
  shows "\<not> membership_satisfied (tr[0 := tamper_trace t (tr ! 0)]) pub"
proof
  let ?tr = "tr[0 := tamper_trace t (tr ! 0)]" and ?r = "tr ! 0"
  assume sat': "membership_satisfied ?tr pub"
  have row: "?tr ! 0 = tamper_trace t ?r" "?tr ! Suc 0 = tr ! Suc 0" "0 < length tr" "0 < length ?tr" using len by (cases tr; simp)+
  note old = satisfied_row [OF sat row(3)] and new = satisfied_row [OF sat' row(4), unfolded row(1,2)]
  have real: "?r COL_IS_REAL_STEP = 1" by (rule satisfied_first(2) [OF sat])
  show False
  proof (cases t)
    case LeafIndexByte
    have "\<forall>o' < 8. ?r (COL_LEAF_INDEX_BE + o') = pub (1 + o')" using old(2) real by (simp add: real_vanish)
    moreover have "\<forall>o' < 8. tamper_trace t ?r (COL_LEAF_INDEX_BE + o') = pub (1 + o')"
      using new(2) satisfied_first(2) [OF sat', unfolded row(1)] by (simp add: real_vanish)
    ultimately have "?r (COL_LEAF_INDEX_BE + 7) = tamper_trace t ?r (COL_LEAF_INDEX_BE + 7)" by simp
    then show False by (simp add: LeafIndexByte tamper_trace_column col_values)
  next
    case SiblingByte
    have "?r COL_DIRECTION_BIT = 0 \<or> ?r COL_DIRECTION_BIT = 1" using old(1) by (auto simp: flags_vanish)
    with old(4) new(4) node show False unfolding node_vanish SiblingByte tamper_trace_column
      by (auto simp: col_values dest!: hash_exprs_head)
  next
    case CurrentNodeByte
    have "?r COL_IS_LAST_STEP = 0 \<or> ?r COL_IS_LAST_STEP = 1" using old(1) by (auto simp: flags_vanish)
    then show False
    proof
      assume "?r COL_IS_LAST_STEP = 0"
      then have "continuing ?r" "continuing (tamper_trace t ?r)"
        using real by (simp_all add: CurrentNodeByte tamper_trace_column col_values)
      then have "hash_exprs (tr ! Suc 0) COL_PREV_NODE = hash_exprs ?r COL_CURRENT_NODE"
          "hash_exprs (tr ! Suc 0) COL_PREV_NODE = hash_exprs (tamper_trace t ?r) COL_CURRENT_NODE"
        using satisfied_next(3) [OF sat, of 0] satisfied_next(3) [OF sat', of 0] len unfolding row(1,2) by simp_all
      then show False by (auto simp: CurrentNodeByte tamper_trace_column col_values dest!: hash_exprs_head)
    next
      assume "?r COL_IS_LAST_STEP = 1"
      then have "\<forall>i < 32. ?r (COL_CURRENT_NODE + i) = pub (10 + i)" "\<forall>i < 32. tamper_trace t ?r (COL_CURRENT_NODE + i) = pub (10 + i)"
        using old(5) new(5) real by (simp_all add: stop_vanish CurrentNodeByte tamper_trace_column col_values)
      then have "?r (COL_CURRENT_NODE + 0) = tamper_trace t ?r (COL_CURRENT_NODE + 0)"
        by (simp only: zero_less_numeral)
      then show False by (simp add: CurrentNodeByte tamper_trace_column col_values)
    qed
  qed (use t in simp)
qed

text \<open>The payload occurs in the tuple of the leaf, which the table then does not send often enough.\<close>

lemma tampered_payload_unbalanced:
  assumes "r COL_IS_FIRST_STEP = 1" "lookups_balanced sends (concat (map membership_lookups (r # rs)))"
  shows "\<not> lookups_balanced sends (concat (map membership_lookups (tamper_trace PayloadByte r # rs)))"
proof
  let ?r = "tamper_trace PayloadByte r"
  assume "lookups_balanced sends (concat (map membership_lookups (?r # rs)))"
  with assms(2) have "lookup_count (leaf_lookup_exprs r) (membership_lookups r) = lookup_count (leaf_lookup_exprs r) (membership_lookups ?r)"
    by (simp add: lookups_balanced_def lookup_count_append)
  moreover have "node_first_lookup_exprs ?r = node_first_lookup_exprs r" "node_second_lookup_exprs ?r = node_second_lookup_exprs r"
    by (simp_all add: node_first_lookup_exprs_def node_second_lookup_exprs_def hash_exprs_def tamper_trace_column col_values HASH_LEN_def)
  moreover have "leaf_lookup_exprs ?r \<noteq> leaf_lookup_exprs r"
    by (simp add: leaf_lookup_exprs_def tamper_trace_column col_values)
  ultimately show False
    using assms(1) by (simp add: membership_lookups_def Let_def lookup_count_def tamper_trace_column col_values)
qed


lemma build_traces_tampered:
  assumes "build_traces B cm (c # cs) None = \<lparr>bt_membership_traces = tr # trs, bt_blake3_trace = table\<rparr>"
  shows "build_traces B cm (c # cs) (Some t) = \<lparr>bt_membership_traces = tr[0 := tamper_trace t (tr ! 0)] # trs, bt_blake3_trace = table\<rparr>"
  using assms by (auto simp: build_traces_def build_membership_trace_def Let_def split_beta)

text \<open>
  C12. A tampered trace is no proof. Whatever the cell that \<open>tamper_trace\<close> changes in the first
  row of the first trace, the batch that \<open>prove_collection_with_trace_tamper\<close> hands to the
  library no longer satisfies the AIRs under the public values of the proof: a constraint is
  broken, or the lookups are out of balance.
\<close>

theorem tampered_batch_unsatisfied:
  assumes "digest32 H" "blake3_law H" "bits_le_law B" "validate_witnesses H cm ws = Inr cks" "ws \<noteq> []"
    and "list_all (\<lambda>w. public_wf (mw_public w) \<and> list_all hash_wf (mw_merkle_path w) \<and> mw_merkle_path w \<noteq> []) ws"
  shows "\<not> batch_satisfied A (public_value_fields (proof_public_values H cm (map mw_public ws)))
    (bt_membership_traces (build_traces B cm cks (Some t))) (bt_blake3_trace (build_traces B cm cks (Some t)))"
proof
  have wf: "list_all (\<lambda>w. public_wf (mw_public w) \<and> list_all hash_wf (mw_merkle_path w)) ws"
    using assms(6) by (simp add: list_all_iff)
  note v = validate_witnesses_on_path [OF assms(4) wf]
  have "\<forall>p \<in> set (map ck_merkle_path cks). p \<noteq> []" unfolding v(2) using assms(6) by (auto simp: list_all_iff)
  with v(3) have ok: "\<forall>c \<in> set cks. witness_on_path H c \<and> ck_merkle_path c \<noteq> []" by simp
  obtain c cs where cks: "cks = c # cs" using v(1) assms(5) by (cases cks) simp_all
  note batch = built_batch [OF assms(1-3) ok, of cm]
  let ?tr = "witness_trace H c" and ?table = "bt_blake3_trace (build_traces B cm cks None)"
  have c: "witness_on_path H c" "0 < length (ck_merkle_path c)" using ok by (simp_all add: cks)
  have first: "?tr ! 0 = path_row H c 0" "1 < length ?tr" using c(2) by (simp_all add: witness_trace_def Let_def nth_append)
  have built: "build_traces B cm cks (Some t) = \<lparr>bt_membership_traces = ?tr[0 := tamper_trace t (?tr ! 0)] # map (witness_trace H) cs,
      bt_blake3_trace = ?table\<rparr>"
    unfolding cks by (rule build_traces_tampered) (use batch(1) in \<open>simp add: cks\<close>)
  let ?pub = "public_of (public_value_fields (proof_public_values H cm (map mw_public ws)) ! 0)"
  assume bad: "batch_satisfied A (public_value_fields (proof_public_values H cm (map mw_public ws)))
    (bt_membership_traces (build_traces B cm cks (Some t))) (bt_blake3_trace (build_traces B cm cks (Some t)))"
  have sat: "membership_satisfied ?tr ?pub"
    using built_batch_satisfied [OF assms(1-3) ok v(1) [symmetric], of 0 cm] unfolding batch(1) by (simp add: cks)
  from bad have sat': "membership_satisfied (?tr[0 := tamper_trace t (?tr ! 0)]) ?pub"
    unfolding batch_satisfied_def built by force
  have payload: "t = PayloadByte"
    using tampered_row_violates [OF sat _ first(2)] sat' path_row_cells(2) [OF assms(1,2) c] first(1) by auto
  obtain rs where tr: "?tr = path_row H c 0 # rs" using first by (cases ?tr) simp_all
  from bad have "lookups_balanced (concat (map blake3_lookups ?table))
      (concat (map membership_lookups (tamper_trace PayloadByte (path_row H c 0) # rs @ concat (map (witness_trace H) cs))))"
    unfolding batch_satisfied_def built using tr payload by simp
  moreover have "lookups_balanced (concat (map blake3_lookups ?table))
      (concat (map membership_lookups (path_row H c 0 # rs @ concat (map (witness_trace H) cs))))"
    using batch(3) unfolding batch(1) by (simp add: cks tr)
  ultimately show False
    using tampered_payload_unbalanced [of "path_row H c 0"] path_row_cells(3) [OF assms(1,2) c] by fastforce
qed

theorem tampered_batch_unsatisfied_witness:
  "\<not> batch_satisfied table_air (public_value_fields (proof_public_values blake3_two_blocks pair_commitment [pair_public]))
    (bt_membership_traces (build_traces word_bits pair_commitment [pair_checked] (Some PayloadByte)))
    (bt_blake3_trace (build_traces word_bits pair_commitment [pair_checked] (Some PayloadByte)))"
proof -
  have "validate_witnesses blake3_two_blocks pair_commitment [pair_membership] = Inr [pair_checked]"
    by (simp add: validate_witnesses_def pair_validates)
  from tampered_batch_unsatisfied [OF blake3_two_blocks_laws bits_le_law_word_bits this, of table_air PayloadByte]
  show ?thesis using pair_public_wf by (simp add: pair_membership_def)
qed

end
