(* ===== verification/Node_Config.thy ===== *)
theory Node_Config
  imports Raft_Storage Raft_Network
begin

text \<open>
  The configuration of a node in \<open>omega-toy-consensus\<close> (\<open>config.rs\<close>): the records, the parser of
  the \<open>--peer\<close> flag and the single-node default, with the parts of the standard library that they
  call: \<open>str::splitn\<close>, \<open>u64::from_str\<close> and socket addresses. Durations are nanoseconds, paths are
  lists of components.
\<close>

section \<open>Socket addresses\<close>

datatype ip_addr = IpV4 u8 u8 u8 u8 | IpV6 "u16 list"

record socket_addr =
  sa_ip :: ip_addr
  sa_port :: u16
  sa_scope_id :: u32

fun is_loopback :: "ip_addr \<Rightarrow> bool" where
  "is_loopback (IpV4 a b c d) \<longleftrightarrow> a = 127"
| "is_loopback (IpV6 segments) \<longleftrightarrow> segments = [0, 0, 0, 0, 0, 0, 0, 1]"

section \<open>Errors\<close>

text \<open>\<open>io::Error\<close> is its text.\<close>

datatype consensus_error =
  CeStorage ledger_error
| CeNetwork network_error
| RpcBind socket_addr string
| CeRaft string
| CeConfig string
| CeIdentity string
| ShutdownJoin string

section \<open>Numbers and fields\<close>

datatype int_error = IntEmpty | InvalidDigit | PosOverflow

fun int_error_display :: "int_error \<Rightarrow> string" where
  "int_error_display IntEmpty = ''cannot parse integer from empty string''"
| "int_error_display InvalidDigit = ''invalid digit found in string''"
| "int_error_display PosOverflow = ''number too large to fit in target type''"

definition to_digit :: "char \<Rightarrow> nat option" where
  "to_digit c = (let n = of_char c in if 48 \<le> n \<and> n < 58 then Some (n - 48) else None)"

text \<open>The digits from left to right; each one is read before the overflow of the product is looked at.\<close>

fun parse_digits :: "nat \<Rightarrow> string \<Rightarrow> int_error + nat" where
  "parse_digits acc [] = Inr acc"
| "parse_digits acc (c # cs) =
     (case to_digit c of
        None \<Rightarrow> Inl InvalidDigit
      | Some d \<Rightarrow> if acc * 10 + d \<ge> 2 ^ 64 then Inl PosOverflow else parse_digits (acc * 10 + d) cs)"

fun parse_u64 :: "string \<Rightarrow> int_error + u64" where
  "parse_u64 [] = Inl IntEmpty"
| "parse_u64 (c # cs) =
     (if cs = [] \<and> (c = CHR ''+'' \<or> c = CHR ''-'') then Inl InvalidDigit
      else res_bind (parse_digits 0 (if c = CHR ''+'' then cs else c # cs)) (\<lambda>n. Inr (of_nat n)))"

text \<open>\<open>str::splitn\<close>: at most \<open>n\<close> fields, the last one with the rest.\<close>

fun splitn :: "nat \<Rightarrow> char \<Rightarrow> string \<Rightarrow> string list" where
  "splitn 0 sep s = []"
| "splitn (Suc 0) sep s = [s]"
| "splitn (Suc (Suc n)) sep s =
     (if sep \<in> set s then takeWhile (\<lambda>c. c \<noteq> sep) s # splitn (Suc n) sep (tl (dropWhile (\<lambda>c. c \<noteq> sep) s))
      else [s])"

section \<open>Configuration\<close>

record peer_config =
  pc_node_id :: u64
  pc_libp2p_peer_id :: string
  pc_libp2p_addr :: string
  pc_rpc_url :: string

definition peer_from_str :: "string \<Rightarrow> consensus_error + peer_config" where
  "peer_from_str s =
     (let parts = splitn 4 (CHR '','') s
      in if length parts \<noteq> 4
         then Inl (CeConfig (''peer must be `<node_id>,<peer_id>,<libp2p>,<rpc>`, got `'' @ s @ ''`''))
         else res_bind (map_err (\<lambda>e. CeConfig (''peer node_id: '' @ int_error_display e)) (parse_u64 (parts ! 0))) (\<lambda>node_id.
              Inr \<lparr>pc_node_id = node_id, pc_libp2p_peer_id = parts ! 1, pc_libp2p_addr = parts ! 2, pc_rpc_url = parts ! 3\<rparr>))"

record rpc_config =
  rc_bind :: socket_addr
  rc_max_batch :: u16
  rc_max_request_bytes :: u32

definition default_max_batch :: u16 where "default_max_batch = 25"
definition default_max_request_bytes :: u32 where "default_max_request_bytes = 1024 * 1024"
definition default_apply_deadline :: nat where "default_apply_deadline = 5 * 1000000000"

record node_config =
  nc_node_id :: u64
  nc_data_dir :: "string list"
  nc_identity_file :: "string list option"
  nc_libp2p_listen :: string
  nc_peers :: "peer_config list"
  nc_rpc :: rpc_config
  nc_cluster_id :: string
  nc_apply_deadline :: nat
  nc_raft_rpc_timeout :: "nat option"

definition effective_raft_rpc_timeout :: "node_config \<Rightarrow> nat" where
  "effective_raft_rpc_timeout config =
     (case nc_raft_rpc_timeout config of Some t \<Rightarrow> t | None \<Rightarrow> nc_apply_deadline config)"

text \<open>
  The outer \<open>None\<close> is the overflow of \<open>8000 + node_id\<close> at 32 bits, a panic when overflow checks
  are on.
\<close>

definition single_node_localhost :: "string list \<Rightarrow> u64 \<Rightarrow> (consensus_error + node_config) option" where
  "single_node_localhost temp_dir node_id =
     (if node_id = 0 then Some (Inl (CeConfig ''node_id must be non-zero''))
      else if unat node_id \<ge> 2 ^ 32 then Some (Inl (CeConfig ''node_id exceeds u32''))
      else if 8000 + unat node_id \<ge> 2 ^ 32 then None
      else if 8000 + unat node_id \<ge> 2 ^ 16 then Some (Inl (CeConfig ''rpc port exceeds u16''))
      else Some (Inr \<lparr>nc_node_id = node_id,
        nc_data_dir = temp_dir @ [''omega-toy-consensus-'' @ show_nat (unat node_id)],
        nc_identity_file = None,
        nc_libp2p_listen = ''/ip4/127.0.0.1/tcp/'' @ show_nat (unat (4000 + node_id)),
        nc_peers = [],
        nc_rpc = \<lparr>rc_bind = \<lparr>sa_ip = IpV4 127 0 0 1, sa_port = of_nat (8000 + unat node_id), sa_scope_id = 0\<rparr>,
          rc_max_batch = 25, rc_max_request_bytes = 1024 * 1024\<rparr>,
        nc_cluster_id = ''loganet-dev'', nc_apply_deadline = 5 * 1000000000, nc_raft_rpc_timeout = None\<rparr>))"


section \<open>The peer flag reads back\<close>

lemma parse_digits_snoc: "parse_digits acc (cs @ [c]) = res_bind (parse_digits acc cs) (\<lambda>a. parse_digits a [c])"
  by (induction cs arbitrary: acc) (simp_all split: option.split)

lemma to_digit_char: "d < 10 \<Longrightarrow> to_digit (digit_char d) = Some d"
  by (simp add: to_digit_def Let_def of_char_digit)

lemma parse_show_digits: "n < 2 ^ 64 \<Longrightarrow> parse_digits 0 (show_nat n) = Inr n"
proof (induction n rule: show_nat.induct)
  case (1 n)
  then show ?case by (subst show_nat.simps) (simp add: parse_digits_snoc to_digit_char del: power_numeral)
qed

lemma parse_show_u64: "parse_u64 (show_nat (unat i)) = Inr i"
proof -
  obtain c cs where c: "show_nat (unat i) = c # cs"
    by (cases "show_nat (unat i)") (subst (asm) show_nat.simps, simp split: if_splits)
  then have "of_char c \<in> {48..<58 :: nat}" using show_nat_digits [of c "unat i"] by simp
  then have "c \<noteq> CHR ''+''" "c \<noteq> CHR ''-''" by auto
  moreover have "parse_digits 0 (c # cs) = Inr (unat i)"
    using parse_show_digits [of "unat i"] unsigned_less [of i, where ?'a = nat] by (simp only: c) simp
  ultimately show ?thesis by (simp add: c del: parse_digits.simps)
qed

lemma splitn_field: "sep \<notin> set x \<Longrightarrow> splitn (Suc (Suc n)) sep (x @ sep # rest) = x # splitn (Suc n) sep rest"
  by (simp add: takeWhile_append2 dropWhile_append2 takeWhile_append dropWhile_append)

lemma show_nat_no_comma: "CHR '','' \<notin> set (show_nat n)"
  using show_nat_digits [of "CHR '',''" n] by auto

lemma peer_flag_round_trip:
  assumes "CHR '','' \<notin> set (pc_libp2p_peer_id p)" "CHR '','' \<notin> set (pc_libp2p_addr p)"
  shows "peer_from_str (show_nat (unat (pc_node_id p)) @ '','' @ pc_libp2p_peer_id p @ '','' @ pc_libp2p_addr p @ '','' @ pc_rpc_url p) = Inr p"
proof -
  have "splitn 4 (CHR '','') (show_nat (unat (pc_node_id p)) @ '','' @ pc_libp2p_peer_id p @ '','' @ pc_libp2p_addr p @ '','' @ pc_rpc_url p)
      = [show_nat (unat (pc_node_id p)), pc_libp2p_peer_id p, pc_libp2p_addr p, pc_rpc_url p]"
    using assms by (simp add: eval_nat_numeral splitn_field show_nat_no_comma del: splitn.simps(3))
  then show ?thesis by (simp only: peer_from_str_def Let_def) (simp add: parse_show_u64)
qed

text \<open>The default configuration of a single node is defined exactly for the identifiers with a port below 65536.\<close>

lemma single_node_localhost_cases:
  "(\<exists>config. single_node_localhost tmp node_id = Some (Inr config)) \<longleftrightarrow> 0 < unat node_id \<and> unat node_id < 57536"
  "single_node_localhost tmp node_id = None \<longleftrightarrow> 4294959296 \<le> unat node_id \<and> unat node_id < 4294967296"
  "single_node_localhost tmp node_id = Some (Inr config) \<Longrightarrow> is_loopback (sa_ip (rc_bind (nc_rpc config)))"
  by (auto simp: single_node_localhost_def unat_gt_0 split: if_splits)

end
