(* ===== verification/Consensus_Rpc.thy ===== *)
theory Consensus_Rpc
  imports Node_Config
begin

text \<open>
  The JSON-RPC surface of \<open>omega-toy-consensus\<close>: error objects (\<open>rpc/error.rs\<close>), the translation
  of raft and ledger errors (\<open>routing.rs\<close>), the two methods (\<open>rpc/server.rs\<close>, \<open>rpc/types.rs\<close>), the
  batch limit and the handler of inbound raft calls (\<open>node.rs\<close>). \<open>openraft\<close> and \<open>jsonrpsee\<close> are
  parameters: \<open>client_write\<close> says what \<open>Raft::client_write\<close> returns for a command within the
  deadline.
\<close>

section \<open>Error objects\<close>

datatype json = JNull | JBool bool | JNum nat | JStr string | JObj "(string \<times> json) list"

record error_object =
  eo_code :: int
  eo_message :: string
  eo_data :: "json option"

definition CODE_NOT_LEADER :: int where "CODE_NOT_LEADER = - 32000"
definition CODE_VERIFY :: int where "CODE_VERIFY = - 32001"
definition CODE_INVALID_CLAIM :: int where "CODE_INVALID_CLAIM = - 32002"
definition CODE_REPLAY :: int where "CODE_REPLAY = - 32003"
definition CODE_WRITER_CLOSED :: int where "CODE_WRITER_CLOSED = - 32004"
definition CODE_TIMEOUT :: int where "CODE_TIMEOUT = - 32005"

text \<open>The code and the message that JSON-RPC gives to internal errors.\<close>

definition INTERNAL_ERROR_CODE :: int where "INTERNAL_ERROR_CODE = - 32603"
definition INTERNAL_ERROR_MSG :: string where "INTERNAL_ERROR_MSG = ''Internal error''"

lemmas code_defs = CODE_NOT_LEADER_def CODE_VERIFY_def CODE_INVALID_CLAIM_def CODE_REPLAY_def CODE_WRITER_CLOSED_def
  CODE_TIMEOUT_def INTERNAL_ERROR_CODE_def

definition json_option :: "('a \<Rightarrow> json) \<Rightarrow> 'a option \<Rightarrow> json" where
  "json_option f v = (case v of None \<Rightarrow> JNull | Some x \<Rightarrow> f x)"

definition json_u64 :: "'a::len word \<Rightarrow> json" where
  "json_u64 w = JNum (unat w)"

definition not_leader :: "u64 option \<Rightarrow> string option \<Rightarrow> error_object" where
  "not_leader leader_id leader_rpc_url = \<lparr>eo_code = CODE_NOT_LEADER, eo_message = ''not leader'',
     eo_data = Some (JObj [(''leader_id'', json_option json_u64 leader_id), (''leader_rpc_url'', json_option JStr leader_rpc_url)])\<rparr>"

definition error_verify :: "string \<Rightarrow> error_object" where
  "error_verify detail = \<lparr>eo_code = CODE_VERIFY, eo_message = ''proof verification failed'',
     eo_data = Some (JObj [(''verify_error'', JStr detail)])\<rparr>"

definition error_invalid_claim :: "string \<Rightarrow> error_object" where
  "error_invalid_claim detail = \<lparr>eo_code = CODE_INVALID_CLAIM, eo_message = ''invalid claim'',
     eo_data = Some (JObj [(''detail'', JStr detail)])\<rparr>"

definition error_replay :: "u32 \<Rightarrow> u64 \<Rightarrow> error_object" where
  "error_replay sub_tree_id leaf_index = \<lparr>eo_code = CODE_REPLAY, eo_message = ''claim replays an existing nullifier'',
     eo_data = Some (JObj [(''sub_tree_id'', json_u64 sub_tree_id), (''leaf_index'', json_u64 leaf_index)])\<rparr>"

definition error_writer_closed :: error_object where
  "error_writer_closed = \<lparr>eo_code = CODE_WRITER_CLOSED, eo_message = ''writer actor unavailable'',
     eo_data = Some (JObj [(''retryable'', JBool True)])\<rparr>"

definition error_timeout :: "u32 \<Rightarrow> error_object" where
  "error_timeout deadline_ms = \<lparr>eo_code = CODE_TIMEOUT, eo_message = ''apply deadline elapsed'',
     eo_data = Some (JObj [(''deadline_ms'', json_u64 deadline_ms)])\<rparr>"

definition error_internal :: "string \<Rightarrow> string \<Rightarrow> error_object" where
  "error_internal source text = \<lparr>eo_code = INTERNAL_ERROR_CODE, eo_message = INTERNAL_ERROR_MSG,
     eo_data = Some (JObj [(source, JStr text)])\<rparr>"

section \<open>Routing\<close>

text \<open>The errors of \<open>client_write\<close>; a membership-change error is its text.\<close>

datatype client_write_error = ForwardToLeader "u64 option" | ChangeMembershipError string

fun translate_client_write_error :: "client_write_error \<Rightarrow> (u64 \<Rightarrow> string option) \<Rightarrow> error_object" where
  "translate_client_write_error (ForwardToLeader leader_id) resolve_leader_url =
     not_leader leader_id (Option.bind leader_id resolve_leader_url)"
| "translate_client_write_error (ChangeMembershipError text) resolve_leader_url = error_internal ''openraft'' text"

fun translate_ledger_error :: "ledger_error \<Rightarrow> error_object" where
  "translate_ledger_error (LedgerVerify detail) = error_verify (verify_error_display detail)"
| "translate_ledger_error (InvalidClaim detail) = error_invalid_claim detail"
| "translate_ledger_error (Replay sub_tree_id leaf_index) = error_replay (ucast sub_tree_id) leaf_index"
| "translate_ledger_error WriterClosed = error_writer_closed"
| "translate_ledger_error WriterReplyCanceled = error_writer_closed"
| "translate_ledger_error other = error_internal ''ledger'' (ledger_error_display other)"

section \<open>Submitting a claim\<close>

record submit_outcome =
  so_accepted :: bool
  so_applied_index :: "u64 option"
  so_reject_reason :: "string option"

datatype raft_write =
  WriteElapsed
| WriteOk log_id ledger_response
| WriteApiError client_write_error
| WriteFatal string

fun reject_reason :: "ledger_reject \<Rightarrow> string" where
  "reject_reason RejectVerify = ''verify''"
| "reject_reason RejectInvalidClaim = ''invalid''"
| "reject_reason RejectReplay = ''replay''"
| "reject_reason RejectWriterClosed = ''internal''"
| "reject_reason RejectInternal = ''internal''"

definition deadline_ms :: "nat \<Rightarrow> u32" where
  "deadline_ms apply_deadline = of_nat (min (apply_deadline div 1000000) (2 ^ 32 - 1))"

definition leader_url :: "peer_config list \<Rightarrow> u64 \<Rightarrow> string option" where
  "leader_url peers node_id = map_option pc_rpc_url (find (\<lambda>p. pc_node_id p = node_id) peers)"

definition submit_response :: "log_id \<Rightarrow> ledger_response \<Rightarrow> error_object + submit_outcome" where
  "submit_response lid response =
     (let applied_index = Some (lid_index lid)
      in if lr_accepted response
         then Inr \<lparr>so_accepted = True, so_applied_index = applied_index, so_reject_reason = None\<rparr>
         else case lr_reject response of
           Some RejectWriterClosed \<Rightarrow> Inl error_writer_closed
         | Some reject \<Rightarrow> Inr \<lparr>so_accepted = False, so_applied_index = applied_index, so_reject_reason = Some (reject_reason reject)\<rparr>
         | None \<Rightarrow> Inr \<lparr>so_accepted = False, so_applied_index = applied_index, so_reject_reason = Some ''internal''\<rparr>)"

definition submit_claim ::
  "'p stark_lib \<Rightarrow> (ledger_command \<Rightarrow> raft_write) \<Rightarrow> peer_config list \<Rightarrow> nat \<Rightarrow> claim_tx \<Rightarrow> error_object + submit_outcome" where
  "submit_claim V client_write peers apply_deadline claim =
     res_bind (map_err translate_ledger_error (command_apply_claim V claim)) (\<lambda>cmd.
       case client_write cmd of
         WriteElapsed \<Rightarrow> Inl (error_timeout (deadline_ms apply_deadline))
       | WriteOk lid response \<Rightarrow> submit_response lid response
       | WriteApiError err \<Rightarrow> Inl (translate_client_write_error err (leader_url peers))
       | WriteFatal text \<Rightarrow> Inl (error_internal ''openraft'' text))"

section \<open>Reading the state\<close>

datatype server_state = RaftLeader | RaftFollower | RaftCandidate | RaftLearner | RaftShutdown

datatype node_role = RoleLeader | RoleFollower | RoleCandidate | RoleLearner

record raft_metrics =
  rm_state :: server_state
  rm_current_leader :: "u64 option"
  rm_last_log_index :: "u64 option"
  rm_last_applied :: "log_id option"

record log_id_view =
  lv_term :: u64
  lv_index :: u64

record node_state =
  ns_node_id :: u64
  ns_role :: node_role
  ns_leader_id :: "u64 option"
  ns_last_log_id :: "log_id_view option"
  ns_applied_index :: u64
  ns_nullifier_count :: u64
  ns_starstream_utxo_count :: u64

fun role_of :: "server_state \<Rightarrow> node_role" where
  "role_of RaftLeader = RoleLeader"
| "role_of RaftFollower = RoleFollower"
| "role_of RaftCandidate = RoleCandidate"
| "role_of RaftLearner = RoleLearner"
| "role_of _ = RoleFollower"

text \<open>\<open>null_count\<close> and \<open>utxo_count\<close> are what the two counting readers return.\<close>

definition get_state ::
  "u64 \<Rightarrow> raft_metrics \<Rightarrow> ledger_error + u64 \<Rightarrow> ledger_error + u64 \<Rightarrow> error_object + node_state" where
  "get_state node_id metrics null_count utxo_count =
     res_bind (map_err translate_ledger_error null_count) (\<lambda>nullifier_count.
     res_bind (map_err translate_ledger_error utxo_count) (\<lambda>starstream_utxo_count.
       Inr \<lparr>ns_node_id = node_id, ns_role = role_of (rm_state metrics), ns_leader_id = rm_current_leader metrics,
         ns_last_log_id = map_option (\<lambda>l. \<lparr>lv_term = lid_term l, lv_index = lid_index l\<rparr>) (rm_last_applied metrics),
         ns_applied_index = (case rm_last_applied metrics of Some l \<Rightarrow> lid_index l | None \<Rightarrow> 0),
         ns_nullifier_count = nullifier_count, ns_starstream_utxo_count = starstream_utxo_count\<rparr>))"

section \<open>The batch limit and the inbound handler\<close>

text \<open>\<open>service\<close> answers a batch; the error has the null identifier and the code of an invalid request.\<close>

datatype 'r batch_response = BatchResponse 'r | InvalidRequest

definition batch_limit :: "nat \<Rightarrow> ('q list \<Rightarrow> 'r) \<Rightarrow> 'q list \<Rightarrow> 'r batch_response" where
  "batch_limit max_batch service batch =
     (if length batch > max_batch then InvalidRequest else BatchResponse (service batch))"

fun inbound_handle ::
  "('a \<Rightarrow> string + 'b) \<Rightarrow> ('s \<Rightarrow> string + 't) \<Rightarrow> ('v \<Rightarrow> string + 'w) \<Rightarrow> ('a, 'v, 's) raft_rpc
     \<Rightarrow> network_error + ('b, 'w, 't) raft_rpc" where
  "inbound_handle on_append on_install on_vote (AppendEntries request) =
     res_bind (map_err NetCodec (on_append request)) (\<lambda>response. Inr (AppendEntries response))"
| "inbound_handle on_append on_install on_vote (InstallSnapshotRpc request) =
     res_bind (map_err NetCodec (on_install request)) (\<lambda>response. Inr (InstallSnapshotRpc response))"
| "inbound_handle on_append on_install on_vote (VoteRpc request) =
     res_bind (map_err NetCodec (on_vote request)) (\<lambda>response. Inr (VoteRpc response))"


section \<open>What a client learns\<close>

text \<open>
  Where a log entry is applied in the history of a node's writer: the commands before its batch,
  the entries before it in the batch, and its payload.
\<close>

fun find_entry :: "log_id \<Rightarrow> 'm raft_entry list \<Rightarrow> ('m raft_entry list \<times> 'm entry_payload) option" where
  "find_entry lid [] = None"
| "find_entry lid (e # es) =
     (if en_log_id e = lid then Some ([], en_payload e) else map_option (apfst (Cons e)) (find_entry lid es))"

fun entries_of :: "'m write_cmd \<Rightarrow> 'm raft_entry list" where
  "entries_of (CmdApplyRaftEntries es m) = es"
| "entries_of _ = []"

fun entry_site :: "log_id \<Rightarrow> 'm write_cmd list \<Rightarrow> ('m write_cmd list \<times> 'm raft_entry list \<times> 'm entry_payload) option" where
  "entry_site lid [] = None"
| "entry_site lid (c # cs) =
     (case find_entry lid (entries_of c) of
        Some (es, payload) \<Rightarrow> Some ([], es, payload)
      | None \<Rightarrow> map_option (apfst (Cons c)) (entry_site lid cs))"

text \<open>The tables of the node after the commands \<open>before\<close> and the entries \<open>es\<close> of the next batch.\<close>

definition tables_at :: "'p ledger_env \<Rightarrow> writer_state \<Rightarrow> 'm write_cmd list \<Rightarrow> 'm raft_entry list \<Rightarrow> ledger_db" where
  "tables_at E st before es =
     snd (apply_entries (le_writer_close E) (le_digest E) (le_stark E) (le_enc_log_id E) es (ws_db (snd (run_writer E before st))))"

text \<open>
  What \<open>openraft\<close> promises of \<open>client_write\<close>: a success carries the identifier of the log entry
  made for the command, which the writer has applied, and what the writer replied for it.
\<close>

definition raft_applies ::
  "'p ledger_env \<Rightarrow> writer_state \<Rightarrow> 'm write_cmd list \<Rightarrow> (ledger_command \<Rightarrow> raft_write) \<Rightarrow> bool" where
  "raft_applies E st history client_write \<longleftrightarrow> (\<forall>cmd lid response. client_write cmd = WriteOk lid response \<longrightarrow>
     (\<exists>before es responses. entry_site lid history = Some (before, es, Normal cmd)
       \<and> fst (run_writer E history st) ! length before = ReplyResponses (Inr responses)
       \<and> response = responses ! length es))"

lemma find_entry_Some:
  "find_entry lid es = Some (es1, payload) \<Longrightarrow> \<exists>e es2. es = es1 @ e # es2 \<and> en_log_id e = lid \<and> en_payload e = payload"
proof (induction es arbitrary: es1)
  case (Cons e es)
  show ?case
  proof (cases "en_log_id e = lid")
    case False
    with Cons.prems obtain es' where "find_entry lid es = Some (es', payload)" "es1 = e # es'" by auto
    with Cons.IH show ?thesis by auto
  qed (use Cons.prems in auto)
qed simp

lemma entries_of_Cons: "entries_of c = es @ e # es' \<Longrightarrow> \<exists>m. c = CmdApplyRaftEntries (es @ e # es') m"
  by (cases c) auto

lemma entry_site_Some:
  "entry_site lid history = Some (before, es, payload) \<Longrightarrow>
   \<exists>e es' m later. history = before @ CmdApplyRaftEntries (es @ e # es') m # later \<and> en_log_id e = lid \<and> en_payload e = payload"
proof (induction history arbitrary: before)
  case (Cons c cs)
  show ?case
  proof (cases "find_entry lid (entries_of c)")
    case None
    with Cons.prems obtain before' where "entry_site lid cs = Some (before', es, payload)" "before = c # before'" by auto
    with Cons.IH show ?thesis by fastforce
  next
    case (Some found)
    with Cons.prems have "find_entry lid (entries_of c) = Some (es, payload)" "before = []" by (auto split: prod.splits)
    with find_entry_Some entries_of_Cons show ?thesis by (metis append_Nil)
  qed
qed simp

lemma run_writer_nth:
  "fst (run_writer E (before @ c # later) st) ! length before = fst (writer_step E c (snd (run_writer E before st)))"
  by (induction before arbitrary: st) (simp_all add: split_beta)

lemma apply_entries_nth:
  assumes "fst (apply_entries fp H V enc (es @ e # es') db) = Inr responses"
  defines "db1 \<equiv> snd (apply_entries fp H V enc es db)"
  shows "responses ! length es = fst (apply_payload fp H V (en_payload e) db1)
    \<and> (\<exists>l. snd (apply_entries fp H V enc (es @ [e]) db) =
         save_raft_meta ''last_applied_log_id'' (Some l) (snd (apply_payload fp H V (en_payload e) db1)))"
  using assms(1) unfolding db1_def
proof (induction es arbitrary: db responses)
  case Nil
  then show ?case by (auto simp: res_bind_eq_Inr split: prod.splits sum.splits)
next
  case (Cons x es)
  obtain q db2 where q: "apply_payload fp H V (en_payload x) db = (q, db2)" by fastforce
  with Cons.prems obtain l where l: "enc (en_log_id x) = Inr l" by (auto split: sum.splits)
  let ?db = "save_raft_meta ''last_applied_log_id'' (Some l) db2"
  from Cons.prems q l obtain rs where "fst (apply_entries fp H V enc (es @ e # es') ?db) = Inr rs" "responses = q # rs"
    by (auto simp: res_bind_eq_Inr split: prod.splits)
  with Cons.IH [of ?db rs] q l show ?case by (simp add: split_beta)
qed

lemma raft_applies_entry:
  fixes history :: "'m write_cmd list"
  assumes "raft_applies E st history client_write" "client_write cmd = WriteOk lid response"
  obtains before es db l where "entry_site lid history = Some (before, es, Normal cmd)"
    "apply_payload (le_writer_close E) (le_digest E) (le_stark E) (Normal cmd :: 'm entry_payload) (tables_at E st before es) = (response, db)"
    "tables_at E st before (es @ [\<lparr>en_log_id = lid, en_payload = Normal cmd\<rparr>]) = save_raft_meta ''last_applied_log_id'' (Some l) db"
proof -
  from assms obtain before es responses where site: "entry_site lid history = Some (before, es, Normal cmd)"
    and reply: "fst (run_writer E history st) ! length before = ReplyResponses (Inr responses)" "response = responses ! length es"
    unfolding raft_applies_def by blast
  from entry_site_Some [OF site] obtain e es' m later where
    history: "history = before @ CmdApplyRaftEntries (es @ e # es') m # later" "en_log_id e = lid" "en_payload e = Normal cmd"
    by blast
  let ?db = "ws_db (snd (run_writer E before st))"
  have "fst (apply_raft_entries (le_writer_close E) (le_digest E) (le_stark E) (le_enc_log_id E) (es @ e # es') m ?db) = Inr responses"
    using reply(1) by (simp add: history(1) run_writer_nth on_db_def split: prod.splits)
  then have "fst (apply_entries (le_writer_close E) (le_digest E) (le_stark E) (le_enc_log_id E) (es @ e # es') ?db) = Inr responses"
    by (auto simp: apply_raft_entries_def split: prod.splits sum.splits)
  moreover have "e = \<lparr>en_log_id = lid, en_payload = Normal cmd\<rparr>" using history(2,3) by (cases e) simp
  ultimately show thesis
    using that [OF site] apply_entries_nth [of "le_writer_close E" "le_digest E" "le_stark E" "le_enc_log_id E" es e es' ?db responses]
    by (simp add: tables_at_def reply(2) del: apply_payload.simps) (metis prod.collapse)
qed

lemma reject_replays_Inl: "reject_replays ps db = Inl e \<Longrightarrow> reject_class e \<in> {RejectReplay, RejectInternal}"
  by (induction ps) (auto simp: res_bind_eq_Inl reject_replay_def dest: internal_errors split: if_splits)

lemma parse_claim_Inl: "parse_claim c = Inl e \<Longrightarrow> reject_class e = RejectInvalidClaim"
  by (cases c) (auto split: if_splits)

lemma apply_claim_tx_reject_class:
  assumes "apply_claim_tx fp H V b cm c db = (Inl e, db')"
  shows "reject_class e = RejectWriterClosed \<longleftrightarrow> fp"
proof (cases fp)
  case False
  then consider "sqlite_i64 ''block_idx'' b = Inl e" | "parse_claim c = Inl e" | v where "e = LedgerVerify v"
    | ps where "reject_replays ps db = Inl e" | bi n xs where "insert_claims H b bi n xs db = Inl e"
    using assms unfolding apply_claim_tx_def
    by (auto simp: res_bind_eq_Inl map_err_eq_Inl transaction_Inl apply_claim_body_def split: sum.splits)
  then show ?thesis by cases (use False in \<open>auto dest: internal_errors parse_claim_Inl reject_replays_Inl insert_claims_Inl\<close>)
qed (use assms in \<open>auto simp: apply_claim_tx_def\<close>)

lemma applied_response:
  assumes "apply_payload fp H V (Normal cmd) db = (response, db')"
  shows "case submit_response lid response of
      Inl e \<Rightarrow> e = error_writer_closed \<and> fp \<and> db' = db
    | Inr out \<Rightarrow> \<not> fp \<and> so_applied_index out = Some (lid_index lid)
        \<and> (so_accepted out \<longleftrightarrow> claim_admissible H V (lc_block_idx cmd) (lc_commitment cmd) (lc_claim cmd) db)
        \<and> (if so_accepted out then so_reject_reason out = None \<and> db' = claim_effect H (lc_block_idx cmd) (lc_claim cmd) db
           else db' = db \<and> (\<exists>e. fst (apply_claim_tx fp H V (lc_block_idx cmd) (lc_commitment cmd) (lc_claim cmd) db) = Inl e
             \<and> so_reject_reason out = Some (reject_reason (reject_class e))))"
proof (rule apply_claim_tx_cases [of fp H V "lc_block_idx cmd" "lc_commitment cmd" "lc_claim cmd" db])
  assume "apply_claim_tx fp H V (lc_block_idx cmd) (lc_commitment cmd) (lc_claim cmd) db
      = (Inr (), claim_effect H (lc_block_idx cmd) (lc_claim cmd) db)"
    "claim_admissible H V (lc_block_idx cmd) (lc_commitment cmd) (lc_claim cmd) db" "\<not> fp"
  with assms show ?thesis by (auto simp: submit_response_def)
next
  fix e assume rej: "apply_claim_tx fp H V (lc_block_idx cmd) (lc_commitment cmd) (lc_claim cmd) db = (Inl e, db)"
    "fp \<or> \<not> claim_admissible H V (lc_block_idx cmd) (lc_commitment cmd) (lc_claim cmd) db"
  from apply_claim_tx_reject_class [OF rej(1)] rej assms show ?thesis
    by (cases "reject_class e") (auto simp: submit_response_def response_rejected_def)
qed

text \<open>
  C27. A client learns what the ledger of the node decided. An answer of \<open>omega_submitClaim\<close> carries
  the index of the log entry made for the claim. It says accepted exactly when the claim is
  admissible on the tables that the node's writer has when it comes to that entry; the entry then
  adds the leaves and credits of the claim to those tables. Otherwise the answer names the class
  of the ledger's error, and the entry leaves leaves and credits alone. The errors are those of a
  follower, of an undecodable proof, of the deadline and internal ones; the code of a closed
  writer is sent only under the fail point, and those for invalid claims and replays never.
\<close>

theorem submit_claim_reports_ledger:
  fixes history :: "'m write_cmd list"
  assumes "raft_applies E st history client_write"
  shows "case submit_claim (le_stark E) client_write peers apply_deadline claim of
      Inl e \<Rightarrow> eo_code e \<in> {CODE_NOT_LEADER, CODE_VERIFY, CODE_TIMEOUT, INTERNAL_ERROR_CODE} \<or> e = error_writer_closed \<and> le_writer_close E
    | Inr out \<Rightarrow> \<exists>cmd lid response before es. command_apply_claim (le_stark E) claim = Inr cmd \<and> client_write cmd = WriteOk lid response
        \<and> so_applied_index out = Some (lid_index lid) \<and> entry_site lid history = Some (before, es, Normal cmd)
        \<and> (let db = tables_at E st before es; db' = tables_at E st before (es @ [\<lparr>en_log_id = lid, en_payload = Normal cmd\<rparr>]);
               db1 = (if so_accepted out then claim_effect (le_digest E) 0 claim db else db)
           in (so_accepted out \<longleftrightarrow> claim_admissible (le_digest E) (le_stark E) 0 (lc_commitment cmd) claim db)
             \<and> nullifiers db' = nullifiers db1 \<and> starstream_utxos db' = starstream_utxos db1
             \<and> (if so_accepted out then so_reject_reason out = None
                else \<exists>e. fst (apply_claim_tx (le_writer_close E) (le_digest E) (le_stark E) 0 (lc_commitment cmd) claim db) = Inl e
                  \<and> so_reject_reason out = Some (reject_reason (reject_class e))))"
proof (cases "command_apply_claim (le_stark E) claim")
  case (Inl e)
  then have "e = LedgerVerify InvalidProof" by (auto simp: command_apply_claim_def ok_or_def split: option.splits)
  with Inl show ?thesis by (simp add: submit_claim_def error_verify_def)
next
  case (Inr cmd)
  then have cmd: "lc_block_idx cmd = 0" "lc_claim cmd = claim" by (auto simp: command_apply_claim_def)
  show ?thesis
  proof (cases "client_write cmd")
    case (WriteOk lid response)
    from raft_applies_entry [OF assms WriteOk] obtain before es db l where
      site: "entry_site lid history = Some (before, es, Normal cmd)"
      and pay: "apply_payload (le_writer_close E) (le_digest E) (le_stark E) (Normal cmd :: 'm entry_payload) (tables_at E st before es) = (response, db)"
      and entry: "tables_at E st before (es @ [\<lparr>en_log_id = lid, en_payload = Normal cmd\<rparr>]) = save_raft_meta ''last_applied_log_id'' (Some l) db"
      by blast
    have submit: "submit_claim (le_stark E) client_write peers apply_deadline claim = submit_response lid response"
      using Inr WriteOk by (simp add: submit_claim_def)
    note applied = applied_response [OF pay, of lid, unfolded cmd]
    show ?thesis
    proof (cases "submit_response lid response")
      case (Inl e)
      with applied submit show ?thesis by simp
    next
      case (Inr out)
      with applied entry \<open>command_apply_claim (le_stark E) claim = Inr cmd\<close> WriteOk site submit show ?thesis
        by (simp only: sum.case Let_def) (intro exI [of _ cmd] exI [of _ lid] exI [of _ response] exI [of _ before] exI [of _ es], auto)
    qed
  next
    case (WriteApiError err)
    with Inr show ?thesis by (cases err) (simp_all add: submit_claim_def not_leader_def error_internal_def)
  qed (use Inr in \<open>simp_all add: submit_claim_def error_timeout_def error_internal_def\<close>)
qed


text \<open>A node whose writer has applied one entry, the claim of the ledger's example at index 7.\<close>

definition example_command :: ledger_command where
  "example_command = \<lparr>lc_block_idx = 0, lc_commitment = example_commitment, lc_claim = ClaimTxUtxo example_utxo_claim\<rparr>"

definition example_log_id :: log_id where
  "example_log_id = \<lparr>lid_term = 1, lid_node_id = 1, lid_index = 7\<rparr>"

definition example_history :: "unit write_cmd list" where
  "example_history = [CmdApplyRaftEntries [\<lparr>en_log_id = example_log_id, en_payload = Normal example_command\<rparr>] None]"

definition example_write :: "ledger_command \<Rightarrow> raft_write" where
  "example_write cmd = (if cmd = example_command then WriteOk example_log_id response_accepted else WriteElapsed)"

lemma example_applies:
  "apply_claim_tx False sum_digest example_stark 0 example_commitment (ClaimTxUtxo example_utxo_claim) create_tables =
     (Inr (), claim_effect sum_digest 0 (ClaimTxUtxo example_utxo_claim) create_tables)"
  using example_admissible by (simp add: apply_claim_tx_Inr)

lemma example_raft_applies: "raft_applies example_ledger_env example_writer example_history example_write"
  using example_applies
  by (simp add: raft_applies_def example_write_def example_history_def on_db_def apply_raft_entries_def
      example_ledger_env_def example_writer_def example_command_def)

lemma example_submit:
  "submit_claim (le_stark example_ledger_env) example_write [] 5000000000 (ClaimTxUtxo example_utxo_claim) =
     Inr \<lparr>so_accepted = True, so_applied_index = Some 7, so_reject_reason = None\<rparr>"
proof -
  have "command_apply_claim example_stark (ClaimTxUtxo example_utxo_claim) = Inr example_command"
    by (simp add: command_apply_claim_def example_command_def example_claim_defs example_stark_def example_envelope_def)
  then show ?thesis
    by (simp add: submit_claim_def example_write_def submit_response_def example_ledger_env_def example_log_id_def)
qed

theorem submit_claim_reports_ledger_witness:
  "\<exists>before es payload. entry_site example_log_id example_history = Some (before, es, payload)
    \<and> claim_admissible sum_digest example_stark 0 example_commitment (ClaimTxUtxo example_utxo_claim)
        (tables_at example_ledger_env example_writer before es)
    \<and> claim_key example_claim_public \<in> dom (nullifiers (tables_at example_ledger_env example_writer before
        (es @ [\<lparr>en_log_id = example_log_id, en_payload = payload\<rparr>])))"
proof -
  have cmd: "example_write cmd = WriteOk lid response \<longleftrightarrow> cmd = example_command \<and> lid = example_log_id \<and> response = response_accepted"
    for cmd lid response by (auto simp: example_write_def)
  from submit_claim_reports_ledger [OF example_raft_applies, where peers = "[]" and apply_deadline = 5000000000 and claim = "ClaimTxUtxo example_utxo_claim"]
  show ?thesis
    unfolding example_submit sum.case Let_def cmd
    by (auto simp: claim_effect_spent example_ledger_env_def example_command_def example_claim_defs)
qed

end
