(* ===== verification/Consensus_Node.thy ===== *)
theory Consensus_Node
  imports Consensus_Rpc
begin

text \<open>
  The lifecycle of a node of \<open>omega-toy-consensus\<close> (\<open>node.rs\<close>): the checks before bring-up, the
  identity file, the static membership, \<open>Node::start\<close> and \<open>NodeHandle::shutdown\<close>. The file system
  is a map with faults, the keypair library, the ledger, \<open>openraft\<close>, the swarm and the HTTP server
  are parameters; what a run starts and stops is recorded as a list of events.
\<close>

section \<open>Checks and membership\<close>

text \<open>\<open>show_addr\<close> prints a socket address.\<close>

definition validate_config :: "(socket_addr \<Rightarrow> string) \<Rightarrow> node_config \<Rightarrow> consensus_error + unit" where
  "validate_config show_addr config =
     (if \<not> is_loopback (sa_ip (rc_bind (nc_rpc config)))
      then Inl (CeConfig (''rpc.bind must be a loopback address in v0.1 (got '' @ show_addr (rc_bind (nc_rpc config))
        @ ''); the v0.1 JSON-RPC surface is unauthenticated and the spec forbids non-loopback bind. Bind to 127.0.0.1 or ::1.''))
      else Inr ())"

definition should_initialize_cluster :: "node_config \<Rightarrow> u64 option \<Rightarrow> bool" where
  "should_initialize_cluster config last_log_index \<longleftrightarrow>
     fold min (map pc_node_id (nc_peers config)) (nc_node_id config) = nc_node_id config \<and> last_log_index = None"

definition initial_members :: "node_config \<Rightarrow> u64 \<rightharpoonup> string" where
  "initial_members config =
     fold (\<lambda>peer members. members(pc_node_id peer \<mapsto> pc_libp2p_addr peer)) (nc_peers config)
       [nc_node_id config \<mapsto> nc_libp2p_listen config]"

section \<open>The identity file\<close>

text \<open>\<open>Path::extension\<close> and \<open>Path::with_extension\<close>: a dot that begins the name separates nothing.\<close>

definition before_dot :: "string \<Rightarrow> string" where
  "before_dot name = rev (tl (dropWhile (\<lambda>c. c \<noteq> CHR ''.'') (rev name)))"

definition after_dot :: "string \<Rightarrow> string" where
  "after_dot name = rev (takeWhile (\<lambda>c. c \<noteq> CHR ''.'') (rev name))"

definition extension :: "string list \<Rightarrow> string option" where
  "extension path = (if path = [] \<or> CHR ''.'' \<notin> set (last path) \<or> before_dot (last path) = [] then None else Some (after_dot (last path)))"

definition with_extension :: "string list \<Rightarrow> string \<Rightarrow> string list" where
  "with_extension path ext =
     (if path = [] then path
      else butlast path @ [(if extension path = None then last path else before_dot (last path)) @ ''.'' @ ext])"

definition identity_path :: "node_config \<Rightarrow> string list" where
  "identity_path config =
     (case nc_identity_file config of
        Some path \<Rightarrow> path
      | None \<Rightarrow> if extension (nc_data_dir config) \<noteq> None then with_extension (nc_data_dir config) ''identity.bin''
                else nc_data_dir config @ [''identity.bin''])"

record 'k identity_lib =
  generate_ed25519 :: 'k
  to_protobuf_encoding :: "'k \<Rightarrow> string + bytes"
  from_protobuf_encoding :: "bytes \<Rightarrow> string + 'k"
  show_path :: "string list \<Rightarrow> string"

record node_fs =
  fs_files :: "string list \<rightharpoonup> bytes"
  fs_read_fault :: "string list \<Rightarrow> string option"
  fs_mkdir_fault :: "string list \<Rightarrow> string option"
  fs_write_fault :: "string list \<Rightarrow> string option"

definition fault :: "string option \<Rightarrow> string + unit" where
  "fault f = (case f of Some e \<Rightarrow> Inl e | None \<Rightarrow> Inr ())"

definition load_or_create_identity :: "'k identity_lib \<Rightarrow> node_config \<Rightarrow> node_fs \<Rightarrow> (consensus_error + 'k) \<times> node_fs" where
  "load_or_create_identity L config fs =
     (let path = identity_path config;
          err = (\<lambda>what e. CeIdentity (''identity_file '' @ show_path L path @ what @ e))
      in case (fs_read_fault fs path, fs_files fs path) of
        (Some e, _) \<Rightarrow> (Inl (err '' read: '' e), fs)
      | (None, Some bytes) \<Rightarrow> (map_err (err '' decode: '') (from_protobuf_encoding L bytes), fs)
      | (None, None) \<Rightarrow>
          let keypair = generate_ed25519 L
          in case res_bind (map_err (err '' encode: '') (to_protobuf_encoding L keypair)) (\<lambda>bytes.
                  res_bind (if path = [] then Inr () else map_err (err '' parent: '') (fault (fs_mkdir_fault fs (butlast path)))) (\<lambda>_.
                  res_bind (map_err (err '' write: '') (fault (fs_write_fault fs path))) (\<lambda>_. Inr bytes))) of
               Inl e \<Rightarrow> (Inl e, fs)
             | Inr bytes \<Rightarrow> (Inr keypair, fs\<lparr>fs_files := (fs_files fs)(path \<mapsto> bytes)\<rparr>))"

section \<open>Starting and stopping\<close>

record raft_settings =
  rs_cluster_name :: string
  rs_heartbeat_interval :: u64
  rs_election_timeout_min :: u64
  rs_election_timeout_max :: u64

record 'r node_handle =
  nh_raft :: 'r

datatype node_event = RaftCreated raft_settings | SwarmSpawned nat | ClusterInitialized "u64 \<rightharpoonup> string" | RpcServed socket_addr nat u32

record ('k, 'l, 'r, 'a, 'i) node_env =
  ne_identity :: "'k identity_lib"
  ne_show_addr :: "socket_addr \<Rightarrow> string"
  ne_open_ledger :: "string list \<Rightarrow> ledger_error + 'l"
  ne_new_raft :: "u64 \<Rightarrow> raft_settings \<Rightarrow> 'l \<Rightarrow> string + 'r"
  ne_parse_multiaddr :: "string \<Rightarrow> string + 'a"
  ne_parse_peer_id :: "string \<Rightarrow> string + 'i"
  ne_swarm :: "'k \<Rightarrow> 'a \<Rightarrow> (u64 \<times> 'i \<times> 'a) list \<Rightarrow> 'r \<Rightarrow> nat \<Rightarrow> network_error + unit"
  ne_last_log_index :: "'r \<Rightarrow> u64 option"
  ne_initialize :: "'r \<Rightarrow> (u64 \<rightharpoonup> string) \<Rightarrow> string + unit"
  ne_bind :: "socket_addr \<Rightarrow> string + unit"

definition raft_settings_of :: "node_config \<Rightarrow> raft_settings" where
  "raft_settings_of config = \<lparr>rs_cluster_name = nc_cluster_id config, rs_heartbeat_interval = 250,
     rs_election_timeout_min = 1500, rs_election_timeout_max = 3000\<rparr>"

definition peer_entry :: "('k, 'l, 'r, 'a, 'i) node_env \<Rightarrow> peer_config \<Rightarrow> consensus_error + u64 \<times> 'i \<times> 'a" where
  "peer_entry N peer =
     res_bind (map_err (\<lambda>e. CeConfig (''peer '' @ show_nat (unat (pc_node_id peer)) @ '' peer_id: '' @ e))
       (ne_parse_peer_id N (pc_libp2p_peer_id peer))) (\<lambda>peer_id.
     res_bind (map_err (\<lambda>e. CeConfig (''peer '' @ show_nat (unat (pc_node_id peer)) @ '' addr: '' @ e))
       (ne_parse_multiaddr N (pc_libp2p_addr peer))) (\<lambda>address.
     Inr (pc_node_id peer, peer_id, address)))"


text \<open>A run stops at the first error and keeps the events up to it.\<close>

type_synonym 'x run = "(consensus_error + 'x) \<times> node_event list"

definition run_try :: "consensus_error + 'x \<Rightarrow> 'x run" where
  "run_try r = (r, [])"

definition run_emit :: "node_event \<Rightarrow> unit run" where
  "run_emit event = (Inr (), [event])"

definition run_bind :: "'x run \<Rightarrow> ('x \<Rightarrow> 'y run) \<Rightarrow> 'y run" where
  "run_bind m f = (case m of (Inl e, events) \<Rightarrow> (Inl e, events) | (Inr x, events) \<Rightarrow> (fst (f x), events @ snd (f x)))"

definition initialize_cluster :: "('k, 'l, 'r, 'a, 'i) node_env \<Rightarrow> node_config \<Rightarrow> 'r \<Rightarrow> unit run" where
  "initialize_cluster N config raft =
     (if should_initialize_cluster config (ne_last_log_index N raft)
      then run_bind (run_try (map_err CeRaft (ne_initialize N raft (initial_members config)))) (\<lambda>_.
           run_emit (ClusterInitialized (initial_members config)))
      else run_try (Inr ()))"

definition serve_rpc :: "('k, 'l, 'r, 'a, 'i) node_env \<Rightarrow> rpc_config \<Rightarrow> unit run" where
  "serve_rpc N rpc =
     run_bind (run_try (map_err (RpcBind (rc_bind rpc)) (ne_bind N (rc_bind rpc)))) (\<lambda>_.
     run_emit (RpcServed (rc_bind rpc) (unat (rc_max_batch rpc)) (rc_max_request_bytes rpc)))"

definition bring_up :: "('k, 'l, 'r, 'a, 'i) node_env \<Rightarrow> node_config \<Rightarrow> 'k \<Rightarrow> 'r node_handle run" where
  "bring_up N config keypair =
     run_bind (run_try (map_err CeStorage (ne_open_ledger N (nc_data_dir config)))) (\<lambda>ledger.
     run_bind (run_try (map_err CeRaft (ne_new_raft N (nc_node_id config) (raft_settings_of config) ledger))) (\<lambda>raft.
     run_bind (run_emit (RaftCreated (raft_settings_of config))) (\<lambda>_.
     run_bind (run_try (map_err (\<lambda>e. CeConfig (''libp2p_listen parse: '' @ e)) (ne_parse_multiaddr N (nc_libp2p_listen config)))) (\<lambda>listen_addr.
     run_bind (run_try (collect_results (peer_entry N) (nc_peers config))) (\<lambda>peer_entries.
     run_bind (run_try (map_err CeNetwork (ne_swarm N keypair listen_addr peer_entries raft (effective_raft_rpc_timeout config)))) (\<lambda>_.
     run_bind (run_emit (SwarmSpawned (effective_raft_rpc_timeout config))) (\<lambda>_.
     run_bind (initialize_cluster N config raft) (\<lambda>_.
     run_bind (serve_rpc N (nc_rpc config)) (\<lambda>_.
     run_try (Inr \<lparr>nh_raft = raft\<rparr>))))))))))"

definition start :: "('k, 'l, 'r, 'a, 'i) node_env \<Rightarrow> node_config \<Rightarrow> node_fs \<Rightarrow> 'r node_handle run \<times> node_fs" where
  "start N config fs =
     (case validate_config (ne_show_addr N) config of
        Inl e \<Rightarrow> ((Inl e, []), fs)
      | Inr _ \<Rightarrow> (case load_or_create_identity (ne_identity N) config fs of
          (Inl e, fs') \<Rightarrow> ((Inl e, []), fs')
        | (Inr keypair, fs') \<Rightarrow> (bring_up N config keypair, fs')))"

datatype shutdown_event = RpcStopped | RaftStopped | SwarmAborted | RuntimeSignalled | RuntimeJoined

datatype join_result = Joined "consensus_error + unit" | JoinError string

text \<open>\<open>drained\<close>: the swarm task ends within the drain window.\<close>

definition shutdown :: "string + unit \<Rightarrow> bool \<Rightarrow> join_result \<Rightarrow> (consensus_error + unit) \<times> shutdown_event list" where
  "shutdown raft_shutdown drained join =
     (case map_err CeRaft raft_shutdown of
        Inl e \<Rightarrow> (Inl e, [RpcStopped])
      | Inr _ \<Rightarrow>
          ((case join of JoinError e \<Rightarrow> Inl (ShutdownJoin e) | Joined r \<Rightarrow> r),
           [RpcStopped, RaftStopped] @ (if drained then [] else [SwarmAborted]) @ [RuntimeSignalled, RuntimeJoined]))"

section \<open>Membership\<close>

lemma fold_min_eq: "fold min xs (a :: 'a::linorder) = a \<longleftrightarrow> (\<forall>x \<in> set xs. a \<le> x)"
  using Min.set_eq_fold [of a xs] Min_eq_iff [of "insert a (set xs)" a] by simp

lemma should_initialize_iff:
  "should_initialize_cluster config index \<longleftrightarrow> (\<forall>p \<in> set (nc_peers config). nc_node_id config \<le> pc_node_id p) \<and> index = None"
  by (simp add: should_initialize_cluster_def fold_min_eq)

lemma dom_initial_members: "dom (initial_members config) = insert (nc_node_id config) (pc_node_id ` set (nc_peers config))"
proof -
  have "dom (fold (\<lambda>peer members. members(pc_node_id peer \<mapsto> pc_libp2p_addr peer)) ps m) = dom m \<union> pc_node_id ` set ps" for ps :: "peer_config list" and m
    by (induction ps arbitrary: m) auto
  then show ?thesis by (simp add: initial_members_def)
qed

text \<open>
  C28. One node founds the cluster. When every configuration of a cluster lists exactly the other
  nodes as peers, exactly one node calls \<open>initialize\<close> on an empty log, and the membership that each
  of them would propose has the same node identifiers, those of the cluster.
\<close>

theorem exactly_one_initialiser:
  assumes "configs \<noteq> []" "distinct (map nc_node_id configs)"
    and "\<forall>c \<in> set configs. pc_node_id ` set (nc_peers c) = nc_node_id ` set configs - {nc_node_id c}"
  shows "(\<exists>!c. c \<in> set configs \<and> should_initialize_cluster c None)
    \<and> (\<forall>c \<in> set configs. dom (initial_members c) = nc_node_id ` set configs)"
proof -
  let ?ids = "nc_node_id ` set configs"
  have founder: "should_initialize_cluster c None \<longleftrightarrow> (\<forall>i \<in> ?ids. nc_node_id c \<le> i)" if "c \<in> set configs" for c
  proof -
    have "(\<forall>p \<in> set (nc_peers c). nc_node_id c \<le> pc_node_id p) \<longleftrightarrow> (\<forall>i \<in> pc_node_id ` set (nc_peers c). nc_node_id c \<le> i)" by simp
    also have "\<dots> \<longleftrightarrow> (\<forall>i \<in> ?ids. nc_node_id c \<le> i)" using assms(3) that by auto
    finally show ?thesis by (simp add: should_initialize_iff)
  qed
  have "Min ?ids \<in> ?ids" using assms(1) by (intro Min_in) simp_all
  then obtain c where c: "c \<in> set configs" "nc_node_id c = Min ?ids" by force
  have "\<exists>!c. c \<in> set configs \<and> should_initialize_cluster c None"
  proof (rule ex1I [of _ c])
    show "c \<in> set configs \<and> should_initialize_cluster c None" using c by (simp add: founder)
    fix d assume d: "d \<in> set configs \<and> should_initialize_cluster d None"
    then have "nc_node_id d \<le> nc_node_id c" using c(1) founder [of d] by simp
    moreover have "nc_node_id c \<le> nc_node_id d" using d unfolding c(2) by simp
    ultimately have "nc_node_id d = nc_node_id c" by simp
    with assms(2) c(1) d show "d = c" unfolding distinct_map by (auto dest: inj_onD)
  qed
  moreover have "dom (initial_members d) = ?ids" if "d \<in> set configs" for d
    using assms(3) that by (auto simp: dom_initial_members)
  ultimately show ?thesis by blast
qed


definition example_peer :: "u64 \<Rightarrow> peer_config" where
  "example_peer i = \<lparr>pc_node_id = i, pc_libp2p_peer_id = ''peer'', pc_libp2p_addr = ''addr'', pc_rpc_url = ''url''\<rparr>"

definition example_config :: "u64 \<Rightarrow> u64 list \<Rightarrow> node_config" where
  "example_config i peers = \<lparr>nc_node_id = i, nc_data_dir = [''data'', ''node''], nc_identity_file = None, nc_libp2p_listen = ''listen'',
     nc_peers = map example_peer peers, nc_rpc = \<lparr>rc_bind = \<lparr>sa_ip = IpV4 127 0 0 1, sa_port = 8001, sa_scope_id = 0\<rparr>,
       rc_max_batch = 25, rc_max_request_bytes = 1048576\<rparr>, nc_cluster_id = ''loganet-dev'', nc_apply_deadline = 5000000000,
     nc_raft_rpc_timeout = None\<rparr>"

theorem exactly_one_initialiser_witness:
  "\<exists>!c. c \<in> set [example_config 2 [1, 3], example_config 1 [2, 3], example_config 3 [1, 2]] \<and> should_initialize_cluster c None"
proof (rule exactly_one_initialiser [THEN conjunct1])
  show "\<forall>c \<in> set [example_config 2 [1, 3], example_config 1 [2, 3], example_config 3 [1, 2]].
      pc_node_id ` set (nc_peers c) = nc_node_id ` set [example_config 2 [1, 3], example_config 1 [2, 3], example_config 3 [1, 2]] - {nc_node_id c}"
    by (auto simp: example_config_def example_peer_def)
qed (simp_all add: example_config_def)

section \<open>Runs\<close>

lemma run_bind_simps [simp]:
  "run_bind (Inl e, events) f = (Inl e, events)" "run_bind (Inr x, events) f = (fst (f x), events @ snd (f x))"
  by (simp_all add: run_bind_def)

lemma run_bind_events:
  "ev \<in> set (snd (run_bind m f)) \<longleftrightarrow> ev \<in> set (snd m) \<or> (\<exists>x. fst m = Inr x \<and> ev \<in> set (snd (f x)))"
  by (cases m; cases "fst m") (auto simp: run_bind_def)

lemma run_leaves [simp]: "snd (run_try r) = []" "fst (run_try r) = r" "snd (run_emit e) = [e]" "fst (run_emit e) = Inr ()"
  by (simp_all add: run_try_def run_emit_def)

lemma bring_up_events:
  assumes "ev \<in> set (snd (bring_up N config keypair))"
  shows "ev = RaftCreated (raft_settings_of config) \<or> ev = SwarmSpawned (effective_raft_rpc_timeout config)
    \<or> (\<exists>raft. should_initialize_cluster config (ne_last_log_index N raft)) \<and> ev = ClusterInitialized (initial_members config)
    \<or> ev = RpcServed (rc_bind (nc_rpc config)) (unat (rc_max_batch (nc_rpc config))) (rc_max_request_bytes (nc_rpc config))"
  using assms unfolding bring_up_def initialize_cluster_def serve_rpc_def
  by (auto simp: run_bind_events split: if_splits)

lemma start_events:
  assumes "start N config fs = (r, fs')" "ev \<in> set (snd r)"
  obtains keypair where "is_loopback (sa_ip (rc_bind (nc_rpc config)))" "r = bring_up N config keypair"
  using assms by (auto simp: start_def validate_config_def split: if_splits sum.splits prod.splits)

lemma initialize_cluster_Inr:
  "initialize_cluster N config raft = (Inr u, events) \<Longrightarrow>
     events = (if should_initialize_cluster config (ne_last_log_index N raft) then [ClusterInitialized (initial_members config)] else [])"
  by (cases "ne_initialize N raft (initial_members config)") (auto simp: initialize_cluster_def run_try_def run_emit_def split: if_splits)

lemma serve_rpc_Inr:
  "serve_rpc N rpc = (Inr u, events) \<Longrightarrow> events = [RpcServed (rc_bind rpc) (unat (rc_max_batch rpc)) (rc_max_request_bytes rpc)]"
  by (cases "ne_bind N (rc_bind rpc)") (auto simp: serve_rpc_def run_try_def run_emit_def)

lemma run_bind_eq_Inr:
  "run_bind m f = (Inr y, events) \<longleftrightarrow> (\<exists>x ev ev'. m = (Inr x, ev) \<and> f x = (Inr y, ev') \<and> events = ev @ ev')"
proof (cases m)
  case (Pair r ev)
  then show ?thesis by (cases r) (auto, metis prod.collapse)
qed

text \<open>What a successful bring-up starts.\<close>

definition bring_up_log :: "node_config \<Rightarrow> bool \<Rightarrow> node_event list" where
  "bring_up_log config founder = [RaftCreated (raft_settings_of config), SwarmSpawned (effective_raft_rpc_timeout config)]
     @ (if founder then [ClusterInitialized (initial_members config)] else [])
     @ [RpcServed (rc_bind (nc_rpc config)) (unat (rc_max_batch (nc_rpc config))) (rc_max_request_bytes (nc_rpc config))]"

lemma started_events:
  assumes "start N config fs = ((Inr h, events), fs')"
  shows "events = bring_up_log config (should_initialize_cluster config (ne_last_log_index N (nh_raft h)))"
proof -
  from assms obtain keypair where "bring_up N config keypair = (Inr h, events)"
    by (auto simp: start_def split: sum.splits prod.splits)
  then show ?thesis
    unfolding bring_up_def run_bind_eq_Inr by (auto simp: run_try_def run_emit_def bring_up_log_def dest!: initialize_cluster_Inr serve_rpc_Inr)
qed

text \<open>
  Bring-up is safe. Whatever the libraries answer, the JSON-RPC server is bound only to a
  loopback address, and the cluster is initialised only by a node whose identifier is at most those
  of its peers, with the members of its configuration. When \<open>start\<close> returns a handle, the raft
  instance, the swarm and the server have been started in this order, with the founding of the
  cluster before the server exactly when the node is the founder and its log is empty.
\<close>

theorem start_is_safe:
  assumes "start N config fs = ((result, events), fs')"
  shows "(\<forall>addr batch body. RpcServed addr batch body \<in> set events \<longrightarrow> is_loopback (sa_ip addr))
    \<and> (\<forall>members. ClusterInitialized members \<in> set events \<longrightarrow> members = initial_members config
        \<and> (\<forall>p \<in> set (nc_peers config). nc_node_id config \<le> pc_node_id p))
    \<and> (\<forall>h. result = Inr h \<longrightarrow> events = bring_up_log config (should_initialize_cluster config (ne_last_log_index N (nh_raft h))))"
proof (intro conjI)
  show "\<forall>addr batch body. RpcServed addr batch body \<in> set events \<longrightarrow> is_loopback (sa_ip addr)"
    using start_events [OF assms] bring_up_events [of _ N config] by (metis node_event.distinct node_event.inject(4) snd_conv)
  show "\<forall>members. ClusterInitialized members \<in> set events \<longrightarrow> members = initial_members config
      \<and> (\<forall>p \<in> set (nc_peers config). nc_node_id config \<le> pc_node_id p)"
    using start_events [OF assms] bring_up_events [of _ N config]
    by (metis node_event.distinct node_event.inject(3) snd_conv should_initialize_iff)
  show "\<forall>h. result = Inr h \<longrightarrow> events = bring_up_log config (should_initialize_cluster config (ne_last_log_index N (nh_raft h)))"
    using started_events assms by blast
qed


definition example_env :: "(nat, nat, nat, string, string) node_env" where
  "example_env = \<lparr>ne_identity = \<lparr>generate_ed25519 = 5, to_protobuf_encoding = (\<lambda>k. Inr [of_nat k]),
       from_protobuf_encoding = (\<lambda>b. if b = [] then Inl ''empty'' else Inr (unat (hd b))), show_path = concat\<rparr>,
     ne_show_addr = (\<lambda>a. ''addr''), ne_open_ledger = (\<lambda>p. Inr 0), ne_new_raft = (\<lambda>i settings l. Inr 1),
     ne_parse_multiaddr = Inr, ne_parse_peer_id = Inr, ne_swarm = (\<lambda>k a peers r t. Inr ()), ne_last_log_index = (\<lambda>r. None),
     ne_initialize = (\<lambda>r m. Inr ()), ne_bind = (\<lambda>a. Inr ())\<rparr>"

definition example_fs :: node_fs where
  "example_fs = \<lparr>fs_files = Map.empty, fs_read_fault = (\<lambda>p. None), fs_mkdir_fault = (\<lambda>p. None), fs_write_fault = (\<lambda>p. None)\<rparr>"

theorem start_is_safe_witness:
  "\<exists>events fs'. start example_env (example_config 1 [2, 3]) example_fs = ((Inr \<lparr>nh_raft = 1\<rparr>, events), fs')
    \<and> events = bring_up_log (example_config 1 [2, 3]) True"
proof -
  have "fst (fst (start example_env (example_config 1 [2, 3]) example_fs)) = Inr \<lparr>nh_raft = 1\<rparr>"
    by (simp add: start_def validate_config_def load_or_create_identity_def bring_up_def initialize_cluster_def serve_rpc_def
        run_try_def run_emit_def peer_entry_def example_env_def example_fs_def example_config_def example_peer_def fault_def Let_def)
  then obtain events fs' where run: "start example_env (example_config 1 [2, 3]) example_fs = ((Inr \<lparr>nh_raft = 1\<rparr>, events), fs')"
    by (cases "start example_env (example_config 1 [2, 3]) example_fs") auto
  moreover have "should_initialize_cluster (example_config 1 [2, 3]) (ne_last_log_index example_env 1)"
    by (simp add: should_initialize_iff example_config_def example_peer_def example_env_def)
  ultimately show ?thesis using start_is_safe [OF run] by auto
qed

section \<open>The identity of a node\<close>

text \<open>A node that created its identity reads the same one back on the next start.\<close>

lemma identity_is_stable:
  assumes "\<And>k bytes. to_protobuf_encoding L k = Inr bytes \<Longrightarrow> from_protobuf_encoding L bytes = Inr k"
    and "load_or_create_identity L config fs = (Inr k, fs')"
  shows "load_or_create_identity L config fs' = (Inr k, fs')"
  using assms by (auto simp: load_or_create_identity_def Let_def split: option.splits sum.splits)

text \<open>
  The default file is derived from the data directory by replacing an extension, so directories
  that differ only after the last dot share the file, and with it the key.
\<close>

lemma identity_path_shared:
  assumes "nc_identity_file c = None" "nc_identity_file d = None" "nc_data_dir c = dir @ [name @ ''.'' @ e]" "nc_data_dir d = dir @ [name @ ''.'' @ e']"
    and "name \<noteq> []" "CHR ''.'' \<notin> set e" "CHR ''.'' \<notin> set e'"
  shows "identity_path c = identity_path d"
proof -
  have "before_dot (name @ ''.'' @ x) = name" if "CHR ''.'' \<notin> set x" for x
    using that by (simp add: before_dot_def dropWhile_append)
  with assms show ?thesis by (simp add: identity_path_def extension_def with_extension_def)
qed

text \<open>Shutdown stops the server before raft, and raft before the runtime task is told to end.\<close>

lemma shutdown_order:
  "\<exists>rest. snd (shutdown r drained join) = RpcStopped # rest \<and> RpcStopped \<notin> set rest"
  "RuntimeSignalled \<in> set (snd (shutdown r drained join)) \<Longrightarrow> r = Inr () \<and> take 2 (snd (shutdown r drained join)) = [RpcStopped, RaftStopped]"
  by (auto simp: shutdown_def split: sum.splits)

end
