(* ===== verification/Utxo_Snapshot.thy ===== *)
theory Utxo_Snapshot
  imports Node_Config
begin

text \<open>
  The program \<open>omega-utxo-snapshot\<close>: the network magic, the chain point to pin and the session
  that asks a node for its whole UTXO set and writes the answer to a file. The file system, the
  JSON parser and the client of the node-to-client protocol are parameters; an error is the context
  that the program attaches to it, and the steps taken are recorded in order.
\<close>

datatype chain_point = Origin | Specific u64 bytes

datatype snapshot_error =
  BadNetwork string int_error
| ReadManifest string
| ParseManifest string
| ValidateManifest manifest_error
| SnapshotConnect string
| SnapshotAcquire string
| SnapshotChainPoint string
| SnapshotQuery string
| SnapshotRelease string
| SnapshotDone string
| SnapshotWrite string

record magic_numbers =
  MAINNET_MAGIC :: u64
  PREVIEW_MAGIC :: u64
  PREPROD_MAGIC :: u64

definition parse_magic :: "magic_numbers \<Rightarrow> string \<Rightarrow> snapshot_error + u64" where
  "parse_magic M s =
     (if s = ''mainnet'' then Inr (MAINNET_MAGIC M)
      else if s = ''preview'' then Inr (PREVIEW_MAGIC M)
      else if s = ''preprod'' then Inr (PREPROD_MAGIC M)
      else map_err (BadNetwork s) (parse_u64 s))"

record snapshot_files =
  sf_read_to_string :: "string list \<Rightarrow> string + bytes"
  sf_parse_manifest :: "bytes \<Rightarrow> string + snapshot_manifest"

datatype warning = TipSelected | TipByDefault

definition resolve_target ::
  "snapshot_files \<Rightarrow> string list option \<Rightarrow> bool \<Rightarrow> (snapshot_error + chain_point option) \<times> warning list" where
  "resolve_target F manifest_path snapshot_tip_flag =
     (case manifest_path of
        Some path \<Rightarrow>
          (res_bind (map_err ReadManifest (sf_read_to_string F path)) (\<lambda>raw.
           res_bind (map_err ParseManifest (sf_parse_manifest F raw)) (\<lambda>manifest.
           res_bind (map_err ValidateManifest (manifest_validate manifest)) (\<lambda>_.
           Inr (Some (Specific (sm_slot manifest) (sm_block_hash manifest)))))), [])
      | None \<Rightarrow> (Inr None, if snapshot_tip_flag then [TipSelected] else [TipByDefault]))"

datatype snapshot_step = Connected u64 | Acquired "chain_point option" | AskedPoint | Queried u16 | Released | SessionDone | Wrote bytes

record node_client =
  cl_connect :: "u64 \<Rightarrow> string + unit"
  cl_acquire :: "chain_point option \<Rightarrow> string + unit"
  cl_chain_point :: "string + chain_point"
  cl_get_utxo_whole :: "u16 \<Rightarrow> string + bytes"
  cl_send_release :: "string + unit"
  cl_send_done :: "string + unit"
  cl_write :: "bytes \<Rightarrow> string + unit"

text \<open>One awaited call: its step is taken when it succeeds.\<close>

definition session_step :: "(string \<Rightarrow> snapshot_error) \<Rightarrow> string + 'a \<Rightarrow> ('a \<Rightarrow> snapshot_step)
    \<Rightarrow> ('a \<Rightarrow> (snapshot_error + 'b) \<times> snapshot_step list) \<Rightarrow> (snapshot_error + 'b) \<times> snapshot_step list" where
  "session_step err r step k =
     (case r of Inl e \<Rightarrow> (Inl (err e), []) | Inr x \<Rightarrow> (fst (k x), step x # snd (k x)))"

definition run_session :: "node_client \<Rightarrow> u64 \<Rightarrow> u16 \<Rightarrow> chain_point option \<Rightarrow> (snapshot_error + unit) \<times> snapshot_step list" where
  "run_session cl magic era target =
     session_step SnapshotConnect (cl_connect cl magic) (\<lambda>_. Connected magic) (\<lambda>_.
     session_step SnapshotAcquire (cl_acquire cl target) (\<lambda>_. Acquired target) (\<lambda>_.
     session_step SnapshotChainPoint (cl_chain_point cl) (\<lambda>_. AskedPoint) (\<lambda>tip.
     session_step SnapshotQuery (cl_get_utxo_whole cl era) (\<lambda>_. Queried era) (\<lambda>raw.
     session_step SnapshotRelease (cl_send_release cl) (\<lambda>_. Released) (\<lambda>_.
     session_step SnapshotDone (cl_send_done cl) (\<lambda>_. SessionDone) (\<lambda>_.
     session_step SnapshotWrite (cl_write cl raw) (\<lambda>_. Wrote raw) (\<lambda>_. (Inr (), []))))))))"

definition snapshot_main ::
  "magic_numbers \<Rightarrow> snapshot_files \<Rightarrow> node_client \<Rightarrow> string \<Rightarrow> u16 \<Rightarrow> string list option \<Rightarrow> bool
     \<Rightarrow> (snapshot_error + unit) \<times> warning list \<times> snapshot_step list" where
  "snapshot_main M F cl network era manifest snapshot_tip =
     (case parse_magic M network of
        Inl e \<Rightarrow> (Inl e, [], [])
      | Inr magic \<Rightarrow>
          (case resolve_target F manifest snapshot_tip of
             (Inl e, warnings) \<Rightarrow> (Inl e, warnings, [])
           | (Inr target, warnings) \<Rightarrow>
               (case run_session cl magic era target of (r, steps) \<Rightarrow> (r, warnings, steps))))"

section \<open>What a snapshot file is\<close>

lemma session_wrote:
  assumes "run_session cl magic era target = (r, steps)"
  shows "Wrote bytes \<in> set steps \<Longrightarrow> cl_get_utxo_whole cl era = Inr bytes
      \<and> steps = [Connected magic, Acquired target, AskedPoint, Queried era, Released, SessionDone, Wrote bytes]"
    "r = Inr () \<Longrightarrow> \<exists>bytes. Wrote bytes \<in> set steps"
  using assms by (auto simp: run_session_def session_step_def split: sum.splits)

text \<open>
  The snapshot is pinned and whole: with a manifest, a file is written only after the session was
  acquired at the point of a manifest at least 2160 blocks deep, queried for the UTXO set and
  released, and it holds the answer to the query; without one, a warning is printed.
\<close>

theorem snapshot_is_pinned:
  assumes "snapshot_main M F cl network era manifest snapshot_tip = (r, warnings, steps)" "Wrote bytes \<in> set steps"
  shows "cl_get_utxo_whole cl era = Inr bytes \<and>
    (case manifest of
       None \<Rightarrow> Acquired None \<in> set steps \<and> warnings \<noteq> []
     | Some path \<Rightarrow> \<exists>raw m. sf_read_to_string F path = Inr raw \<and> sf_parse_manifest F raw = Inr m \<and> sm_stability_depth m \<ge> 2160
         \<and> (\<exists>magic. steps = [Connected magic, Acquired (Some (Specific (sm_slot m) (sm_block_hash m))), AskedPoint, Queried era,
              Released, SessionDone, Wrote bytes]))"
proof -
  from assms obtain magic target where run: "resolve_target F manifest snapshot_tip = (Inr target, warnings)"
    "run_session cl magic era target = (r, steps)"
    by (auto simp: snapshot_main_def split: sum.splits prod.splits)
  from session_wrote(1) [OF run(2) assms(2)] run(1) show ?thesis
    by (auto simp: resolve_target_def manifest_validate_def K_STABILITY_def split: option.splits if_splits)
qed

end
