(* ===== verification/Spec2Isabelle.thy ===== *)
theory Spec2Isabelle
  imports Inclusion_Witness Utxo_Leaf Raft_Storage Raft_Network Commit_Cli Ingest_Safety Claim_Proving Consensus_Node Utxo_Snapshot
begin

text \<open>
  \<^bold>\<open>The Omega commitment stack.\<close> This development models the Rust workspace
  \<open>src/omega-commitment/crates\<close>. A snapshot of a Cardano ledger is read from CBOR, turned into
  seven lists of leaf records, and committed to by a Merkle root per list and one bundle root. A
  holder of a leaf proves membership with a batch STARK and submits the proof as a claim. A raft
  cluster orders the claims, and each node applies them to a SQLite ledger, which records the leaf
  as spent and credits its value.

  \<^bold>\<open>The parts and how they interact.\<close> Paths are relative to \<open>src/omega-commitment/crates\<close>.

  \<^item> \<open>omega-utxo-snapshot\<close> asks a node for the UTXO set at a pinned point and writes the answer.
  \<^item> \<open>omega-commitment-ingest\<close> reads such snapshots into leaf records.
  \<^item> \<open>omega-commitment-core\<close> has the records, their encodings, the tree and inclusion witnesses.
  \<^item> \<open>omega-commitment-bundle\<close> recomputes the seven roots and joins them; \<open>omega-commitment-cli\<close>
    writes the legacy tree of one input and its witnesses.
  \<^item> \<open>omega-claim-tx\<close> has the claim transaction and its bytes, \<open>omega-claim-prover\<close> the checks,
    constraint systems and traces of a proof, \<open>omega-claim-verifier\<close> the acceptance of a proof.
  \<^item> \<open>omega-mock-ledger\<close> applies claims in a writer thread, behind the storage interface of raft.
  \<^item> \<open>omega-network\<close> carries raft messages and snapshots, \<open>omega-toy-consensus\<close> starts a node and
    answers JSON-RPC.

  \<^bold>\<open>Theories and sources.\<close>

  \<^item> \<open>Omega_Prelude\<close>: machine words, results (\<open>Result<T, E>\<close> is \<open>'e + 'a\<close>, the operator \<open>?\<close> is
    \<open>res_bind\<close>), byte orders, checked conversions, sorting and the generic lemmas on them.
  \<^item> \<open>Merkle_Tree\<close>: \<open>hash.rs\<close> and \<open>tree.rs\<close> of the core crate. \<open>build_v1\<close> is the tagged tree with
    sorted and padded leaves, the legacy builder the untagged one; the layer loop is a recursive
    function with a termination proof.
  \<^item> \<open>Inclusion_Witness\<close>: \<open>witness.rs\<close>, and the path walked in the tagged tree.
  \<^item> \<open>Leaf_Encoding\<close>, \<open>Utxo_Leaf\<close>: the seven records with encodings, validators and leaf hashes
    (\<open>header_leaf.rs\<close>, \<open>tx_index_leaf.rs\<close>, \<open>token_policy_leaf.rs\<close>, \<open>script_registry_leaf.rs\<close>,
    \<open>stake_state_leaf.rs\<close>, \<open>governance_state_leaf.rs\<close>, \<open>utxo_leaf.rs\<close>) and \<open>snapshot_manifest.rs\<close>.
  \<^item> \<open>Commitment_Bundle\<close>: \<open>sub_tree_id.rs\<close>, \<open>recompute.rs\<close>, \<open>bundle.rs\<close>; \<open>Commit_Cli\<close>: the command
    \<open>commit\<close> of \<open>omega-commitment-cli/src/main.rs\<close>.
  \<^item> \<open>Ledger_Ingest\<close>: the five readers of the ingest crate with its \<open>cbor.rs\<close>; \<open>Ingest_Safety\<close>
    compares them with one reader of an abstract snapshot. \<open>Utxo_Snapshot\<close>: the snapshot program.
  \<^item> \<open>Claim_Wire\<close>: \<open>omega-claim-tx/src/lib.rs\<close>, with \<open>to_cbor\<close> and \<open>from_cbor\<close>.
  \<^item> \<open>Claim_Prover\<close>, \<open>Baby_Bear\<close>, \<open>Blake3_Trace\<close>, \<open>Membership_Air\<close>, \<open>Membership_Trace\<close> and
    \<open>Claim_Proving\<close>: the prover crate, in the order witness checks and binding digest, the field,
    the compression function and its table (\<open>blake3_trace.rs\<close>), the constraints and lookups of
    \<open>OmegaProofAir\<close>, the trace builders, \<open>prove_collection\<close>. \<open>Membership_Soundness\<close> and
    \<open>Membership_Completeness\<close> hold the proofs about them.
  \<^item> \<open>Claim_Verifier\<close>: \<open>omega-claim-verifier/src/lib.rs\<close>.
  \<^item> \<open>Mock_Ledger\<close>: \<open>schema.rs\<close>, \<open>lib.rs\<close>, \<open>writer.rs\<close> and the commands of \<open>storage.rs\<close>;
    \<open>Ledger_Safety\<close>: runs of the writer; \<open>Raft_Storage\<close>: the storage adapter of \<open>storage.rs\<close>.
  \<^item> \<open>Snapshot_Transfer\<close>: \<open>snapshot.rs\<close> of the network crate; \<open>Raft_Network\<close>: its \<open>protocol.rs\<close>,
    \<open>rpc.rs\<close>, \<open>network.rs\<close>, \<open>inbound.rs\<close>, \<open>discovery.rs\<close>.
  \<^item> \<open>Node_Config\<close>, \<open>Consensus_Rpc\<close>, \<open>Consensus_Node\<close>: \<open>config.rs\<close>, \<open>error.rs\<close>, \<open>rpc/*.rs\<close>,
    \<open>routing.rs\<close> and \<open>node.rs\<close> of \<open>omega-toy-consensus\<close>.

  \<^bold>\<open>State and effects.\<close> The five SQLite tables are finite maps in the record \<open>ledger_db\<close>; a
  transaction returns the new tables or, on an error, the old ones. The writer thread is a step
  function on \<open>writer_state\<close> (tables, snapshot files, attached database), and a run is the list of
  its commands. Receivers, swarms and start-up are step functions or lists of events. A panic of
  the source is an outer \<open>None\<close> or a value of its own; an early return is a branch. Integers keep
  their width as words; \<open>usize\<close> is \<open>nat\<close> where the code cannot reach its bound, and a
  conversion that the code checks is checked in the model. The three fail points of the feature
  \<open>failpoints\<close> are flags: \<open>fp\<close> of \<open>apply_claim_tx\<close>, \<open>net_append_entries\<close> and \<open>net_vote\<close>, and
  \<open>le_writer_close\<close> of the writer's environment, where it keeps its setting during a run. A build
  without the feature has them all \<open>False\<close>; the properties hold for both settings unless they say
  which one they need.
\<close>

text \<open>
  \<^bold>\<open>Libraries as parameters.\<close> Code outside the workspace is an argument of the definitions, and
  what the proofs need of it is a named predicate with an instance in the witnesses.

  \<^item> Digests are functions \<open>H\<close> (BLAKE3) and \<open>S\<close> (SHA3) on bytes; \<open>digest32\<close> fixes the length of
    the result. Collision freedom is injectivity on the finite set of strings actually hashed, so
    that it can hold. \<open>blake3_law\<close> says that inputs of one or two blocks are hashed by the
    compressions of the specification.
  \<^item> The batch STARK is \<open>stark_lib\<close> for the verifier and \<open>stark_prover\<close> for the prover.
    \<open>stark_sound\<close> extracts satisfying traces, with fewer lookups than the field has elements, from an
    accepted proof. It is an idealisation: the real library errs with small probability, and nothing
    in it enforces the bound on lookups. \<open>stark_complete\<close> says that satisfying traces give
    accepted proofs. \<open>blake3_air_law\<close> and \<open>blake3_air_accepts\<close> relate rows of the table to compressions,
    \<open>bits_le_law\<close> describes \<open>u32_to_bits_le\<close>, \<open>postcard_law\<close> the codec.
  \<^item> CBOR is \<open>cbor_lib\<close> and \<open>ingest_cbor\<close> (minicbor), and \<open>raft_codec\<close> (ciborium, \<open>codec_laws\<close>).
    \<open>sqlite_laws\<close> gives what is assumed of the snapshot encoding of the database.
  \<^item> libp2p, openraft (\<open>raft_applies\<close>: a successful write answers with the writer's reply for its log entry), jsonrpsee, pallas, JSON and hex parsers and the file
    system appear as functions for the calls the code makes.

  \<^bold>\<open>Interfaces.\<close> Four locales state contracts that several components share.
  \<open>leaf_commitment\<close> (an encoding determines the record) is interpreted for all seven records;
  \<open>merkle_node\<close> (the root determines the leaf at a path) for the tagged and the legacy node;
  \<open>claim_register\<close> (a step adds exactly the claims it reports) for raft entries and for the
  writer; \<open>raft_log_store\<close> (reading after appending, truncating and purging) for the adapter.

  \<^bold>\<open>What the properties show.\<close>

  \<^item> Trees and bundles: a tagged root determines sub-tree and payloads; \<open>build_v1\<close> builds the
    complete tree over the sorted and padded leaves; its loop ends after the logarithm of the leaf
    count; a duplicate is reported at the first position; inclusion paths are complete and
    sound; the bundle root determines all seven lists, and \<open>verify\<close> of a bundle accepts exactly
    what recomputation gives; the witness files of \<open>commit\<close> verify.
  \<^item> Claims: the bytes of a claim decode to it, and whatever decodes carries its canonical payload; an honest proof is
    accepted; an accepted proof opens the committed tree; a tampered trace breaks a constraint; the
    row of the table computes the compression function; the counts of lookups stay below the
    characteristic. Two limits are theorems as well: \<open>verify\<close> accepts a claim of the padding leaf
    from a prover that skips its validation, and the trace of a tree with one leaf breaks a constraint.
  \<^item> Ledger: a claim is admitted under exactly stated conditions with an exactly stated effect; no
    leaf is claimed twice in any run of the writer; tables keep their invariant; snapshot and
    restore are inverse. The weaknesses are theorems: the claimant chooses the credited
    value and the commitment, equal credits collide, and an installed snapshot replaces the vote
    and leaves metadata of a removed file. The property of this theory joins verifier and ledger.
  \<^item> Raft and node: a conflicting tail is replaced; a transferred snapshot is installed, and what
    is installed matches its declared length and digest; messages survive framing; replies
    reach the call they answer; one node initialises the cluster; \<open>submit_claim\<close> reports what the
    ledger decided on the tables that the writer had at the entry of the claim.
  \<^item> Ingestion: readers invert the wire format, keep canonical order and conserve quantities.

  \<^bold>\<open>Bounds and termination.\<close> There is no fuel: every loop is structural recursion or has a
  termination measure (for example layers of the tree and \<open>chunks\<close>). Lookups are balanced modulo the
  BabyBear prime; up to two to the power 21 witnesses, with traces of at most 256 rows each, the
  counts stay below it, which is why completeness carries that bound. SQLite integers bound
  indices and values by two to the power 63, as the checks of the code do.

  \<^bold>\<open>Not modelled.\<close> The inside of Plonky3 (polynomial commitments, challenges and
  \<open>make_stark_config\<close>), since only its source could say what it does; its error probability. The serde
  derives and \<open>serde_helpers.rs\<close>, which adapt formats that are parameters here. Argument parsing,
  printing and tracing of the command lines. Sockets, timers, the connection pool, PRAGMAs and the
  periodic checkpoint task of the ledger, and disk failures below the calls the code checks. SQLite's
  own error texts (one fixed text per kind stands for them), and snapshot files with a foreign schema
  beyond those without the ledger's tables. Changes of a fail point in the middle of a run. The
  file \<open>cardano.rs\<close>, which documents a hook and has no code. Tests, benches, examples, scripts, Kani
  harnesses and the fixtures of the prover. Two threads are never interleaved below a
  command: the writer thread owns the tables, and its channel delivers one command at a time.
\<close>

section \<open>Claims from the proof to the tables\<close>

text \<open>
  C3. The verifier and the ledger together: when the ledger admits a claim transaction, each of
  its public inputs was unclaimed before and is recorded after it, and the accepted proof stands
  for a payload with a Merkle path from the leaf of the claimed index to the claimed root. For a
  sub-tree root of a committed tree, and no collision among the strings hashed, the leaf is a
  committed one or the padding sentinel. The proof library and BLAKE3 enter as hypotheses.
\<close>

theorem admitted_claim_is_backed:
  assumes "digest32 H" "blake3_law H" "blake3_air_law A" "stark_sound A V"
    and "list_all public_wf (claim_publics claim)" "apply_claim_tx fp H V b cm claim db = (Inr (), db')" "p \<in> set (claim_publics claim)"
  shows "claim_key p \<notin> dom (nullifiers db) \<and> claim_key p \<in> dom (nullifiers db') \<and>
    (\<exists>payload path. membership_statement H p payload path \<and>
      (\<forall>leaves t. commits_to H cm (cp_sub_tree_id p) leaves t \<longrightarrow>
         inj_on H (membership_preimages H (cp_sub_tree_id p) (cp_leaf_index p) payload path
           \<union> v1_preimages H (cp_sub_tree_id p) leaves) \<longrightarrow>
         v1_member leaves (cp_leaf_index p) payload \<or> v1_padding leaves (cp_leaf_index p) payload))"
proof -
  from assms(6) have adm: "claim_admissible H V b cm claim db" and eff: "db' = claim_effect H b claim db"
    by (simp_all add: apply_claim_tx_Inr)
  from adm have "verify H V cm (claim_publics claim) (claim_proof claim) = Inr ()" by (simp add: claim_admissible_def)
  from accepted_proof_sound [OF assms(1-5) this assms(7)] show ?thesis
    using admissible_keys [OF adm] assms(7) claim_effect_spent [of H b claim db] eff by auto
qed

definition pair_claim :: claim_tx where
  "pair_claim = ClaimTxUtxo \<lparr>cu_public = pair_public,
     cu_witness = \<lparr>cw_leaf_payload = [7], cw_merkle_path = [replicate 32 0], cw_signing_key_proof = []\<rparr>, cu_proof = ProofBytes []\<rparr>"

theorem admitted_claim_is_backed_witness:
  "\<exists>db'. apply_claim_tx False blake3_two_blocks pair_stark 5 pair_commitment pair_claim create_tables = (Inr (), db')
     \<and> claim_key pair_public \<in> dom (nullifiers db')"
proof -
  have "claim_admissible blake3_two_blocks pair_stark 5 pair_commitment pair_claim create_tables"
    using pair_verifies
    by (simp add: claim_admissible_def pair_claim_def claim_pairs_def i64_ok_def pair_public_def create_tables_def fresh_rows_def payload_value_def)
  then obtain db' where step: "apply_claim_tx False blake3_two_blocks pair_stark 5 pair_commitment pair_claim create_tables = (Inr (), db')"
    by (simp add: apply_claim_tx_Inr)
  have "blake3_air_law table_air" "stark_sound table_air pair_stark"
    using pair_batch by (auto simp: blake3_air_law_def table_air_def stark_sound_def pair_stark_def)
  with admitted_claim_is_backed [OF blake3_two_blocks_laws _ _ _ step, of table_air pair_public] step pair_public_wf
  show ?thesis by (simp add: pair_claim_def)
qed

end
